(* ===== verification/Prelude.thy ===== *)
theory Prelude
  imports Main "HOL-Library.Word"
begin

text \<open>
  Shared vocabulary of the development: bytes and Go strings, the errors and the runtime
  panics of the code, the result types built from them, and the generic lemmas the
  components use. A Go \<open>byte\<close> is an \<open>8 word\<close>, a Go \<open>string\<close> is the list of its
  bytes as HOL characters (a HOL \<open>char\<close> has exactly 8 bits), and the conversions
  \<open>[]byte(s)\<close> and \<open>string(b)\<close> are the two functions below.
\<close>

section \<open>Collections of facts\<close>

named_theorems wf_intros \<open>well-formedness is kept by the operations\<close>
named_theorems stream_simps \<open>rewrite rules for reading and writing streams\<close>
named_theorems chan_simps \<open>rewrite rules for channel operations\<close>

section \<open>Bytes and strings\<close>

type_synonym byte = "8 word"
type_synonym bytes = "8 word list"
type_synonym int64 = "64 word"
type_synonym uint32 = "32 word"

definition byte_of_char :: "char \<Rightarrow> byte" where
  "byte_of_char c = word_of_nat (of_char c)"

definition char_of_byte :: "byte \<Rightarrow> char" where
  "char_of_byte b = char_of (unat b)"

definition bytes_of_string :: "string \<Rightarrow> bytes" where
  "bytes_of_string s = map byte_of_char s"

definition string_of_bytes :: "bytes \<Rightarrow> string" where
  "string_of_bytes bs = map char_of_byte bs"

lemma char_of_byte_of_char [simp]: "char_of_byte (byte_of_char c) = c"
proof -
  have "unat (word_of_nat (of_char c) :: byte) = of_char c"
    by (simp add: unsigned_of_nat take_bit_nat_eq_self)
  then show ?thesis
    by (simp add: char_of_byte_def byte_of_char_def)
qed

lemma byte_of_char_of_byte [simp]: "byte_of_char (char_of_byte b) = b"
proof -
  have "unat b < 256"
    using unsigned_less [of b, where ?'a = nat] by simp
  then have "(of_char (char_of (unat b)) :: nat) = unat b"
    by simp
  then show ?thesis
    by (simp add: char_of_byte_def byte_of_char_def)
qed

lemma byte_of_char_eq_iff [simp]: "byte_of_char c = byte_of_char d \<longleftrightarrow> c = d"
  by (metis char_of_byte_of_char)

lemma string_of_bytes_of_string [simp]: "string_of_bytes (bytes_of_string s) = s"
  by (simp add: string_of_bytes_def bytes_of_string_def comp_def)

lemma bytes_of_string_of_bytes [simp]: "bytes_of_string (string_of_bytes bs) = bs"
  by (simp add: string_of_bytes_def bytes_of_string_def comp_def)

lemma length_bytes_of_string [simp]: "length (bytes_of_string s) = length s"
  by (simp add: bytes_of_string_def)

lemma length_string_of_bytes [simp]: "length (string_of_bytes bs) = length bs"
  by (simp add: string_of_bytes_def)

lemma bytes_of_string_append [simp]:
  "bytes_of_string (s @ t) = bytes_of_string s @ bytes_of_string t"
  by (simp add: bytes_of_string_def)

lemma string_of_bytes_append [simp]:
  "string_of_bytes (a @ b) = string_of_bytes a @ string_of_bytes b"
  by (simp add: string_of_bytes_def)

lemma bytes_of_string_Nil [simp]: "bytes_of_string [] = []"
  by (simp add: bytes_of_string_def)

section \<open>Errors, panics and results\<close>

text \<open>
  The errors the code tells apart are constructors; every other error is its text. An
  error made with \<open>%w\<close> keeps the error it wraps, one made with \<open>%v\<close> keeps its text only.
\<close>

datatype go_error =
    EOF
  | ErrUnexpectedEOF
  | ErrShortBuffer
  | OtherError string
  | Wrapf string go_error

fun error_text :: "go_error \<Rightarrow> string" where
  "error_text EOF = ''EOF''"
| "error_text ErrUnexpectedEOF = ''unexpected EOF''"
| "error_text ErrShortBuffer = ''short buffer''"
| "error_text (OtherError s) = s"
| "error_text (Wrapf s e) = s @ '': '' @ error_text e"

definition Errorf_v :: "string \<Rightarrow> go_error \<Rightarrow> go_error" where
  "Errorf_v s e = OtherError (s @ '': '' @ error_text e)"

text \<open>The runtime panics the code can raise. None of them is recovered in the broker, the
  producer or the consumer, so there a panic ends the process.\<close>

datatype panic =
    SendOnClosedChannel
  | CloseOfClosedChannel
  | CloseOfNilChannel
  | MakeChanSize
  | SliceBounds
  | NilMapWrite
  | NilDereference
  | ExplicitPanic string

type_synonym 'a go = "panic + 'a"

fun bind_go :: "'a go \<Rightarrow> ('a \<Rightarrow> 'b go) \<Rightarrow> 'b go" where
  "bind_go (Inl p) f = Inl p"
| "bind_go (Inr x) f = f x"

lemma bind_go_eq_Inr: "bind_go m f = Inr y \<longleftrightarrow> (\<exists>x. m = Inr x \<and> f x = Inr y)"
  by (cases m) auto

lemma bind_go_eq_Inl: "bind_go m f = Inl p \<longleftrightarrow> m = Inl p \<or> (\<exists>x. m = Inr x \<and> f x = Inl p)"
  by (cases m) auto

lemma bind_go_assoc: "bind_go (bind_go m f) g = bind_go m (\<lambda>x. bind_go (f x) g)"
  by (cases m) auto

lemma bind_go_cong [fundef_cong]:
  "m = m' \<Longrightarrow> (\<And>x. m' = Inr x \<Longrightarrow> f x = f' x) \<Longrightarrow> bind_go m f = bind_go m' f'"
  by (cases m') auto

section \<open>Lists\<close>

lemma takeWhile_neq_append:
  "x \<notin> set xs \<Longrightarrow> takeWhile (\<lambda>y. y \<noteq> x) (xs @ x # ys) = xs"
  by (induction xs) auto

lemma dropWhile_neq_append:
  "x \<notin> set xs \<Longrightarrow> dropWhile (\<lambda>y. y \<noteq> x) (xs @ x # ys) = x # ys"
  by (induction xs) auto

lemma length_dropWhile_less:
  "x \<in> set xs \<Longrightarrow> length (drop 1 (dropWhile (\<lambda>y. y \<noteq> x) xs)) < length xs"
  by (induction xs) (auto simp: less_Suc_eq length_dropWhile_le)

lemma bex_list_update:
  "i < length xs \<Longrightarrow> \<not> P (xs ! i) \<Longrightarrow>
   (\<exists>x \<in> set (xs[i := y]). P x) \<longleftrightarrow> (\<exists>x \<in> set xs. P x) \<or> P y"
proof (induction xs arbitrary: i)
  case (Cons a xs)
  then show ?case by (cases i) auto
qed simp

end
