(* ===== verification/GoIO.thy ===== *)
theory GoIO
  imports Prelude
begin

text \<open>
  The byte streams under a connection, with the parts of \<open>io\<close>, \<open>bufio\<close> and \<open>net\<close> the code
  calls. Reading side: the bytes still to come and the error that ends them (\<open>EOF\<close> for an
  orderly close, another error for a broken connection), first as one flat stream
  (\<open>instream\<close>), then cut into the chunks single \<open>Read\<close> calls return (\<open>segstream\<close>).
  Writing side: the bytes written and how many more the peer accepts before \<open>Write\<close> fails.
  The locale \<open>full_reader\<close> is what \<open>protocol.ReadFrame\<close> relies on in its \<open>io.Reader\<close>.
\<close>

section \<open>Reading\<close>

record instream =
  avail :: bytes
  fin :: go_error

type_synonym read_result = "bytes \<times> go_error option"

text \<open>\<open>io.ReadFull(r, p)\<close> with \<open>len(p) = n\<close>: the bytes put at the front of \<open>p\<close> and the
  error. \<open>EOF\<close> is reported as such only when no byte was read.\<close>

definition short_error :: "bytes \<Rightarrow> go_error \<Rightarrow> go_error" where
  "short_error got e = (if e = EOF \<and> got \<noteq> [] then ErrUnexpectedEOF else e)"

definition ReadFull :: "nat \<Rightarrow> instream \<Rightarrow> read_result \<times> instream" where
  "ReadFull n r =
     (if n \<le> length (avail r)
      then ((take n (avail r), None), r\<lparr>avail := drop n (avail r)\<rparr>)
      else ((avail r, Some (short_error (avail r) (fin r))), r\<lparr>avail := []\<rparr>))"

lemma ReadFull_enough [stream_simps]:
  "n \<le> length (avail r) \<Longrightarrow>
   ReadFull n r = ((take n (avail r), None), r\<lparr>avail := drop n (avail r)\<rparr>)"
  by (simp add: ReadFull_def)

lemma ReadFull_short [stream_simps]:
  "length (avail r) < n \<Longrightarrow>
   ReadFull n r = ((avail r, Some (short_error (avail r) (fin r))), r\<lparr>avail := []\<rparr>)"
  by (simp add: ReadFull_def)

lemma ReadFull_ok:
  "ReadFull n r = ((bs, None), r') \<longleftrightarrow>
   n \<le> length (avail r) \<and> bs = take n (avail r) \<and> r' = r\<lparr>avail := drop n (avail r)\<rparr>"
  by (auto simp: ReadFull_def)

lemma ReadFull_length: "ReadFull n r = ((bs, e), r') \<Longrightarrow> length bs \<le> n"
  by (auto simp: ReadFull_def split: if_splits)

text \<open>\<open>bufio.Reader.ReadString('\n')\<close>: everything up to and including the newline; without
  one, the error that ends the stream. The rest stays in the reader.\<close>

definition newline :: byte where "newline = 10"

definition ReadString :: "instream \<Rightarrow> (go_error + bytes) \<times> instream" where
  "ReadString r =
     (if newline \<in> set (avail r)
      then (Inr (takeWhile (\<lambda>b. b \<noteq> newline) (avail r) @ [newline]),
            r\<lparr>avail := drop 1 (dropWhile (\<lambda>b. b \<noteq> newline) (avail r))\<rparr>)
      else (Inl (fin r), r\<lparr>avail := []\<rparr>))"

lemma ReadString_line [stream_simps]:
  "newline \<notin> set l \<Longrightarrow> avail r = l @ newline # rest \<Longrightarrow>
   ReadString r = (Inr (l @ [newline]), r\<lparr>avail := rest\<rparr>)"
  by (simp add: ReadString_def takeWhile_neq_append dropWhile_neq_append)

section \<open>Reading a segmented stream\<close>

text \<open>A TCP connection hands its bytes over in segments: one \<open>Read(p)\<close> returns at most
  \<open>len(p)\<close> bytes, and at most what has arrived. \<open>io.ReadFull\<close> is a loop over such reads.\<close>

record segstream =
  segments :: "bytes list"
  seg_fin :: go_error

definition conn_Read :: "nat \<Rightarrow> segstream \<Rightarrow> read_result \<times> segstream" where
  "conn_Read n c =
     (case segments c of
        [] \<Rightarrow> (([], Some (seg_fin c)), c)
      | s # ss \<Rightarrow>
          (if length s \<le> n then ((s, None), c\<lparr>segments := ss\<rparr>)
           else ((take n s, None), c\<lparr>segments := drop n s # ss\<rparr>)))"

function ReadFull_loop :: "bytes \<Rightarrow> nat \<Rightarrow> segstream \<Rightarrow> read_result \<times> segstream" where
  "ReadFull_loop got n c =
     (if n = 0 then ((got, None), c)
      else case conn_Read n c of
        ((bs, None), c') \<Rightarrow> ReadFull_loop (got @ bs) (n - length bs) c'
      | ((bs, Some e), c') \<Rightarrow> ((got @ bs, Some (short_error (got @ bs) e)), c'))"
  by pat_completeness auto
termination
  by (relation "measure (\<lambda>(got, n, c). length (segments c) + n)")
     (auto simp: conn_Read_def split: list.splits if_splits)

declare ReadFull_loop.simps [simp del]

lemma ReadFull_loop_0 [simp]: "ReadFull_loop got 0 c = ((got, None), c)"
  by (simp add: ReadFull_loop.simps)

definition ReadFull_seg :: "nat \<Rightarrow> segstream \<Rightarrow> read_result \<times> segstream" where
  "ReadFull_seg n c = ReadFull_loop [] n c"

definition flat :: "segstream \<Rightarrow> instream" where
  "flat c = \<lparr>avail = concat (segments c), fin = seg_fin c\<rparr>"

lemma conn_Read_None:
  assumes "conn_Read n c = ((bs, None), c')"
  shows "length bs \<le> n \<and> avail (flat c) = bs @ avail (flat c') \<and> fin (flat c') = fin (flat c)"
proof (cases "segments c")
  case Nil
  with assms show ?thesis by (simp add: conn_Read_def)
next
  case (Cons s ss)
  show ?thesis
  proof (cases "length s \<le> n")
    case True
    with assms Cons have "bs = s" and "c' = c\<lparr>segments := ss\<rparr>"
      by (auto simp: conn_Read_def)
    with True Cons show ?thesis by (simp add: flat_def)
  next
    case False
    with assms Cons have "bs = take n s" and "c' = c\<lparr>segments := drop n s # ss\<rparr>"
      by (auto simp: conn_Read_def)
    with Cons show ?thesis by (simp add: flat_def)
  qed
qed

lemma conn_Read_Some:
  "conn_Read n c = ((bs, Some e), c') \<Longrightarrow>
   bs = [] \<and> e = fin (flat c) \<and> c' = c \<and> avail (flat c) = []"
  by (cases "segments c") (auto simp: conn_Read_def flat_def split: if_split_asm)

text \<open>One call of the loop, seen on the flat stream: it reads \<open>rd\<close>, all it was asked for if
  the stream has that much, else all there is.\<close>

definition loop_reads :: "bytes \<Rightarrow> nat \<Rightarrow> instream \<Rightarrow> bytes \<Rightarrow> read_result \<Rightarrow> instream \<Rightarrow> bool" where
  "loop_reads got n r rd res r' \<longleftrightarrow>
     fst res = got @ rd \<and> avail r = rd @ avail r' \<and> fin r' = fin r \<and>
     (if n \<le> length (avail r) then snd res = None \<and> length rd = n
      else snd res = Some (short_error (fst res) (fin r)) \<and> avail r' = [])"

lemma loop_reads_step:
  assumes "length bs \<le> n" and "avail r = bs @ avail r1" and "fin r1 = fin r"
    and "loop_reads (got @ bs) (n - length bs) r1 rd res r'"
  shows "loop_reads got n r (bs @ rd) res r'"
proof -
  have le: "n - length bs \<le> length (avail r1) \<longleftrightarrow> n \<le> length (avail r)"
    using assms(1,2) by auto
  from assms(4) have res: "fst res = got @ (bs @ rd)" and av: "avail r1 = rd @ avail r'"
    and fin': "fin r' = fin r1"
    and rest: "if n \<le> length (avail r) then snd res = None \<and> length rd = n - length bs
      else snd res = Some (short_error (fst res) (fin r1)) \<and> avail r' = []"
    unfolding loop_reads_def le append_assoc by blast+
  have "if n \<le> length (avail r) then snd res = None \<and> length (bs @ rd) = n
      else snd res = Some (short_error (fst res) (fin r)) \<and> avail r' = []"
    using rest assms(1,3) by (cases "n \<le> length (avail r)") simp_all
  moreover have "avail r = (bs @ rd) @ avail r'"
    using assms(2) av by simp
  ultimately show ?thesis
    unfolding loop_reads_def using res fin' assms(3) by simp
qed

lemma ReadFull_loop_flat:
  "ReadFull_loop got n c = (res, c') \<Longrightarrow> \<exists>rd. loop_reads got n (flat c) rd res (flat c')"
proof (induction got n c rule: ReadFull_loop.induct)
  case (1 got n c)
  show ?case
  proof (cases "n = 0")
    case True
    with "1.prems" show ?thesis
      by (intro exI [of _ "[]"]) (auto simp: loop_reads_def)
  next
    case False
    obtain bs r c1 where read: "conn_Read n c = ((bs, r), c1)"
      by (metis prod.exhaust)
    show ?thesis
    proof (cases r)
      case None
      note bs = conn_Read_None [OF read [unfolded None]]
      from "1.prems" False read None
      have "ReadFull_loop (got @ bs) (n - length bs) c1 = (res, c')"
        by (simp add: ReadFull_loop.simps [of got n c])
      from "1.IH" [OF False read [symmetric] refl None this] obtain rd
        where "loop_reads (got @ bs) (n - length bs) (flat c1) rd res (flat c')" ..
      with bs have "loop_reads got n (flat c) (bs @ rd) res (flat c')"
        by (blast intro: loop_reads_step)
      then show ?thesis ..
    next
      case (Some e)
      from conn_Read_Some [OF read [unfolded Some]] "1.prems" False read Some
      show ?thesis
        by (intro exI [of _ "[]"]) (auto simp: ReadFull_loop.simps [of got n c] loop_reads_def)
    qed
  qed
qed

lemma loop_reads_ReadFull: "loop_reads [] n r rd res r' \<Longrightarrow> ReadFull n r = (res, r')"
  by (cases res; cases r; cases r') (auto simp: loop_reads_def ReadFull_def split: if_splits)

section \<open>What ReadFrame needs of a reader\<close>

text \<open>
  A reader with an \<open>io.ReadFull\<close> and a view of it as a flat stream, such that \<open>ReadFull\<close>
  returns what it returns on that flat stream and leaves the rest of it.
\<close>

locale full_reader =
  fixes rf :: "nat \<Rightarrow> 'r \<Rightarrow> read_result \<times> 'r"
    and view :: "'r \<Rightarrow> instream"
  assumes rf_view: "rf n r = (res, r') \<Longrightarrow> ReadFull n (view r) = (res, view r')"

interpretation flat_reader: full_reader ReadFull "\<lambda>r. r"
  by unfold_locales

lemma ReadFull_seg_flat: "ReadFull_seg n c = (res, c') \<Longrightarrow> ReadFull n (flat c) = (res, flat c')"
  unfolding ReadFull_seg_def by (blast dest: ReadFull_loop_flat intro: loop_reads_ReadFull)

interpretation seg_reader: full_reader ReadFull_seg flat
  by unfold_locales (rule ReadFull_seg_flat)

section \<open>Writing\<close>

text \<open>\<open>wr_room = Some k\<close>: the connection takes \<open>k\<close> more bytes and then fails with
  \<open>wr_err\<close>; a \<open>Write\<close> that does not fit is cut there. \<open>None\<close>: it never fails.\<close>

record outstream =
  written :: bytes
  wr_room :: "nat option"
  wr_err :: go_error

definition Write :: "bytes \<Rightarrow> outstream \<Rightarrow> go_error option \<times> outstream" where
  "Write bs w =
     (case wr_room w of
        None \<Rightarrow> (None, w\<lparr>written := written w @ bs\<rparr>)
      | Some k \<Rightarrow>
          (if length bs \<le> k
           then (None, w\<lparr>written := written w @ bs, wr_room := Some (k - length bs)\<rparr>)
           else (Some (wr_err w), w\<lparr>written := written w @ take k bs, wr_room := Some 0\<rparr>)))"

definition fits :: "nat \<Rightarrow> outstream \<Rightarrow> bool" where
  "fits n w \<longleftrightarrow> (case wr_room w of None \<Rightarrow> True | Some k \<Rightarrow> n \<le> k)"

lemma Write_ok:
  "Write bs w = (None, w') \<Longrightarrow> written w' = written w @ bs \<and> fits (length bs) w"
  by (auto simp: Write_def fits_def split: option.splits if_splits)

lemma Write_prefix:
  "Write bs w = (e, w') \<Longrightarrow> \<exists>k. written w' = written w @ take k bs"
  by (auto simp: Write_def split: option.splits if_splits intro: exI [of _ "length bs"])

lemma Write_unlimited [stream_simps]:
  "wr_room w = None \<Longrightarrow> Write bs w = (None, w\<lparr>written := written w @ bs\<rparr>)"
  by (simp add: Write_def)

lemma Write_none_room: "Write bs w = (e, w') \<Longrightarrow> wr_room w' = None \<longleftrightarrow> wr_room w = None"
  by (auto simp: Write_def split: option.splits if_splits)

end
