(* ===== verification/Protocol.thy ===== *)
theory Protocol
  imports GoIO
begin

unbundle bit_operations_syntax

text \<open>
  \<open>internal/protocol/frame.go\<close>: length-prefixed frames, a 4-byte big-endian length and the
  body. \<open>ReadFrame\<close> is defined over the \<open>io.ReadFull\<close> of its reader, as the Go function is
  over \<open>io.Reader\<close>; the lemmas for every reader are proved in the locale \<open>full_reader\<close> and
  rest on the flat stream only.
\<close>

section \<open>The length header\<close>

text \<open>\<open>binary.BigEndian.PutUint32\<close> and \<open>binary.BigEndian.Uint32\<close>.\<close>

definition PutUint32 :: "uint32 \<Rightarrow> bytes" where
  "PutUint32 v = [ucast (drop_bit 24 v), ucast (drop_bit 16 v), ucast (drop_bit 8 v), ucast v]"

definition Uint32 :: "bytes \<Rightarrow> uint32" where
  "Uint32 h =
     ucast (h ! 3) OR push_bit 8 (ucast (h ! 2)) OR push_bit 16 (ucast (h ! 1))
       OR push_bit 24 (ucast (h ! 0))"

lemma length_PutUint32 [simp]: "length (PutUint32 v) = 4"
  by (simp add: PutUint32_def)

lemma Uint32_PutUint32 [simp]: "Uint32 (PutUint32 v) = v"
proof (rule bit_word_eqI)
  fix n
  assume "n < LENGTH(32)"
  then have n: "n < 32" by simp
  then consider "n < 8" | "8 \<le> n" "n < 16" | "16 \<le> n" "n < 24" | "24 \<le> n" by linarith
  then show "bit (Uint32 (PutUint32 v)) n = bit v n"
    by cases (use n in \<open>auto simp: Uint32_def PutUint32_def bit_or_iff bit_push_bit_iff
      bit_ucast_iff bit_drop_bit_eq dest: bit_imp_le_length\<close>)
qed

lemma PutUint32_Uint32 [simp]:
  assumes "length h = 4"
  shows "PutUint32 (Uint32 h) = h"
proof -
  from assms obtain b0 b1 b2 b3 where h: "h = [b0, b1, b2, b3]"
    by (auto simp: numeral_eq_Suc length_Suc_conv)
  have "ucast (drop_bit 24 (Uint32 h)) = b0" "ucast (drop_bit 16 (Uint32 h)) = b1"
    "ucast (drop_bit 8 (Uint32 h)) = b2" "ucast (Uint32 h) = b3"
    by (rule bit_word_eqI, auto simp: h Uint32_def bit_or_iff bit_push_bit_iff
      bit_ucast_iff bit_drop_bit_eq dest: bit_imp_le_length)+
  then show ?thesis
    by (simp add: PutUint32_def h)
qed

section \<open>WriteFrame and ReadFrame\<close>

definition maxFrameSize :: uint32 where
  "maxFrameSize = 1024 * 1024"

definition WriteFrame :: "bytes \<Rightarrow> outstream \<Rightarrow> go_error option \<times> outstream" where
  "WriteFrame body w =
     (case Write (PutUint32 (word_of_nat (length body))) w of
        (Some e, w') \<Rightarrow> (Some e, w')
      | (None, w') \<Rightarrow> Write body w')"

text \<open>
  \<open>buf\<close> is the caller's buffer, over its whole capacity. The result is the returned slice
  (its contents) with the error, and the array the slice lies in: \<open>buf\<close>, overwritten, when
  its capacity is enough, else a fresh array.
\<close>

definition ReadFrame ::
    "(nat \<Rightarrow> 'r \<Rightarrow> read_result \<times> 'r) \<Rightarrow> 'r \<Rightarrow> bytes \<Rightarrow> (bytes \<times> go_error option) \<times> bytes \<times> 'r"
  where
  "ReadFrame rf r buf =
     (case rf 4 r of
        ((_, Some e), r1) \<Rightarrow> (([], Some e), buf, r1)
      | ((h, None), r1) \<Rightarrow>
          (let n = Uint32 h in
           if maxFrameSize < n then (([], Some ErrShortBuffer), buf, r1)
           else
             (let arr = (if length buf < unat n then replicate (unat n) 0 else buf) in
              case rf (unat n) r1 of
                ((got, e), r2) \<Rightarrow>
                  (let arr' = got @ drop (length got) arr
                   in ((take (unat n) arr', e), arr', r2)))))"

text \<open>A frame on the wire.\<close>

definition frame :: "bytes \<Rightarrow> bytes" where
  "frame body = PutUint32 (word_of_nat (length body)) @ body"

definition frame_ok :: "bytes \<Rightarrow> bool" where
  "frame_ok body \<longleftrightarrow> length body \<le> 1048576"

lemma unat_maxFrameSize: "unat maxFrameSize = 1048576"
  by (simp add: maxFrameSize_def)

lemma length_frame [simp]: "length (frame body) = 4 + length body"
  by (simp add: frame_def)

lemma unat_length_header:
  "length body < 2 ^ 32 \<Longrightarrow> unat (word_of_nat (length body) :: uint32) = length body"
  by (simp add: unsigned_of_nat take_bit_nat_eq_self)

lemma maxFrameSize_less_iff: "maxFrameSize < n \<longleftrightarrow> 1048576 < unat n"
  by (simp add: word_less_nat_alt unat_maxFrameSize)

section \<open>Writing\<close>

lemma WriteFrame_ok:
  assumes "WriteFrame body w = (None, w')"
  shows "written w' = written w @ frame body"
proof -
  from assms obtain w1 where "Write (PutUint32 (word_of_nat (length body))) w = (None, w1)"
    and "Write body w1 = (None, w')"
    by (auto simp: WriteFrame_def split: prod.splits option.splits)
  then show ?thesis
    by (auto dest!: Write_ok simp: frame_def)
qed

lemma WriteFrame_unlimited [stream_simps]:
  "wr_room w = None \<Longrightarrow> WriteFrame body w = (None, w\<lparr>written := written w @ frame body\<rparr>)"
  by (simp add: WriteFrame_def Write_unlimited frame_def)

lemma WriteFrame_none_room: "WriteFrame body w = (e, w') \<Longrightarrow> wr_room w' = None \<longleftrightarrow> wr_room w = None"
  by (auto simp: WriteFrame_def dest: Write_none_room split: prod.splits option.splits)

text \<open>A failed \<open>WriteFrame\<close> has put a prefix of the frame on the wire.\<close>

lemma WriteFrame_prefix:
  assumes "WriteFrame body w = (e, w')"
  shows "\<exists>k. written w' = written w @ take k (frame body)"
proof -
  let ?h = "PutUint32 (word_of_nat (length body))"
  obtain e1 w1 where w1: "Write ?h w = (e1, w1)"
    by (cases "Write ?h w")
  show ?thesis
  proof (cases e1)
    case None
    with w1 assms have h: "written w1 = written w @ ?h" and b: "Write body w1 = (e, w')"
      by (auto simp: WriteFrame_def dest: Write_ok)
    from Write_prefix [OF b] obtain k where "written w' = written w1 @ take k body" ..
    with h have "written w' = written w @ take (length ?h + k) (frame body)"
      by (simp add: frame_def)
    then show ?thesis ..
  next
    case (Some x)
    with w1 assms have "w' = w1" by (simp add: WriteFrame_def)
    with Write_prefix [OF w1] obtain k where k: "written w' = written w @ take k ?h" by auto
    have "take k ?h = take (min k (length ?h)) (frame body)"
      by (auto simp: frame_def min_def)
    with k show ?thesis by metis
  qed
qed

section \<open>Reading from a flat stream\<close>

text \<open>What \<open>ReadFrame\<close> does is decided by the first bytes of the stream; the buffer only
  says where the body goes.\<close>

lemma ReadFrame_header_short [stream_simps]:
  "length (avail r) < 4 \<Longrightarrow>
   ReadFrame ReadFull r buf = (([], Some (short_error (avail r) (fin r))), buf, r\<lparr>avail := []\<rparr>)"
  by (simp add: ReadFrame_def ReadFull_short)

lemma ReadFrame_too_large [stream_simps]:
  "4 \<le> length (avail r) \<Longrightarrow> maxFrameSize < Uint32 (take 4 (avail r)) \<Longrightarrow>
   ReadFrame ReadFull r buf = (([], Some ErrShortBuffer), buf, r\<lparr>avail := drop 4 (avail r)\<rparr>)"
  by (simp add: ReadFrame_def ReadFull_enough)

definition body_array :: "bytes \<Rightarrow> bytes \<Rightarrow> bytes" where
  "body_array buf body =
     body @ drop (length body)
       (if length buf < length body then replicate (length body) 0 else buf)"

lemma ReadFrame_body:
  assumes len: "4 \<le> length (avail r)" and ok: "\<not> maxFrameSize < Uint32 (take 4 (avail r))"
    and n: "n = unat (Uint32 (take 4 (avail r)))" and more: "4 + n \<le> length (avail r)"
  shows "ReadFrame ReadFull r buf =
    ((take n (drop 4 (avail r)), None), body_array buf (take n (drop 4 (avail r))),
     r\<lparr>avail := drop (4 + n) (avail r)\<rparr>)"
proof -
  let ?r1 = "r\<lparr>avail := drop 4 (avail r)\<rparr>" and ?got = "take n (drop 4 (avail r))"
  have lg: "length ?got = n"
    using more by simp
  have "n \<le> length (avail ?r1)" using more by simp
  from ReadFull_enough [OF this]
  have body: "ReadFull n ?r1 = ((?got, None), r\<lparr>avail := drop (4 + n) (avail r)\<rparr>)"
    by (simp add: add.commute)
  have got: "take n (?got @ xs) = ?got" for xs
    using more by simp
  show ?thesis
    unfolding ReadFrame_def ReadFull_enough [OF len] prod.case option.case Let_def
      if_not_P [OF ok] n [symmetric] body got lg body_array_def ..
qed

lemma ReadFrame_body_short:
  assumes len: "4 \<le> length (avail r)" and ok: "\<not> maxFrameSize < Uint32 (take 4 (avail r))"
    and n: "n = unat (Uint32 (take 4 (avail r)))" and more: "length (avail r) < 4 + n"
  shows "\<exists>body arr. ReadFrame ReadFull r buf =
    ((body, Some (short_error (drop 4 (avail r)) (fin r))), arr, r\<lparr>avail := []\<rparr>)"
proof -
  let ?r1 = "r\<lparr>avail := drop 4 (avail r)\<rparr>"
  have "length (avail ?r1) < n" using more len by simp
  from ReadFull_short [OF this]
  have body: "ReadFull n ?r1 =
      ((drop 4 (avail r), Some (short_error (drop 4 (avail r)) (fin r))), r\<lparr>avail := []\<rparr>)"
    by simp
  show ?thesis
    unfolding ReadFrame_def ReadFull_enough [OF len] prod.case option.case Let_def
      if_not_P [OF ok] n [symmetric] body
    by blast
qed

lemma ReadFrame_frame:
  assumes "frame_ok body"
  shows "ReadFrame ReadFull \<lparr>avail = frame body @ rest, fin = e\<rparr> buf =
    ((body, None), body_array buf body, \<lparr>avail = rest, fin = e\<rparr>)"
proof -
  let ?r = "\<lparr>avail = frame body @ rest, fin = e\<rparr>"
  have hd: "take 4 (avail ?r) = PutUint32 (word_of_nat (length body))"
    and tl: "drop 4 (avail ?r) = body @ rest"
    by (simp_all add: frame_def)
  have n: "length body = unat (Uint32 (take 4 (avail ?r)))"
    using assms unfolding hd by (simp add: frame_ok_def unat_length_header)
  have small: "\<not> maxFrameSize < Uint32 (take 4 (avail ?r))"
    using assms unfolding maxFrameSize_less_iff n [symmetric] by (simp add: frame_ok_def)
  have len: "4 \<le> length (avail ?r)" and more: "4 + length body \<le> length (avail ?r)"
    by simp_all
  have "drop (4 + length body) (avail ?r) = rest"
    using tl by (metis add.commute append_eq_conv_conj drop_drop)
  with ReadFrame_body [OF len small n more, of buf] show ?thesis
    unfolding tl by simp
qed

text \<open>Every successful read takes at least the header off the stream, so a loop of reads
  ends.\<close>

lemma ReadFrame_okE:
  assumes "ReadFrame ReadFull r buf = ((body, None), arr, r')"
  obtains "4 \<le> length (avail r)" "\<not> maxFrameSize < Uint32 (take 4 (avail r))"
    "length body = unat (Uint32 (take 4 (avail r)))" "4 + length body \<le> length (avail r)"
    "body = take (length body) (drop 4 (avail r))" "arr = body_array buf body"
    "r' = r\<lparr>avail := drop (4 + length body) (avail r)\<rparr>"
proof -
  have len: "4 \<le> length (avail r)"
    using assms ReadFrame_header_short [of r buf] by (cases "4 \<le> length (avail r)") auto
  have le: "\<not> maxFrameSize < Uint32 (take 4 (avail r))"
    using assms ReadFrame_too_large [OF len, of buf] by auto
  define n where n: "n = unat (Uint32 (take 4 (avail r)))"
  have more: "4 + n \<le> length (avail r)"
    using assms ReadFrame_body_short [OF len le n, of buf] by (cases "4 + n \<le> length (avail r)") auto
  from assms ReadFrame_body [OF len le n more, of buf]
  have body: "body = take n (drop 4 (avail r))" and arr: "arr = body_array buf body"
    and r': "r' = r\<lparr>avail := drop (4 + n) (avail r)\<rparr>"
    by auto
  have lb: "length body = n"
    using body more by simp
  show thesis
    by (rule that [unfolded lb, OF len le n more body arr r'])
qed

lemma ReadFrame_consumes:
  assumes "ReadFrame ReadFull r buf = ((body, None), arr, r')"
  shows "frame_ok body \<and> avail r = frame body @ avail r' \<and> fin r' = fin r"
proof (rule ReadFrame_okE [OF assms])
  assume len: "4 \<le> length (avail r)" and le: "\<not> maxFrameSize < Uint32 (take 4 (avail r))"
    and n: "length body = unat (Uint32 (take 4 (avail r)))"
    and body: "body = take (length body) (drop 4 (avail r))"
    and r': "r' = r\<lparr>avail := drop (4 + length body) (avail r)\<rparr>"
  have "drop 4 (avail r) = body @ drop (length body) (drop 4 (avail r))"
    using body by (metis append_take_drop_id)
  then have "avail r = take 4 (avail r) @ body @ avail r'"
    unfolding r' by (metis append_take_drop_id drop_drop add.commute instream.select_convs(1)
        instream.surjective instream.update_convs(1))
  moreover have "take 4 (avail r) = PutUint32 (word_of_nat (length body))"
    using len by (simp add: n)
  moreover have "frame_ok body"
    using le by (simp add: frame_ok_def maxFrameSize_less_iff n)
  ultimately show ?thesis
    using r' by (simp add: frame_def)
qed

text \<open>The buffer has no say in what is read.\<close>

lemma ReadFrame_buffer:
  assumes "ReadFrame ReadFull r buf = ((body, None), arr, r')"
  shows "ReadFrame ReadFull r buf' = ((body, None), body_array buf' body, r') \<and>
    arr = body_array buf body"
proof (rule ReadFrame_okE [OF assms])
  assume len: "4 \<le> length (avail r)" and le: "\<not> maxFrameSize < Uint32 (take 4 (avail r))"
    and n: "length body = unat (Uint32 (take 4 (avail r)))"
    and more: "4 + length body \<le> length (avail r)"
    and body: "body = take (length body) (drop 4 (avail r))"
    and arr: "arr = body_array buf body"
    and r': "r' = r\<lparr>avail := drop (4 + length body) (avail r)\<rparr>"
  from ReadFrame_body [OF len le n more, of buf'] body r' arr show ?thesis by simp
qed

lemma ReadFrame_error_buffer:
  assumes "ReadFrame ReadFull r buf = ((body, Some e), arr, r')"
  shows "\<exists>body' arr'. ReadFrame ReadFull r buf' = ((body', Some e), arr', r')"
proof -
  obtain body' e' arr' r'' where r: "ReadFrame ReadFull r buf' = ((body', e'), arr', r'')"
    by (metis prod.exhaust)
  obtain h e1 r1 where 1: "ReadFull 4 r = ((h, e1), r1)"
    by (metis prod.exhaust)
  obtain got e2 r2 where 2: "ReadFull (unat (Uint32 h)) r1 = ((got, e2), r2)"
    by (metis prod.exhaust)
  have "e' = Some e \<and> r'' = r'"
    using r assms 1 2 by (auto simp: ReadFrame_def Let_def split: option.splits if_splits)
  with r show ?thesis by blast
qed

section \<open>Reading from any reader\<close>

context full_reader
begin

lemma ReadFrame_view:
  assumes "ReadFrame rf r buf = (res, arr, r')"
  shows "ReadFrame ReadFull (view r) buf = (res, arr, view r')"
proof -
  obtain h e1 r1 where r1: "rf 4 r = ((h, e1), r1)"
    by (metis prod.exhaust)
  note v1 = rf_view [OF r1]
  show ?thesis
  proof (cases "e1 = None \<and> \<not> maxFrameSize < Uint32 h")
    case False
    with assms r1 v1 show ?thesis
      by (cases e1) (auto simp: ReadFrame_def Let_def)
  next
    case True
    obtain got e2 r2 where r2: "rf (unat (Uint32 h)) r1 = ((got, e2), r2)"
      by (metis prod.exhaust)
    from True assms r1 r2 v1 rf_view [OF r2] show ?thesis
      by (simp add: ReadFrame_def Let_def)
  qed
qed

lemma ReadFrame_frame_view:
  assumes "frame_ok body" and "avail (view r) = frame body @ rest"
    and "ReadFrame rf r buf = (res, arr, r')"
  shows "res = (body, None) \<and> avail (view r') = rest \<and> fin (view r') = fin (view r)"
proof -
  have "view r = \<lparr>avail = frame body @ rest, fin = fin (view r)\<rparr>"
    using assms(2) by (cases "view r") simp
  with ReadFrame_view [OF assms(3)] ReadFrame_frame [OF assms(1), of rest "fin (view r)" buf]
  show ?thesis by (metis instream.select_convs prod.inject)
qed

end

section \<open>Properties\<close>

text \<open>C20: A frame of at most 1 MiB written by WriteFrame to a connection and read back by ReadFrame, however
  TCP cuts the bytes into segments and whatever buffer the reader brings, gives the body
  unchanged and leaves the bytes after the frame in the stream.\<close>

theorem frame_roundtrip_segments:
  assumes "frame_ok body" and "written w = []" and "WriteFrame body w = (None, w')"
    and "concat (segments c) = written w' @ rest"
  shows "\<exists>arr c'. ReadFrame ReadFull_seg c buf = ((body, None), arr, c') \<and>
    concat (segments c') = rest \<and> seg_fin c' = seg_fin c"
proof -
  obtain res arr c' where read: "ReadFrame ReadFull_seg c buf = (res, arr, c')"
    by (metis prod.exhaust)
  have "avail (flat c) = frame body @ rest"
    using WriteFrame_ok [OF assms(3)] assms(2,4) by (simp add: flat_def)
  from seg_reader.ReadFrame_frame_view [OF assms(1) this read] read show ?thesis
    by (auto simp: flat_def)
qed

theorem frame_roundtrip_segments_witness:
  "\<exists>arr c'. ReadFrame ReadFull_seg
     \<lparr>segments = [[0, 0], [], [0, 2, 104], [105, 7], [8]], seg_fin = EOF\<rparr> [1, 2, 3]
     = (([104, 105], None), arr, c') \<and> concat (segments c') = [7, 8] \<and> seg_fin c' = EOF"
proof -
  let ?w = "\<lparr>written = [], wr_room = None, wr_err = EOF\<rparr>"
  have w: "WriteFrame [104, 105] ?w = (None, ?w\<lparr>written := [0, 0, 0, 2, 104, 105]\<rparr>)"
    by (simp add: WriteFrame_def Write_def PutUint32_def)
  show ?thesis
    using frame_roundtrip_segments [OF _ _ w,
        of "\<lparr>segments = [[0, 0], [], [0, 2, 104], [105, 7], [8]], seg_fin = EOF\<rparr>" "[7, 8]" "[1, 2, 3]"]
    by (simp add: frame_ok_def)
qed

text \<open>C34: WriteFrame has no size check, ReadFrame has one: a body of more than 1 MiB (and less than 4 GiB, so
  that the header has its length) is written without an error, the reader reports ErrShortBuffer for it and stops right after the
  header, so the next read takes body bytes for a header.\<close>

theorem oversize_frame_rejected:
  assumes "1048576 < length body" and "length body < 2 ^ 32" and "wr_room w = None"
  shows "WriteFrame body w = (None, w\<lparr>written := written w @ frame body\<rparr>) \<and>
    ReadFrame ReadFull \<lparr>avail = frame body @ rest, fin = e\<rparr> buf =
      (([], Some ErrShortBuffer), buf, \<lparr>avail = body @ rest, fin = e\<rparr>)"
proof -
  let ?r = "\<lparr>avail = frame body @ rest, fin = e\<rparr>"
  have hd: "take 4 (avail ?r) = PutUint32 (word_of_nat (length body))"
    and tl: "drop 4 (avail ?r) = body @ rest"
    by (simp_all add: frame_def)
  have "maxFrameSize < Uint32 (take 4 (avail ?r))"
    using assms(1,2) unfolding hd maxFrameSize_less_iff
    by (simp add: unat_length_header)
  with ReadFrame_too_large [of ?r buf] tl assms(3) show ?thesis
    by (simp add: WriteFrame_unlimited)
qed

theorem oversize_frame_rejected_witness:
  "ReadFrame ReadFull \<lparr>avail = frame (replicate 1048577 65) @ [], fin = EOF\<rparr> [] =
     (([], Some ErrShortBuffer), [], \<lparr>avail = replicate 1048577 65 @ [], fin = EOF\<rparr>)"
  using oversize_frame_rejected
    [of "replicate 1048577 65" "\<lparr>written = [], wr_room = None, wr_err = EOF\<rparr>" "[]" EOF "[]"]
  unfolding length_replicate by simp

text \<open>C35: A stream that ends inside a frame within the limit is reported as ErrUnexpectedEOF, except when it
  ends before the first byte or exactly between the header and a non-empty body: there the
  error is EOF, the one of an orderly close.\<close>

theorem truncated_frame_error:
  assumes "frame_ok body" and "k < length (frame body)"
  shows "\<exists>res arr r'. ReadFrame ReadFull \<lparr>avail = take k (frame body), fin = EOF\<rparr> buf =
    ((res, Some (if k = 0 \<or> k = 4 then EOF else ErrUnexpectedEOF)), arr, r')"
proof (cases "k < 4")
  case True
  then have "length (take k (frame body)) = k" by simp
  then have "take k (frame body) = [] \<longleftrightarrow> k = 0" by (metis length_0_conv)
  with True \<open>length (take k (frame body)) = k\<close> ReadFrame_header_short [of "\<lparr>avail = take k (frame body), fin = EOF\<rparr>" buf]
  show ?thesis by (auto simp: short_error_def)
next
  case False
  let ?r = "\<lparr>avail = take k (frame body), fin = EOF\<rparr>"
  have hd: "take 4 (avail ?r) = PutUint32 (word_of_nat (length body))"
    and tl: "drop 4 (avail ?r) = take (k - 4) body"
    using False by (simp_all add: frame_def min_def drop_take)
  have n: "length body = unat (Uint32 (take 4 (avail ?r)))"
    using assms(1) unfolding hd by (simp add: frame_ok_def unat_length_header)
  have small: "\<not> maxFrameSize < Uint32 (take 4 (avail ?r))"
    using assms(1) unfolding maxFrameSize_less_iff n [symmetric] by (simp add: frame_ok_def)
  have len: "4 \<le> length (avail ?r)" and more: "length (avail ?r) < 4 + length body"
    using False assms(2) by simp_all
  have "take (k - 4) body = [] \<longleftrightarrow> k = 4"
    using False assms(2) by auto
  with ReadFrame_body_short [OF len small n more, of buf] False show ?thesis
    unfolding tl by (auto simp: short_error_def)
qed

theorem truncated_frame_error_witness:
  "\<exists>res arr r'. ReadFrame ReadFull \<lparr>avail = take 4 (frame [104, 105]), fin = EOF\<rparr> [] =
     ((res, Some EOF), arr, r')"
  using truncated_frame_error [of "[104, 105]" 4 "[]"] by (simp add: frame_ok_def)

text \<open>C36: The buffer handed to ReadFrame only says where the body goes. A successful read
  gives the same body and rest with every buffer; the returned slice is the front of the array
  it lies in, and a buffer that is large enough keeps its bytes behind the body.\<close>

theorem ReadFrame_buffer_independent:
  assumes "ReadFrame ReadFull r buf = ((body, None), arr, r')"
  shows "(\<exists>arr'. ReadFrame ReadFull r buf' = ((body, None), arr', r')) \<and>
    take (length body) arr = body \<and>
    (length body \<le> length buf \<longrightarrow> drop (length body) arr = drop (length body) buf) \<and>
    (length buf < length body \<longrightarrow> arr = body)"
  using ReadFrame_buffer [OF assms, of buf'] by (auto simp: body_array_def)

theorem ReadFrame_buffer_independent_witness:
  "(\<exists>arr'. ReadFrame ReadFull \<lparr>avail = frame [104, 105] @ [9], fin = EOF\<rparr> [] =
      (([104, 105], None), arr', \<lparr>avail = [9], fin = EOF\<rparr>)) \<and>
   drop 2 (body_array [1, 2, 3] [104, 105]) = drop 2 [1, 2, 3]"
proof -
  have "frame_ok [104, 105]" by (simp add: frame_ok_def)
  from ReadFrame_frame [OF this, of "[9]" EOF "[1, 2, 3]"]
  show ?thesis
    using ReadFrame_buffer_independent [of "\<lparr>avail = frame [104, 105] @ [9], fin = EOF\<rparr>"
        "[1, 2, 3]" "[104, 105]" "body_array [1, 2, 3] [104, 105]" "\<lparr>avail = [9], fin = EOF\<rparr>" "[]"]
    by (simp add: numeral_2_eq_2)
qed

end
