(* ===== verification/GoChan.thy ===== *)
theory GoChan
  imports Prelude
begin

text \<open>
  Go's buffered channels, as far as the broker uses them: \<open>make\<close>, the non-blocking send
  (\<open>select\<close> with a \<open>default\<close>), the receive, \<open>close\<close> and \<open>len\<close>. A channel is its buffer
  (oldest element first), its capacity and whether it has been closed. Sending on a closed
  channel and closing it twice are runtime panics, also inside a \<open>select\<close>.
\<close>

record 'a chan =
  chan_buf :: "'a list"
  chan_cap :: nat
  chan_closed :: bool

definition make_chan :: "int \<Rightarrow> 'a chan go" where
  "make_chan n =
     (if n < 0 then Inl MakeChanSize
      else Inr \<lparr>chan_buf = [], chan_cap = nat n, chan_closed = False\<rparr>)"

text \<open>\<open>select { case ch <- x: ... default: ... }\<close>: the result says whether the send was
  taken. On a channel with a buffer it is taken exactly when the buffer has room: a receiver
  that waits on the channel means an empty buffer, and handing the value to it is the send
  followed by its receive. (A channel without a buffer would take the value only from a
  waiting receiver; the registry's invariant below asks for a buffer.)\<close>

definition try_send :: "'a \<Rightarrow> 'a chan \<Rightarrow> (bool \<times> 'a chan) go" where
  "try_send x c =
     (if chan_closed c then Inl SendOnClosedChannel
      else if length (chan_buf c) < chan_cap c
        then Inr (True, c\<lparr>chan_buf := chan_buf c @ [x]\<rparr>)
        else Inr (False, c))"

text \<open>A receive: a value, the zero value of a closed and drained channel, or it would
  block.\<close>

datatype 'a recv = Received 'a | RecvClosed | WouldBlock

definition recv :: "'a chan \<Rightarrow> 'a recv \<times> 'a chan" where
  "recv c =
     (case chan_buf c of
        x # xs \<Rightarrow> (Received x, c\<lparr>chan_buf := xs\<rparr>)
      | [] \<Rightarrow> (if chan_closed c then RecvClosed else WouldBlock, c))"

definition close_chan :: "'a chan \<Rightarrow> 'a chan go" where
  "close_chan c =
     (if chan_closed c then Inl CloseOfClosedChannel else Inr (c\<lparr>chan_closed := True\<rparr>))"

definition chan_len :: "'a chan \<Rightarrow> nat" where
  "chan_len c = length (chan_buf c)"

section \<open>Well-formed channels\<close>

definition chan_wf :: "'a chan \<Rightarrow> bool" where
  "chan_wf c \<longleftrightarrow> length (chan_buf c) \<le> chan_cap c"

lemma make_chan_wf [wf_intros]: "make_chan n = Inr c \<Longrightarrow> chan_wf c"
  by (auto simp: make_chan_def chan_wf_def split: if_splits)

lemma try_send_wf [wf_intros]: "try_send x c = Inr (b, c') \<Longrightarrow> chan_wf c \<Longrightarrow> chan_wf c'"
  by (auto simp: try_send_def chan_wf_def split: if_splits)

lemma recv_wf [wf_intros]: "recv c = (r, c') \<Longrightarrow> chan_wf c \<Longrightarrow> chan_wf c'"
  by (auto simp: recv_def chan_wf_def split: list.splits if_splits)

lemma close_chan_wf [wf_intros]: "close_chan c = Inr c' \<Longrightarrow> chan_wf c \<Longrightarrow> chan_wf c'"
  by (auto simp: close_chan_def chan_wf_def split: if_splits)

lemma try_send_open [chan_simps]:
  "\<not> chan_closed c \<Longrightarrow> length (chan_buf c) < chan_cap c \<Longrightarrow>
   try_send x c = Inr (True, c\<lparr>chan_buf := chan_buf c @ [x]\<rparr>)"
  by (simp add: try_send_def)

lemma try_send_full [chan_simps]:
  "\<not> chan_closed c \<Longrightarrow> chan_cap c \<le> length (chan_buf c) \<Longrightarrow> try_send x c = Inr (False, c)"
  by (simp add: try_send_def)

lemma try_send_closed [chan_simps]:
  "chan_closed c \<Longrightarrow> try_send x c = Inl SendOnClosedChannel"
  by (simp add: try_send_def)

lemma try_send_keeps_open:
  "try_send x c = Inr (b, c') \<Longrightarrow> \<not> chan_closed c' \<and> chan_cap c' = chan_cap c"
  by (auto simp: try_send_def split: if_splits)

lemma try_send_buf:
  "try_send x c = Inr (b, c') \<Longrightarrow> chan_buf c' = (if b then chan_buf c @ [x] else chan_buf c)"
  by (auto simp: try_send_def split: if_splits)

end
