(* ===== verification/MemoryQueue.thy ===== *)
theory MemoryQueue
  imports GoChan
begin

text \<open>
  \<open>internal/broker/memory_queue.go\<close> and the interface \<open>MessageQueue\<close> of
  \<open>internal/broker/interfaces.go\<close>. The queue is a buffered channel, \<open>nil\<close> once closed, and
  its size. The locale \<open>message_queue\<close> is the contract of the interface: a bounded FIFO that
  refuses what it has no room for. The broker's loops are proved against the contract, the
  memory queue implements it.
\<close>

section \<open>MemoryMessageQueue\<close>

record MemoryMessageQueue =
  mq_queue :: "bytes chan option"
  mq_size :: int

definition NewMemoryMessageQueue :: "int \<Rightarrow> MemoryMessageQueue go" where
  "NewMemoryMessageQueue sz =
     (let sz' = (if sz \<le> 0 then 10000 else sz)
      in bind_go (make_chan sz') (\<lambda>c. Inr \<lparr>mq_queue = Some c, mq_size = sz'\<rparr>))"

definition Enqueue :: "bytes \<Rightarrow> MemoryMessageQueue \<Rightarrow> (go_error option \<times> MemoryMessageQueue) go"
  where
  "Enqueue msg q =
     (case mq_queue q of
        None \<Rightarrow> Inr (Some (OtherError ''queue is closed''), q)
      | Some c \<Rightarrow>
          bind_go (try_send msg c) (\<lambda>(sent, c').
            if sent then Inr (None, q\<lparr>mq_queue := Some c'\<rparr>)
            else Inr (Some (OtherError ''queue full''), q)))"

definition Dequeue :: "MemoryMessageQueue \<Rightarrow> (go_error + bytes) \<times> MemoryMessageQueue" where
  "Dequeue q =
     (case mq_queue q of
        None \<Rightarrow> (Inl (OtherError ''queue is closed''), q)
      | Some c \<Rightarrow>
          (case recv c of
             (Received msg, c') \<Rightarrow> (Inr msg, q\<lparr>mq_queue := Some c'\<rparr>)
           | (RecvClosed, c') \<Rightarrow> (Inl (OtherError ''queue is closed''), q)
           | (WouldBlock, c') \<Rightarrow> (Inl (OtherError ''queue is empty''), q)))"

text \<open>\<open>len\<close> of a nil channel is 0.\<close>

definition Len :: "MemoryMessageQueue \<Rightarrow> int" where
  "Len q = (case mq_queue q of None \<Rightarrow> 0 | Some c \<Rightarrow> int (chan_len c))"

definition IsFull :: "MemoryMessageQueue \<Rightarrow> bool" where
  "IsFull q \<longleftrightarrow> mq_size q \<le> Len q"

definition Queue_Close :: "MemoryMessageQueue \<Rightarrow> MemoryMessageQueue go" where
  "Queue_Close q =
     (case mq_queue q of
        None \<Rightarrow> Inr q
      | Some c \<Rightarrow> bind_go (close_chan c) (\<lambda>_. Inr (q\<lparr>mq_queue := None\<rparr>)))"

section \<open>The contract\<close>

text \<open>
  \<open>contents\<close>: the messages waiting, oldest first; \<open>capacity\<close>: how many fit; \<open>closed\<close>: the
  queue has been closed.
\<close>

locale message_queue =
  fixes enq :: "'m \<Rightarrow> 'q \<Rightarrow> (go_error option \<times> 'q) go"
    and deq :: "'q \<Rightarrow> (go_error + 'm) \<times> 'q"
    and full :: "'q \<Rightarrow> bool"
    and size_of :: "'q \<Rightarrow> int"
    and close :: "'q \<Rightarrow> 'q go"
    and contents :: "'q \<Rightarrow> 'm list"
    and capacity :: "'q \<Rightarrow> nat"
    and closed :: "'q \<Rightarrow> bool"
    and inv :: "'q \<Rightarrow> bool"
  assumes bounded: "inv q \<Longrightarrow> length (contents q) \<le> capacity q"
    and enq_room: "inv q \<Longrightarrow> \<not> closed q \<Longrightarrow> length (contents q) < capacity q \<Longrightarrow>
      \<exists>q'. enq m q = Inr (None, q') \<and> inv q' \<and> \<not> closed q' \<and>
        contents q' = contents q @ [m] \<and> capacity q' = capacity q"
    and enq_full: "inv q \<Longrightarrow> \<not> closed q \<Longrightarrow> length (contents q) = capacity q \<Longrightarrow>
      enq m q = Inr (Some (OtherError ''queue full''), q)"
    and enq_closed: "inv q \<Longrightarrow> closed q \<Longrightarrow> enq m q = Inr (Some (OtherError ''queue is closed''), q)"
    and deq_some: "inv q \<Longrightarrow> \<not> closed q \<Longrightarrow> contents q = m # ms \<Longrightarrow>
      \<exists>q'. deq q = (Inr m, q') \<and> inv q' \<and> \<not> closed q' \<and> contents q' = ms \<and> capacity q' = capacity q"
    and deq_empty: "inv q \<Longrightarrow> \<not> closed q \<Longrightarrow> contents q = [] \<Longrightarrow>
      deq q = (Inl (OtherError ''queue is empty''), q)"
    and deq_closed: "inv q \<Longrightarrow> closed q \<Longrightarrow> deq q = (Inl (OtherError ''queue is closed''), q)"
    and full_iff: "inv q \<Longrightarrow> \<not> closed q \<Longrightarrow> full q \<longleftrightarrow> length (contents q) = capacity q"
    and size_of: "inv q \<Longrightarrow> \<not> closed q \<Longrightarrow> size_of q = int (length (contents q))"
    and closing: "inv q \<Longrightarrow> \<exists>q'. close q = Inr q' \<and> inv q' \<and> closed q' \<and> size_of q' = 0"

text \<open>Enqueueing a list of messages one after the other, as a producer connection does; the
  results say which were refused.\<close>

fun enqueue_all ::
    "('m \<Rightarrow> 'q \<Rightarrow> (go_error option \<times> 'q) go) \<Rightarrow> 'm list \<Rightarrow> 'q \<Rightarrow> (go_error option list \<times> 'q) go"
  where
  "enqueue_all enq [] q = Inr ([], q)"
| "enqueue_all enq (m # ms) q =
     bind_go (enq m q) (\<lambda>(r, q').
       bind_go (enqueue_all enq ms q') (\<lambda>(rs, q''). Inr (r # rs, q'')))"

text \<open>Dequeueing \<open>n\<close> times, whoever asks.\<close>

fun dequeue_n :: "('q \<Rightarrow> (go_error + 'm) \<times> 'q) \<Rightarrow> nat \<Rightarrow> 'q \<Rightarrow> (go_error + 'm) list \<times> 'q" where
  "dequeue_n deq 0 q = ([], q)"
| "dequeue_n deq (Suc n) q =
     (let (r, q') = deq q; (rs, q'') = dequeue_n deq n q' in (r # rs, q''))"

text \<open>Any interleaving of calls, and the bounded list it should behave like: the calls of
  producers (\<open>Put\<close>), consumers (\<open>Get\<close>) and the shutdown (\<open>Shut\<close>), in the order in which
  they reach the queue, and what each returns.\<close>

datatype 'm call = Put 'm | Get | Shut

datatype 'm answer = Put_answer "go_error option" | Get_answer "go_error + 'm" | Shut_answer

fun run_calls ::
    "('m \<Rightarrow> 'q \<Rightarrow> (go_error option \<times> 'q) go) \<Rightarrow> ('q \<Rightarrow> (go_error + 'm) \<times> 'q) \<Rightarrow> ('q \<Rightarrow> 'q go) \<Rightarrow>
     'm call list \<Rightarrow> 'q \<Rightarrow> 'm answer list go"
  where
  "run_calls enq deq close [] q = Inr []"
| "run_calls enq deq close (Put m # cs) q =
     bind_go (enq m q) (\<lambda>(r, q').
       bind_go (run_calls enq deq close cs q') (\<lambda>as. Inr (Put_answer r # as)))"
| "run_calls enq deq close (Get # cs) q =
     (let (r, q') = deq q in
      bind_go (run_calls enq deq close cs q') (\<lambda>as. Inr (Get_answer r # as)))"
| "run_calls enq deq close (Shut # cs) q =
     bind_go (close q) (\<lambda>q'.
       bind_go (run_calls enq deq close cs q') (\<lambda>as. Inr (Shut_answer # as)))"

fun spec_calls :: "nat \<Rightarrow> 'm call list \<Rightarrow> 'm list option \<Rightarrow> 'm answer list" where
  "spec_calls cap [] s = []"
| "spec_calls cap (Put m # cs) (Some ms) =
     (if length ms < cap then Put_answer None # spec_calls cap cs (Some (ms @ [m]))
      else Put_answer (Some (OtherError ''queue full'')) # spec_calls cap cs (Some ms))"
| "spec_calls cap (Get # cs) (Some ms) =
     (case ms of
        [] \<Rightarrow> Get_answer (Inl (OtherError ''queue is empty'')) # spec_calls cap cs (Some [])
      | m # ms' \<Rightarrow> Get_answer (Inr m) # spec_calls cap cs (Some ms'))"
| "spec_calls cap (Shut # cs) s = Shut_answer # spec_calls cap cs None"
| "spec_calls cap (Put m # cs) None =
     Put_answer (Some (OtherError ''queue is closed'')) # spec_calls cap cs None"
| "spec_calls cap (Get # cs) None =
     Get_answer (Inl (OtherError ''queue is closed'')) # spec_calls cap cs None"

context message_queue
begin

definition view :: "'q \<Rightarrow> 'm list option" where
  "view q = (if closed q then None else Some (contents q))"

lemma run_calls_spec:
  "inv q \<Longrightarrow> capacity q = cap \<or> closed q \<Longrightarrow>
   run_calls enq deq close cs q = Inr (spec_calls cap cs (view q))"
proof (induction cs arbitrary: q)
  case Nil
  then show ?case by simp
next
  case (Cons c cs)
  show ?case
  proof (cases "closed q")
    case True
    from closing [OF Cons.prems(1)] obtain q' where q': "close q = Inr q'" "inv q'" "closed q'"
      by blast
    from Cons.IH [OF Cons.prems] Cons.IH [OF q'(2)] q'
      enq_closed [OF Cons.prems(1) True] deq_closed [OF Cons.prems(1) True] True
    show ?thesis by (cases c) (simp_all add: view_def)
  next
    case False
    with Cons.prems have cap: "capacity q = cap" by blast
    show ?thesis
    proof (cases c)
      case (Put m)
      show ?thesis
      proof (cases "length (contents q) < cap")
        case True
        with enq_room [OF Cons.prems(1) False, of m] cap obtain q' where q': "inv q'"
          "enq m q = Inr (None, q')" "\<not> closed q'" "contents q' = contents q @ [m]" "capacity q' = cap"
          by auto
        with Cons.IH [OF q'(1)] Put False True show ?thesis by (simp add: view_def)
      next
        case full: False
        with bounded [OF Cons.prems(1)] cap have "length (contents q) = capacity q" by simp
        from enq_full [OF Cons.prems(1) False this, of m] Cons.IH [OF Cons.prems] Put False full
        show ?thesis by (simp add: view_def)
      qed
    next
      case Get
      show ?thesis
      proof (cases "contents q")
        case Nil
        with deq_empty [OF Cons.prems(1) False] Cons.IH [OF Cons.prems] Get False
        show ?thesis by (simp add: view_def)
      next
        case ms: (Cons m ms)
        from deq_some [OF Cons.prems(1) False ms] cap obtain q' where q': "inv q'"
          "deq q = (Inr m, q')" "\<not> closed q'" "contents q' = ms" "capacity q' = cap"
          by auto
        with Cons.IH [OF q'(1)] Get False ms show ?thesis by (simp add: view_def)
      qed
    next
      case Shut
      from closing [OF Cons.prems(1)] obtain q' where q': "close q = Inr q'" "inv q'" "closed q'"
        by blast
      with Cons.IH [OF q'(2)] Shut show ?thesis by (simp add: view_def)
    qed
  qed
qed

text \<open>A full queue refuses every further message and stays as it is; one with room takes the
  messages in order until it is full.\<close>

lemma enqueue_all_full:
  "inv q \<Longrightarrow> \<not> closed q \<Longrightarrow> length (contents q) = capacity q \<Longrightarrow>
   enqueue_all enq ms q = Inr (replicate (length ms) (Some (OtherError ''queue full'')), q)"
  by (induction ms) (simp_all add: enq_full)

lemma enqueue_all_contents:
  assumes "inv q" and "\<not> closed q"
  shows "\<exists>q'. enqueue_all enq ms q =
      Inr (replicate (min (length ms) (capacity q - length (contents q))) None @
        replicate (length ms - (capacity q - length (contents q)))
          (Some (OtherError ''queue full'')), q') \<and>
    inv q' \<and> \<not> closed q' \<and> contents q' = take (capacity q) (contents q @ ms) \<and>
    capacity q' = capacity q"
  using assms
proof (induction ms arbitrary: q)
  case Nil
  with bounded [OF Nil(1)] show ?case by simp
next
  case (Cons m ms)
  show ?case
  proof (cases "length (contents q) < capacity q")
    case True
    from enq_room [OF Cons.prems True, of m] obtain q1 where q1: "enq m q = Inr (None, q1)"
      "inv q1" "\<not> closed q1" "contents q1 = contents q @ [m]" "capacity q1 = capacity q"
      by blast
    have "capacity q - length (contents q) = Suc (capacity q1 - length (contents q1))"
      using True q1(4,5) by simp
    with Cons.IH [OF q1(2,3)] q1 show ?thesis
      by (auto simp: min_Suc_Suc)
  next
    case False
    with bounded [OF Cons.prems(1)] have "length (contents q) = capacity q" by simp
    with enqueue_all_full [OF Cons.prems this, of "m # ms"] Cons.prems show ?thesis
      by simp
  qed
qed

lemma enqueue_all_room:
  assumes "inv q" and "\<not> closed q" and "length (contents q) + length ms \<le> capacity q"
  shows "\<exists>q'. enqueue_all enq ms q = Inr (replicate (length ms) None, q') \<and>
    inv q' \<and> \<not> closed q' \<and> contents q' = contents q @ ms \<and> capacity q' = capacity q"
  using enqueue_all_contents [OF assms(1,2), of ms] assms(3) by (auto simp: min_def)

lemma dequeue_n_contents:
  assumes "inv q" and "\<not> closed q" and "n \<le> length (contents q)"
  shows "\<exists>q'. dequeue_n deq n q = (map Inr (take n (contents q)), q') \<and>
    inv q' \<and> \<not> closed q' \<and> contents q' = drop n (contents q) \<and> capacity q' = capacity q"
  using assms
proof (induction n arbitrary: q)
  case 0
  then show ?case by simp
next
  case (Suc n)
  then obtain m ms where ms: "contents q = m # ms"
    by (cases "contents q") auto
  from deq_some [OF Suc.prems(1,2) ms] obtain q1 where q1: "deq q = (Inr m, q1)"
    "inv q1" "\<not> closed q1" "contents q1 = ms" "capacity q1 = capacity q"
    by blast
  from Suc.prems(3) ms q1(4) have "n \<le> length (contents q1)" by simp
  from Suc.IH [OF q1(2,3) this] q1 ms show ?case
    by auto
qed

text \<open>FIFO: what goes in while there is room comes out in the same order, behind what was
  there before.\<close>

lemma fifo:
  assumes "inv q" and "\<not> closed q" and "length (contents q) + length ms \<le> capacity q"
  shows "\<exists>q' q''. enqueue_all enq ms q = Inr (replicate (length ms) None, q') \<and>
    dequeue_n deq (length (contents q) + length ms) q' = (map Inr (contents q @ ms), q'') \<and>
    contents q'' = [] \<and> deq q'' = (Inl (OtherError ''queue is empty''), q'')"
proof -
  from enqueue_all_room [OF assms] obtain q' where q': "inv q'" "\<not> closed q'"
    "enqueue_all enq ms q = Inr (replicate (length ms) None, q')" "contents q' = contents q @ ms"
    by blast
  from dequeue_n_contents [OF q'(1,2), of "length (contents q) + length ms"] q'(4)
  obtain q'' where "dequeue_n deq (length (contents q) + length ms) q' = (map Inr (contents q @ ms), q'')"
    "inv q''" "\<not> closed q''" "contents q'' = []"
    by auto
  with q' deq_empty [of q''] show ?thesis by auto
qed

end

section \<open>The memory queue keeps the contract\<close>

definition mq_contents :: "MemoryMessageQueue \<Rightarrow> bytes list" where
  "mq_contents q = (case mq_queue q of None \<Rightarrow> [] | Some c \<Rightarrow> chan_buf c)"

definition mq_capacity :: "MemoryMessageQueue \<Rightarrow> nat" where
  "mq_capacity q = nat (mq_size q)"

definition mq_closed :: "MemoryMessageQueue \<Rightarrow> bool" where
  "mq_closed q \<longleftrightarrow> mq_queue q = None"

text \<open>The channel is open, holds no more than its capacity, and its capacity is the size;
  the size is positive.\<close>

definition mq_inv :: "MemoryMessageQueue \<Rightarrow> bool" where
  "mq_inv q \<longleftrightarrow> 0 < mq_size q \<and>
     (case mq_queue q of
        None \<Rightarrow> True
      | Some c \<Rightarrow> \<not> chan_closed c \<and> chan_wf c \<and> chan_cap c = nat (mq_size q))"

lemmas mq_defs = mq_contents_def mq_capacity_def mq_closed_def mq_inv_def

lemma NewMemoryMessageQueue_inv:
  "\<exists>q. NewMemoryMessageQueue sz = Inr q \<and> mq_inv q \<and> \<not> mq_closed q \<and> mq_contents q = [] \<and>
     mq_capacity q = (if sz \<le> 0 then 10000 else nat sz)"
  by (auto simp: NewMemoryMessageQueue_def Let_def make_chan_def mq_defs chan_wf_def)

lemma Enqueue_room:
  "mq_inv q \<Longrightarrow> mq_queue q = Some c \<Longrightarrow> length (chan_buf c) < chan_cap c \<Longrightarrow>
   Enqueue m q = Inr (None, q\<lparr>mq_queue := Some (c\<lparr>chan_buf := chan_buf c @ [m]\<rparr>)\<rparr>)"
  by (simp add: Enqueue_def mq_inv_def try_send_open)

lemma Dequeue_some:
  "mq_queue q = Some c \<Longrightarrow> chan_buf c = m # ms \<Longrightarrow>
   Dequeue q = (Inr m, q\<lparr>mq_queue := Some (c\<lparr>chan_buf := ms\<rparr>)\<rparr>)"
  by (simp add: Dequeue_def recv_def)

interpretation mq: message_queue Enqueue Dequeue IsFull Len Queue_Close
  mq_contents mq_capacity mq_closed mq_inv
proof (unfold_locales, goal_cases)
  case (2 q m)
  then obtain c where "mq_queue q = Some c" by (auto simp: mq_closed_def)
  with 2 Enqueue_room [of q c m] show ?case
    by (auto simp: mq_defs chan_wf_def)
next
  case (5 q m ms)
  then obtain c where "mq_queue q = Some c" by (auto simp: mq_closed_def)
  with 5 Dequeue_some [of q c m ms] show ?case
    by (auto simp: mq_defs chan_wf_def)
qed (auto simp: Enqueue_def Dequeue_def IsFull_def Len_def Queue_Close_def mq_defs chan_wf_def
       try_send_def recv_def close_chan_def chan_len_def split: option.splits list.splits)

section \<open>Properties\<close>

text \<open>C14: The memory queue refines a bounded list. Whatever sequence of Enqueue, Dequeue and
  Close calls reaches a new queue, no call panics and each returns what the list returns: FIFO
  order, "queue full" at capacity, "queue is empty" without messages, "queue is closed" for good
  once closed.\<close>

theorem queue_refines_bounded_list:
  "\<exists>q. NewMemoryMessageQueue sz = Inr q \<and>
     run_calls Enqueue Dequeue Queue_Close cs q =
       Inr (spec_calls (if sz \<le> 0 then 10000 else nat sz) cs (Some []))"
proof -
  from NewMemoryMessageQueue_inv [of sz] obtain q where q: "NewMemoryMessageQueue sz = Inr q"
    "mq_inv q" "\<not> mq_closed q" "mq_contents q = []"
    "mq_capacity q = (if sz \<le> 0 then 10000 else nat sz)"
    by blast
  from mq.run_calls_spec [OF q(2), of _ cs] q show ?thesis
    by (auto simp: mq.view_def)
qed

text \<open>Messages come out in the order they went in, and a full queue drops the newest: of a
  burst enqueued into a new queue exactly the first size messages are accepted, the others get
  "queue full", and dequeueing gives the accepted ones in order and then "queue is empty".\<close>

theorem queue_burst_fifo:
  "\<exists>q q' q''. NewMemoryMessageQueue sz = Inr q \<and>
     (let cap = (if sz \<le> 0 then 10000 else nat sz) in
      enqueue_all Enqueue ms q =
        Inr (replicate (min (length ms) cap) None @
             replicate (length ms - cap) (Some (OtherError ''queue full'')), q') \<and>
      dequeue_n Dequeue (min (length ms) cap) q' = (map Inr (take cap ms), q'') \<and>
      Dequeue q'' = (Inl (OtherError ''queue is empty''), q''))"
proof -
  let ?cap = "if sz \<le> 0 then 10000 else nat sz"
  from NewMemoryMessageQueue_inv [of sz] obtain q where q: "NewMemoryMessageQueue sz = Inr q"
    "mq_inv q" "\<not> mq_closed q" "mq_contents q = []" "mq_capacity q = ?cap"
    by blast
  from mq.enqueue_all_contents [OF q(2,3), of ms] q(4,5) obtain q' where q': "mq_inv q'"
    "\<not> mq_closed q'" "mq_contents q' = take ?cap ms"
    "enqueue_all Enqueue ms q = Inr (replicate (min (length ms) ?cap) None @
       replicate (length ms - ?cap) (Some (OtherError ''queue full'')), q')"
    by auto
  from mq.dequeue_n_contents [OF q'(1,2), of "min (length ms) ?cap"] q'(3) obtain q'' where
    q'': "dequeue_n Dequeue (min (length ms) ?cap) q' = (map Inr (take ?cap ms), q'')"
    "mq_inv q''" "\<not> mq_closed q''" "mq_contents q'' = []"
    by (auto simp: min_def split: if_splits)
  from q(1) q'(4) q''(1) mq.deq_empty [OF q''(2-4)] show ?thesis
    unfolding Let_def by blast
qed

text \<open>Close never panics, however often it is called, and it discards what was waiting: the
  closed queue is empty, hands out nothing more and accepts nothing more.\<close>

theorem queue_close_discards:
  assumes "mq_inv q"
  shows "\<exists>q'. Queue_Close q = Inr q' \<and> Queue_Close q' = Inr q' \<and> Len q' = 0 \<and>
    Dequeue q' = (Inl (OtherError ''queue is closed''), q') \<and>
    Enqueue m q' = Inr (Some (OtherError ''queue is closed''), q')"
  using assms
  by (auto simp: Queue_Close_def Len_def Dequeue_def Enqueue_def mq_inv_def close_chan_def
      split: option.splits)

theorem queue_close_discards_witness:
  "\<exists>q'. Queue_Close \<lparr>mq_queue = Some \<lparr>chan_buf = [[1]], chan_cap = 2, chan_closed = False\<rparr>, mq_size = 2\<rparr> =
     Inr q' \<and> Len q' = 0"
  using queue_close_discards [of "\<lparr>mq_queue = Some \<lparr>chan_buf = [[1]], chan_cap = 2,
      chan_closed = False\<rparr>, mq_size = 2\<rparr>"]
  by (auto simp: mq_inv_def chan_wf_def)

end
