(* ===== verification/Registry.thy ===== *)
theory Registry
  imports GoChan "HOL-Library.AList" "HOL-Library.Sublist"
begin

text \<open>
  \<open>internal/broker/consumer_registry.go\<close> and the interface \<open>ConsumerRegistry\<close> of
  \<open>internal/broker/interfaces.go\<close>. Channels are shared by reference between the registry and
  the consumer connections, so they live in a heap from references to channels and the registry
  maps consumer ids to references. Go visits a map in an unspecified order: the operations that
  iterate take the visited order as an argument, and the theorems hold for every order.
  The locale \<open>consumer_registry\<close> is the contract of the interface.
\<close>

section \<open>BroadcastRegistry\<close>

type_synonym heap = "nat \<rightharpoonup> bytes chan"

record BroadcastRegistry =
  consumers :: "(string \<times> nat) list"

definition NewBroadcastRegistry :: BroadcastRegistry where
  "NewBroadcastRegistry = \<lparr>consumers = []\<rparr>"

text \<open>\<open>cid\<close> is the generated UUID.\<close>

definition RegisterConsumer :: "string \<Rightarrow> nat \<Rightarrow> BroadcastRegistry \<Rightarrow> string \<times> BroadcastRegistry" where
  "RegisterConsumer cid ch r = (cid, r\<lparr>consumers := AList.update cid ch (consumers r)\<rparr>)"

definition close_ref :: "nat \<Rightarrow> heap \<Rightarrow> heap go" where
  "close_ref c h =
     (case h c of
        None \<Rightarrow> Inl CloseOfNilChannel
      | Some ch \<Rightarrow> bind_go (close_chan ch) (\<lambda>ch'. Inr (h(c \<mapsto> ch'))))"

definition UnregisterConsumer ::
    "string \<Rightarrow> BroadcastRegistry \<times> heap \<Rightarrow> (BroadcastRegistry \<times> heap) go" where
  "UnregisterConsumer cid s =
     (case map_of (consumers (fst s)) cid of
        None \<Rightarrow> Inr s
      | Some ch \<Rightarrow>
          bind_go (close_ref ch (snd s)) (\<lambda>h'.
            Inr ((fst s)\<lparr>consumers := AList.delete cid (consumers (fst s))\<rparr>, h')))"

text \<open>The second loop of \<open>BroadcastMessage\<close>, over the channels collected under the lock. A
  send to a nil channel in a \<open>select\<close> with a default is never taken.\<close>

fun send_all :: "bytes \<Rightarrow> nat list \<Rightarrow> heap \<Rightarrow> (go_error option \<times> heap) go" where
  "send_all msg [] h = Inr (None, h)"
| "send_all msg (c # cs) h =
     (case h c of
        None \<Rightarrow> Inr (Some (OtherError ''consumer channel full''), h)
      | Some ch \<Rightarrow>
          bind_go (try_send msg ch) (\<lambda>(sent, ch').
            if sent then send_all msg cs (h(c \<mapsto> ch'))
            else Inr (Some (OtherError ''consumer channel full''), h)))"

definition snapshot :: "string list \<Rightarrow> BroadcastRegistry \<Rightarrow> nat list" where
  "snapshot order r = List.map_filter (map_of (consumers r)) order"

definition BroadcastMessage ::
    "string list \<Rightarrow> bytes \<Rightarrow> BroadcastRegistry \<times> heap \<Rightarrow>
     (go_error option \<times> BroadcastRegistry \<times> heap) go" where
  "BroadcastMessage order msg s =
     bind_go (send_all msg (snapshot order (fst s)) (snd s)) (\<lambda>(e, h'). Inr (e, fst s, h'))"

definition GetConsumerCount :: "BroadcastRegistry \<Rightarrow> nat" where
  "GetConsumerCount r = length (consumers r)"

fun Registry_Close ::
    "string list \<Rightarrow> BroadcastRegistry \<times> heap \<Rightarrow> (BroadcastRegistry \<times> heap) go" where
  "Registry_Close [] s = Inr s"
| "Registry_Close (cid # order) s =
     (case map_of (consumers (fst s)) cid of
        None \<Rightarrow> Registry_Close order s
      | Some ch \<Rightarrow>
          bind_go (close_ref ch (snd s)) (\<lambda>h'.
            Registry_Close order ((fst s)\<lparr>consumers := AList.delete cid (consumers (fst s))\<rparr>, h')))"

section \<open>The contract\<close>

text \<open>
  \<open>members\<close>: the registered ids; \<open>inbox s cid\<close>: the messages waiting for a member; \<open>room s cid\<close>:
  how many more fit; \<open>usable s c n\<close>: \<open>c\<close> is an open channel for \<open>n\<close> messages that is empty and
  not registered yet.
\<close>

locale consumer_registry =
  fixes register :: "string \<Rightarrow> 'c \<Rightarrow> 's \<Rightarrow> 's"
    and unregister :: "string \<Rightarrow> 's \<Rightarrow> 's go"
    and broadcast :: "string list \<Rightarrow> 'm \<Rightarrow> 's \<Rightarrow> (go_error option \<times> 's) go"
    and count :: "'s \<Rightarrow> nat"
    and members :: "'s \<Rightarrow> string set"
    and inbox :: "'s \<Rightarrow> string \<Rightarrow> 'm list"
    and room :: "'s \<Rightarrow> string \<Rightarrow> nat"
    and usable :: "'s \<Rightarrow> 'c \<Rightarrow> nat \<Rightarrow> bool"
    and inv :: "'s \<Rightarrow> bool"
  assumes count: "inv s \<Longrightarrow> count s = card (members s)"
    and register: "inv s \<Longrightarrow> usable s c n \<Longrightarrow> cid \<notin> members s \<Longrightarrow>
      inv (register cid c s) \<and> members (register cid c s) = insert cid (members s) \<and>
      inbox (register cid c s) cid = [] \<and> room (register cid c s) cid = n \<and>
      (\<forall>i \<in> members s. inbox (register cid c s) i = inbox s i \<and> room (register cid c s) i = room s i)"
    and unregister: "inv s \<Longrightarrow>
      \<exists>s'. unregister cid s = Inr s' \<and> inv s' \<and> members s' = members s - {cid} \<and>
        (\<forall>i \<in> members s'. inbox s' i = inbox s i \<and> room s' i = room s i)"
    and broadcast_prefix: "inv s \<Longrightarrow> distinct order \<Longrightarrow> set order = members s \<Longrightarrow>
      \<exists>s'. broadcast order m s =
          Inr (if \<forall>i \<in> set order. 0 < room s i then None
               else Some (OtherError ''consumer channel full''), s') \<and>
        inv s' \<and> members s' = members s \<and>
        (\<forall>i \<in> set (takeWhile (\<lambda>i. 0 < room s i) order).
           inbox s' i = inbox s i @ [m] \<and> Suc (room s' i) = room s i) \<and>
        (\<forall>i \<in> set (dropWhile (\<lambda>i. 0 < room s i) order). inbox s' i = inbox s i \<and> room s' i = room s i)"

text \<open>Broadcasting one message after the other, each in its own visiting order, as a producer
  connection does; a refused message does not stop it.\<close>

fun broadcast_all ::
    "(string list \<Rightarrow> 'm \<Rightarrow> 's \<Rightarrow> (go_error option \<times> 's) go) \<Rightarrow> (string list \<times> 'm) list \<Rightarrow> 's \<Rightarrow> 's go"
  where
  "broadcast_all bc [] s = Inr s"
| "broadcast_all bc ((order, m) # ms) s =
     bind_go (bc order m s) (\<lambda>(_, s'). broadcast_all bc ms s')"

context consumer_registry
begin

lemma broadcast_one:
  assumes "inv s" and "distinct order" and "set order = members s"
  shows "\<exists>s' e. broadcast order m s = Inr (e, s') \<and> inv s' \<and> members s' = members s \<and>
    (\<forall>i \<in> members s. (inbox s' i = inbox s i \<or> inbox s' i = inbox s i @ [m]) \<and>
       (\<forall>n. n < room s i \<longrightarrow> n \<le> room s' i))"
proof -
  from broadcast_prefix [OF assms, of m] obtain e s' where s': "broadcast order m s = Inr (e, s')"
    "inv s'" "members s' = members s"
    "\<forall>i \<in> set (takeWhile (\<lambda>i. 0 < room s i) order). inbox s' i = inbox s i @ [m] \<and> Suc (room s' i) = room s i"
    "\<forall>i \<in> set (dropWhile (\<lambda>i. 0 < room s i) order). inbox s' i = inbox s i \<and> room s' i = room s i"
    by blast
  have "members s = set (takeWhile (\<lambda>i. 0 < room s i) order) \<union> set (dropWhile (\<lambda>i. 0 < room s i) order)"
    by (metis assms(3) set_append takeWhile_dropWhile_id)
  with s' show ?thesis
    by (intro exI [of _ s'] exI [of _ e]) fastforce
qed

text \<open>Every member gets a subsequence of the messages, in order and behind what it had, and no
  sequence of broadcasts panics.\<close>

lemma broadcast_all_subseq:
  assumes "inv s" and "\<forall>(order, m) \<in> set ms. distinct order \<and> set order = members s"
  shows "\<exists>s'. broadcast_all broadcast ms s = Inr s' \<and> inv s' \<and> members s' = members s \<and>
    (\<forall>i \<in> members s. \<exists>ys. inbox s' i = inbox s i @ ys \<and> subseq ys (map snd ms))"
  using assms
proof (induction ms arbitrary: s)
  case Nil
  then show ?case by auto
next
  case (Cons om ms)
  obtain order m where om: "om = (order, m)" by (cases om)
  with Cons.prems have "distinct order" "set order = members s" by auto
  from broadcast_one [OF Cons.prems(1) this, of m] obtain s1 e where s1:
    "broadcast order m s = Inr (e, s1)" "inv s1" "members s1 = members s"
    "\<forall>i \<in> members s. inbox s1 i = inbox s i \<or> inbox s1 i = inbox s i @ [m]"
    by blast
  with Cons.IH [of s1] Cons.prems obtain s' where s': "broadcast_all broadcast ms s1 = Inr s'"
    "inv s'" "members s' = members s"
    "\<forall>i \<in> members s. \<exists>ys. inbox s' i = inbox s1 i @ ys \<and> subseq ys (map snd ms)"
    by auto
  have "\<exists>ys. inbox s' i = inbox s i @ ys \<and> subseq ys (m # map snd ms)" if "i \<in> members s" for i
  proof -
    from s'(4) that obtain ys where ys: "inbox s' i = inbox s1 i @ ys" "subseq ys (map snd ms)"
      by blast
    from s1(4) that consider "inbox s1 i = inbox s i" | "inbox s1 i = inbox s i @ [m]" by blast
    then show ?thesis
    proof cases
      case 1
      with ys show ?thesis by (intro exI [of _ ys]) (simp add: list_emb_Cons)
    next
      case 2
      with ys show ?thesis by (intro exI [of _ "m # ys"]) simp
    qed
  qed
  with s1 s' om show ?case by auto
qed

text \<open>With room for all of them, every member gets every message.\<close>

lemma broadcast_all_room:
  assumes "inv s" and "\<forall>(order, m) \<in> set ms. distinct order \<and> set order = members s"
    and "\<forall>i \<in> members s. length ms \<le> room s i"
  shows "\<exists>s'. broadcast_all broadcast ms s = Inr s' \<and> inv s' \<and> members s' = members s \<and>
    (\<forall>i \<in> members s. inbox s' i = inbox s i @ map snd ms \<and> room s' i + length ms = room s i)"
  using assms
proof (induction ms arbitrary: s)
  case Nil
  then show ?case by auto
next
  case (Cons om ms)
  obtain order m where om: "om = (order, m)" by (cases om)
  with Cons.prems have order: "distinct order" "set order = members s" by auto
  have all: "\<forall>i \<in> set order. 0 < room s i"
    using Cons.prems(3) order(2) by fastforce
  then have "takeWhile (\<lambda>i. 0 < room s i) order = order"
    by (simp add: takeWhile_eq_all_conv)
  with broadcast_prefix [OF Cons.prems(1) order, of m] all order(2) obtain s1 where s1:
    "broadcast order m s = Inr (None, s1)" "inv s1" "members s1 = members s"
    "\<forall>i \<in> members s. inbox s1 i = inbox s i @ [m] \<and> Suc (room s1 i) = room s i"
    by auto
  have "\<forall>i \<in> members s1. length ms \<le> room s1 i"
    using Cons.prems(3) s1(3,4) by fastforce
  with Cons.IH [of s1] Cons.prems(2) s1 om show ?case
    by fastforce
qed

end

section \<open>The broadcast registry keeps the contract\<close>

definition reg_members :: "BroadcastRegistry \<times> heap \<Rightarrow> string set" where
  "reg_members s = fst ` set (consumers (fst s))"

definition reg_chan :: "BroadcastRegistry \<times> heap \<Rightarrow> string \<Rightarrow> bytes chan option" where
  "reg_chan s cid = Option.bind (map_of (consumers (fst s)) cid) (snd s)"

definition reg_inbox :: "BroadcastRegistry \<times> heap \<Rightarrow> string \<Rightarrow> bytes list" where
  "reg_inbox s cid = (case reg_chan s cid of None \<Rightarrow> [] | Some ch \<Rightarrow> chan_buf ch)"

definition reg_room :: "BroadcastRegistry \<times> heap \<Rightarrow> string \<Rightarrow> nat" where
  "reg_room s cid =
     (case reg_chan s cid of None \<Rightarrow> 0 | Some ch \<Rightarrow> chan_cap ch - length (chan_buf ch))"

definition reg_usable :: "BroadcastRegistry \<times> heap \<Rightarrow> nat \<Rightarrow> nat \<Rightarrow> bool" where
  "reg_usable s c n \<longleftrightarrow> 0 < n \<and> c \<notin> snd ` set (consumers (fst s)) \<and>
     snd s c = Some \<lparr>chan_buf = [], chan_cap = n, chan_closed = False\<rparr>"

text \<open>Ids and channel references are distinct, and every registered channel is open, has a
  buffer and is within its capacity: whoever finds a channel in the registry may send on it.\<close>

definition open_ref :: "heap \<Rightarrow> nat \<Rightarrow> bool" where
  "open_ref h c \<longleftrightarrow> (\<exists>ch. h c = Some ch \<and> \<not> chan_closed ch \<and> chan_wf ch \<and> 0 < chan_cap ch)"

definition reg_inv :: "BroadcastRegistry \<times> heap \<Rightarrow> bool" where
  "reg_inv s \<longleftrightarrow> distinct (map fst (consumers (fst s))) \<and> distinct (map snd (consumers (fst s))) \<and>
     (\<forall>c \<in> snd ` set (consumers (fst s)). open_ref (snd s) c)"

lemma reg_inv_lookup:
  assumes "reg_inv s" and "map_of (consumers (fst s)) cid = Some c"
  shows "open_ref (snd s) c" and "(cid, c) \<in> set (consumers (fst s))"
proof -
  show "(cid, c) \<in> set (consumers (fst s))"
    using assms(2) by (rule map_of_SomeD)
  then have "c \<in> snd ` set (consumers (fst s))"
    by (rule rev_image_eqI) simp
  with assms(1) show "open_ref (snd s) c"
    unfolding reg_inv_def by blast
qed

lemma reg_inv_inj:
  assumes "reg_inv s" and "map_of (consumers (fst s)) i = Some c"
    and "map_of (consumers (fst s)) j = Some c"
  shows "i = j"
proof -
  have "inj_on snd (set (consumers (fst s)))"
    using assms(1) by (auto simp: reg_inv_def distinct_map)
  with assms(2,3) show ?thesis
    by (metis inj_onD map_of_SomeD prod.inject snd_conv)
qed

text \<open>The sends reach the channels up to the first full one.\<close>

definition ref_room :: "heap \<Rightarrow> nat \<Rightarrow> nat" where
  "ref_room h c = (case h c of None \<Rightarrow> 0 | Some ch \<Rightarrow> chan_cap ch - length (chan_buf ch))"

definition push :: "bytes \<Rightarrow> nat set \<Rightarrow> heap \<Rightarrow> heap" where
  "push msg C h =
     (\<lambda>c. if c \<in> C then map_option (\<lambda>ch. ch\<lparr>chan_buf := chan_buf ch @ [msg]\<rparr>) (h c) else h c)"

lemma push_empty [simp]: "push msg {} h = h"
  by (simp add: push_def)

lemma send_all_prefix:
  "distinct cs \<Longrightarrow> \<forall>c \<in> set cs. open_ref h c \<Longrightarrow>
   send_all msg cs h =
     Inr (if \<forall>c \<in> set cs. 0 < ref_room h c then None
          else Some (OtherError ''consumer channel full''),
          push msg (set (takeWhile (\<lambda>c. 0 < ref_room h c) cs)) h)"
proof (induction cs arbitrary: h)
  case Nil
  then show ?case by simp
next
  case (Cons c cs)
  then obtain ch where ch: "h c = Some ch" "\<not> chan_closed ch" "chan_wf ch"
    by (auto simp: open_ref_def)
  show ?case
  proof (cases "0 < ref_room h c")
    case False
    with ch have "try_send msg ch = Inr (False, ch)"
      by (simp add: try_send_full ref_room_def)
    with ch False show ?thesis by simp
  next
    case True
    let ?ch' = "ch\<lparr>chan_buf := chan_buf ch @ [msg]\<rparr>" and ?h' = "h(c \<mapsto> ch\<lparr>chan_buf := chan_buf ch @ [msg]\<rparr>)"
    have c: "c \<notin> set cs" and dist: "distinct cs"
      using Cons.prems by auto
    have room: "ref_room ?h' d = ref_room h d" and "open_ref h d \<Longrightarrow> open_ref ?h' d"
      if "d \<in> set cs" for d
      using that c by (auto simp: ref_room_def open_ref_def)
    with Cons.prems have "\<forall>d \<in> set cs. open_ref ?h' d" by auto
    note IH = Cons.IH [OF dist this]
    have tw: "takeWhile (\<lambda>d. 0 < ref_room ?h' d) cs = takeWhile (\<lambda>d. 0 < ref_room h d) cs"
      using room by (intro takeWhile_cong) auto
    have "try_send msg ch = Inr (True, ?ch')"
      using ch True by (simp add: try_send_open ref_room_def)
    then have step: "send_all msg (c # cs) h = send_all msg cs ?h'"
      using ch by simp
    have pushed: "push msg (set (takeWhile (\<lambda>d. 0 < ref_room h d) cs)) ?h' =
        push msg (set (takeWhile (\<lambda>d. 0 < ref_room h d) (c # cs))) h"
      using True ch c by (auto simp: push_def fun_eq_iff dest: set_takeWhileD)
    have all: "(\<forall>d \<in> set cs. 0 < ref_room ?h' d) \<longleftrightarrow> (\<forall>d \<in> set (c # cs). 0 < ref_room h d)"
      using room True by auto
    show ?thesis
      by (simp only: step IH tw pushed all)
  qed
qed

lemma reg_room_ref:
  "map_of (consumers (fst s)) i = Some c \<Longrightarrow> reg_room s i = ref_room (snd s) c"
  by (simp add: reg_room_def reg_chan_def ref_room_def)

lemma snapshot_members:
  assumes "set order \<subseteq> reg_members s"
  shows "snapshot order (fst s) = map (\<lambda>i. the (map_of (consumers (fst s)) i)) order"
  using assms
proof (induction order)
  case Nil
  then show ?case by (simp add: snapshot_def map_filter_simps)
next
  case (Cons i order)
  then have "map_of (consumers (fst s)) i \<noteq> None"
    by (simp add: reg_members_def map_of_eq_None_iff)
  with Cons show ?case by (auto simp: snapshot_def map_filter_simps)
qed

lemma reg_members_lookup:
  "i \<in> reg_members s \<longleftrightarrow> (\<exists>c. map_of (consumers (fst s)) i = Some c)"
  by (metis reg_members_def map_of_eq_None_iff not_None_eq)

lemma BroadcastMessage_prefix:
  assumes "reg_inv s" and "distinct order" and "set order = reg_members s"
  shows "\<exists>s'. BroadcastMessage order m s =
      Inr (if \<forall>i \<in> set order. 0 < reg_room s i then None
           else Some (OtherError ''consumer channel full''), s') \<and>
    reg_inv s' \<and> reg_members s' = reg_members s \<and>
    (\<forall>i \<in> set (takeWhile (\<lambda>i. 0 < reg_room s i) order).
       reg_inbox s' i = reg_inbox s i @ [m] \<and> Suc (reg_room s' i) = reg_room s i) \<and>
    (\<forall>i \<in> set (dropWhile (\<lambda>i. 0 < reg_room s i) order).
       reg_inbox s' i = reg_inbox s i \<and> reg_room s' i = reg_room s i)"
proof -
  obtain r h where s: "s = (r, h)" by (cases s)
  define f where "f = (\<lambda>i. the (map_of (consumers r) i))"
  have f: "map_of (consumers r) i = Some (f i)" if "i \<in> reg_members s" for i
    using that by (auto simp: reg_members_lookup f_def s)
  have inj: "inj_on f (reg_members s)"
    using f reg_inv_inj [OF assms(1)] by (auto simp: inj_on_def s)
  have room: "0 < ref_room h (f i) \<longleftrightarrow> 0 < reg_room s i" if "i \<in> set order" for i
    using f that assms(3) reg_room_ref [of s i "f i"] by (auto simp: s)
  let ?P = "\<lambda>i. 0 < reg_room s i"
  let ?T = "takeWhile ?P order"
  have snap: "snapshot order r = map f order"
    using snapshot_members [of order s] assms(3) by (simp add: s f_def)
  have "takeWhile (\<lambda>c. 0 < ref_room h c) (map f order) = map f ?T"
    unfolding takeWhile_map using room by (auto intro!: arg_cong [of _ _ "map f"] takeWhile_cong)
  moreover have "distinct (map f order)"
    using assms(2,3) inj by (simp add: distinct_map)
  moreover have opened: "\<forall>c \<in> set (map f order). open_ref h c"
    using reg_inv_lookup(1) [OF assms(1)] f assms(3) by (auto simp: s)
  ultimately have bc: "BroadcastMessage order m s =
      Inr (if \<forall>i \<in> set order. 0 < reg_room s i then None
           else Some (OtherError ''consumer channel full''), r, push m (f ` set ?T) h)"
    using room by (simp add: BroadcastMessage_def s snap send_all_prefix)
  let ?s' = "(r, push m (f ` set ?T) h)"
  have sub: "set ?T \<subseteq> reg_members s"
    using assms(3) by (auto dest: set_takeWhileD)
  have T: "reg_chan ?s' i = map_option (\<lambda>ch. ch\<lparr>chan_buf := chan_buf ch @ [m]\<rparr>) (h (f i))"
    "reg_chan s i = h (f i)" if "i \<in> set ?T" for i
    using that sub f by (auto simp: reg_chan_def push_def s)
  have D: "reg_chan ?s' i = reg_chan s i" if "i \<in> set (dropWhile ?P order)" for i
  proof -
    from that assms(3) have i: "i \<in> reg_members s" by (auto dest: set_dropWhileD)
    have "distinct (?T @ dropWhile ?P order)"
      using assms(2) by simp
    with that have "i \<notin> set ?T" unfolding distinct_append by blast
    with i sub inj have "f i \<notin> f ` set ?T" by (meson inj_on_image_mem_iff)
    with f [OF i] show ?thesis by (simp add: reg_chan_def push_def s)
  qed
  have Tmem: "\<exists>ch. h (f i) = Some ch \<and> length (chan_buf ch) < chan_cap ch" if "i \<in> set ?T" for i
  proof -
    from that have "0 < reg_room s i" by (blast dest: set_takeWhileD)
    with T(2) [OF that] show ?thesis
      by (auto simp: reg_room_def split: option.splits)
  qed
  have inv: "reg_inv ?s'"
  proof -
    have "open_ref (push m (f ` set ?T) h) c" if "open_ref h c" for c
    proof (cases "c \<in> f ` set ?T")
      case True
      with Tmem that show ?thesis by (force simp: open_ref_def push_def chan_wf_def)
    qed (use that in \<open>simp add: open_ref_def push_def\<close>)
    with assms(1) show ?thesis by (auto simp: reg_inv_def s)
  qed
  have "reg_inbox ?s' i = reg_inbox s i @ [m] \<and> Suc (reg_room ?s' i) = reg_room s i"
    if "i \<in> set ?T" for i
    using T [OF that] Tmem [OF that] by (auto simp: reg_inbox_def reg_room_def)
  moreover have "reg_inbox ?s' i = reg_inbox s i \<and> reg_room ?s' i = reg_room s i"
    if "i \<in> set (dropWhile ?P order)" for i
    using D [OF that] by (simp add: reg_inbox_def reg_room_def)
  moreover have "reg_members ?s' = reg_members s"
    by (simp add: reg_members_def s)
  ultimately show ?thesis
    using bc inv by (intro exI [of _ ?s']) auto
qed

lemma update_fresh: "k \<notin> fst ` set al \<Longrightarrow> AList.update k v al = al @ [(k, v)]"
  by (induction al) auto

definition register_in :: "string \<Rightarrow> nat \<Rightarrow> BroadcastRegistry \<times> heap \<Rightarrow> BroadcastRegistry \<times> heap" where
  "register_in cid c s = (snd (RegisterConsumer cid c (fst s)), snd s)"

lemma register_in_law:
  assumes "reg_inv s" and "reg_usable s c n" and "cid \<notin> reg_members s"
  shows "reg_inv (register_in cid c s) \<and>
    reg_members (register_in cid c s) = insert cid (reg_members s) \<and>
    reg_inbox (register_in cid c s) cid = [] \<and> reg_room (register_in cid c s) cid = n \<and>
    (\<forall>i \<in> reg_members s. reg_inbox (register_in cid c s) i = reg_inbox s i \<and>
       reg_room (register_in cid c s) i = reg_room s i)"
proof -
  let ?s = "register_in cid c s"
  have cs: "consumers (fst ?s) = consumers (fst s) @ [(cid, c)]" and h: "snd ?s = snd s"
    using assms(3) by (simp_all add: register_in_def RegisterConsumer_def reg_members_def update_fresh)
  have notin: "map_of (consumers (fst s)) cid = None"
    using assms(3) by (simp add: reg_members_def map_of_eq_None_iff)
  have "reg_chan ?s cid = Some \<lparr>chan_buf = [], chan_cap = n, chan_closed = False\<rparr>"
    using notin assms(2) by (simp add: reg_chan_def cs h reg_usable_def map_add_def)
  moreover have "reg_chan ?s i = reg_chan s i" if "i \<in> reg_members s" for i
    using that assms(3) by (auto simp: reg_chan_def cs h map_add_def split: option.splits)
  moreover have "reg_inv ?s"
    using assms by (auto simp: reg_inv_def cs h reg_usable_def reg_members_def open_ref_def chan_wf_def)
  moreover have "reg_members ?s = insert cid (reg_members s)"
    by (simp add: reg_members_def cs)
  ultimately show ?thesis
    by (simp add: reg_inbox_def reg_room_def)
qed

lemma UnregisterConsumer_law:
  assumes inv: "reg_inv s"
  shows "\<exists>s'. UnregisterConsumer cid s = Inr s' \<and> reg_inv s' \<and>
    reg_members s' = reg_members s - {cid} \<and>
    (\<forall>i \<in> reg_members s'. reg_inbox s' i = reg_inbox s i \<and> reg_room s' i = reg_room s i)"
proof (cases "map_of (consumers (fst s)) cid")
  case None
  then have "cid \<notin> reg_members s" by (auto simp: reg_members_lookup)
  with None inv show ?thesis by (simp add: UnregisterConsumer_def)
next
  case (Some c)
  from reg_inv_lookup(1) [OF inv Some] obtain ch where ch: "snd s c = Some ch" "\<not> chan_closed ch"
    by (auto simp: open_ref_def)
  let ?s = "((fst s)\<lparr>consumers := AList.delete cid (consumers (fst s))\<rparr>,
    (snd s)(c \<mapsto> ch\<lparr>chan_closed := True\<rparr>))"
  have un: "UnregisterConsumer cid s = Inr ?s"
    using ch Some by (simp add: UnregisterConsumer_def close_ref_def close_chan_def)
  have mem: "reg_members ?s = reg_members s - {cid}"
    using AList.delete_keys [of cid "consumers (fst s)"]
    by (metis (no_types, lifting) BroadcastRegistry.select_convs(1) BroadcastRegistry.surjective
        BroadcastRegistry.update_convs(1) fst_conv image_set reg_members_def set_removeAll)
  have sub: "set (AList.delete cid (consumers (fst s))) \<subseteq> set (consumers (fst s)) - {(cid, c)}"
    by (auto simp: AList.delete_eq)
  have other: "d \<noteq> c" if "(i, d) \<in> set (AList.delete cid (consumers (fst s)))" for i d
  proof
    assume "d = c"
    have dist: "distinct (map fst (consumers (fst s)))" using inv by (simp add: reg_inv_def)
    from that have "(i, d) \<in> set (consumers (fst s))" and "i \<noteq> cid"
      by (auto simp: AList.delete_eq)
    with dist have "map_of (consumers (fst s)) i = Some c" using \<open>d = c\<close> by simp
    with reg_inv_inj [OF inv this Some] \<open>i \<noteq> cid\<close> show False by simp
  qed
  have "reg_chan ?s i = reg_chan s i" if "i \<in> reg_members ?s" for i
  proof -
    from that obtain d where d: "map_of (AList.delete cid (consumers (fst s))) i = Some d"
      by (auto simp: reg_members_lookup)
    moreover have "i \<noteq> cid" using that mem by blast
    moreover have "d \<noteq> c" using other map_of_SomeD [OF d] by blast
    ultimately show ?thesis by (simp add: reg_chan_def AList.delete_conv)
  qed
  moreover have "reg_inv ?s"
  proof -
    have dist: "distinct (map fst (AList.delete cid (consumers (fst s))))"
      "distinct (map snd (AList.delete cid (consumers (fst s))))"
      using inv by (simp_all add: reg_inv_def AList.delete_eq distinct_map_filter)
    have "open_ref (snd ?s) d" if "(i, d) \<in> set (AList.delete cid (consumers (fst s)))" for i d
    proof -
      from that sub have "d \<in> snd ` set (consumers (fst s))" by (force intro: rev_image_eqI)
      then have "open_ref (snd s) d" using inv unfolding reg_inv_def by blast
      with other [OF that] show ?thesis by (simp add: open_ref_def)
    qed
    with dist show ?thesis by (auto simp: reg_inv_def)
  qed
  ultimately show ?thesis
    using un mem by (intro exI [of _ ?s]) (simp add: reg_inbox_def reg_room_def)
qed

lemma GetConsumerCount_members: "reg_inv s \<Longrightarrow> GetConsumerCount (fst s) = card (reg_members s)"
  unfolding GetConsumerCount_def reg_members_def reg_inv_def
  by (metis distinct_card length_map list.set_map)

interpretation reg: consumer_registry register_in UnregisterConsumer BroadcastMessage
  "\<lambda>s. GetConsumerCount (fst s)" reg_members reg_inbox reg_room reg_usable reg_inv
  by unfold_locales
     (rule GetConsumerCount_members register_in_law UnregisterConsumer_law BroadcastMessage_prefix,
      assumption+)+

section \<open>Shutting the registry down\<close>

lemma Registry_Close_Cons:
  "Registry_Close (cid # order) s = bind_go (UnregisterConsumer cid s) (Registry_Close order)"
  by (simp add: UnregisterConsumer_def bind_go_assoc split: option.split)

lemma UnregisterConsumer_heap:
  assumes "reg_inv s" and "map_of (consumers (fst s)) cid = Some c"
  shows "\<exists>ch. snd s c = Some ch \<and> UnregisterConsumer cid s =
    Inr ((fst s)\<lparr>consumers := AList.delete cid (consumers (fst s))\<rparr>,
      (snd s)(c \<mapsto> ch\<lparr>chan_closed := True\<rparr>))"
  using reg_inv_lookup(1) [OF assms]
  by (auto simp: open_ref_def UnregisterConsumer_def assms(2) close_ref_def close_chan_def)

lemma Registry_Close_state:
  "reg_inv s \<Longrightarrow> distinct order \<Longrightarrow> set order = reg_members s \<Longrightarrow>
   \<exists>s'. Registry_Close order s = Inr s' \<and> reg_inv s' \<and> consumers (fst s') = [] \<and>
     (\<forall>c. snd s' c = (if c \<in> snd ` set (consumers (fst s))
        then map_option (\<lambda>ch. ch\<lparr>chan_closed := True\<rparr>) (snd s c) else snd s c))"
proof (induction order arbitrary: s)
  case Nil
  then have "consumers (fst s) = []" by (simp add: reg_members_def)
  with Nil show ?case by simp
next
  case (Cons cid order)
  then obtain c where c: "map_of (consumers (fst s)) cid = Some c"
    by (metis list.set_intros(1) reg_members_lookup)
  from UnregisterConsumer_heap [OF Cons.prems(1) c] obtain ch s1 where
    ch: "snd s c = Some ch" and s1: "UnregisterConsumer cid s = Inr s1"
    "fst s1 = (fst s)\<lparr>consumers := AList.delete cid (consumers (fst s))\<rparr>"
    "snd s1 = (snd s)(c \<mapsto> ch\<lparr>chan_closed := True\<rparr>)"
    by auto
  from UnregisterConsumer_law [OF Cons.prems(1), of cid] s1(1)
  have inv: "reg_inv s1" and mem: "reg_members s1 = reg_members s - {cid}" by auto
  have "set order = reg_members s1"
    using Cons.prems(2,3) mem by auto
  from Cons.IH [OF inv _ this] Cons.prems(2) obtain s' where s': "Registry_Close order s1 = Inr s'"
    "reg_inv s'" "consumers (fst s') = []"
    "\<forall>d. snd s' d = (if d \<in> snd ` set (consumers (fst s1))
        then map_option (\<lambda>ch. ch\<lparr>chan_closed := True\<rparr>) (snd s1 d) else snd s1 d)"
    by auto
  have refs: "insert c (snd ` set (consumers (fst s1))) = snd ` set (consumers (fst s))"
  proof (rule set_eqI, rule iffI)
    fix d
    assume "d \<in> insert c (snd ` set (consumers (fst s1)))"
    then consider "d = c" | i where "(i, d) \<in> set (AList.delete cid (consumers (fst s)))"
      by (auto simp: s1(2))
    then show "d \<in> snd ` set (consumers (fst s))"
    proof cases
      case 1
      with map_of_SomeD [OF c] show ?thesis by (simp add: rev_image_eqI)
    next
      case 2
      then have "(i, d) \<in> set (consumers (fst s))" by (simp add: AList.delete_eq)
      then show ?thesis by (simp add: rev_image_eqI)
    qed
  next
    fix d
    assume "d \<in> snd ` set (consumers (fst s))"
    then obtain i where i: "(i, d) \<in> set (consumers (fst s))" by auto
    have dist: "distinct (map fst (consumers (fst s)))"
      using Cons.prems(1) by (simp add: reg_inv_def)
    show "d \<in> insert c (snd ` set (consumers (fst s1)))"
    proof (cases "i = cid")
      case True
      with i c dist show ?thesis by simp
    next
      case False
      with i have "(i, d) \<in> set (AList.delete cid (consumers (fst s)))"
        by (simp add: AList.delete_eq)
      then show ?thesis by (simp add: s1(2) rev_image_eqI)
    qed
  qed
  have "snd s' d = (if d \<in> snd ` set (consumers (fst s))
        then map_option (\<lambda>ch. ch\<lparr>chan_closed := True\<rparr>) (snd s d) else snd s d)" for d
    using s'(4) s1(3) ch unfolding refs [symmetric] by auto
  moreover have "Registry_Close (cid # order) s = Inr s'"
    unfolding Registry_Close_Cons by (simp add: s1(1) s'(1))
  ultimately show ?case
    using s'(2,3) by blast
qed

section \<open>Properties\<close>

text \<open>C26: One broadcast, exactly, on a consistent registry (each consumer with an open channel of its own
  that has a positive buffer) and by a call that runs alone: no consumer leaves between its snapshot and
  its sends (that can make a send panic), and none receives. In whatever order Go visits the registered consumers, the
  ones before the first consumer whose channel is full get the message, the full one and every one
  after it do not, and the call reports "consumer channel full" if there was a full one. It does not
  panic then, and changes nobody's registration.\<close>

theorem broadcast_reaches_up_to_first_full:
  assumes "reg_inv s" and "distinct order" and "set order = reg_members s"
  shows "\<exists>s'. BroadcastMessage order m s =
      Inr (if \<forall>i \<in> set order. 0 < reg_room s i then None
           else Some (OtherError ''consumer channel full''), s') \<and>
    reg_inv s' \<and> reg_members s' = reg_members s \<and>
    (\<forall>i \<in> set (takeWhile (\<lambda>i. 0 < reg_room s i) order).
       reg_inbox s' i = reg_inbox s i @ [m] \<and> Suc (reg_room s' i) = reg_room s i) \<and>
    (\<forall>i \<in> set (dropWhile (\<lambda>i. 0 < reg_room s i) order).
       reg_inbox s' i = reg_inbox s i \<and> reg_room s' i = reg_room s i)"
  using assms by (rule BroadcastMessage_prefix)

definition two_consumers :: "bytes list \<Rightarrow> nat \<Rightarrow> nat \<Rightarrow> BroadcastRegistry \<times> heap" where
  "two_consumers waiting j k =
     (\<lparr>consumers = [(''a'', 0), (''b'', 1)]\<rparr>,
      [0 \<mapsto> \<lparr>chan_buf = waiting, chan_cap = j, chan_closed = False\<rparr>,
       1 \<mapsto> \<lparr>chan_buf = [], chan_cap = k, chan_closed = False\<rparr>])"

lemma two_consumers_inv:
  "length ws \<le> j \<Longrightarrow> 0 < j \<Longrightarrow> 0 < k \<Longrightarrow> reg_inv (two_consumers ws j k)"
  by (simp add: two_consumers_def reg_inv_def open_ref_def chan_wf_def)

lemma two_consumers_members: "reg_members (two_consumers ws j k) = {''a'', ''b''}"
  and two_consumers_room: "reg_room (two_consumers ws j k) ''a'' = j - length ws"
    "reg_room (two_consumers ws j k) ''b'' = k"
  and two_consumers_inbox: "reg_inbox (two_consumers ws j k) ''a'' = ws"
    "reg_inbox (two_consumers ws j k) ''b'' = []"
  by (auto simp: two_consumers_def reg_members_def reg_room_def reg_inbox_def reg_chan_def)

lemmas two_consumers_simps = two_consumers_inv two_consumers_members two_consumers_room two_consumers_inbox

theorem broadcast_reaches_up_to_first_full_witness:
  "\<exists>s'. BroadcastMessage [''b'', ''a''] [7] (two_consumers [[9]] 1 1) =
      Inr (Some (OtherError ''consumer channel full''), s') \<and>
    reg_inbox s' ''b'' = [[7]] \<and> reg_inbox s' ''a'' = [[9]]"
  using broadcast_reaches_up_to_first_full
    [of "two_consumers [[9]] 1 1" "[''b'', ''a'']" "[7]"]
  by (auto simp: two_consumers_simps)

text \<open>One slow consumer costs the others messages: while some consumer's channel is full,
  there is a visiting order in which a consumer with room does not get the message.\<close>

theorem broadcast_full_consumer_starves_another:
  assumes "reg_inv s" and "a \<in> reg_members s" and "b \<in> reg_members s"
    and "reg_room s a = 0" and "0 < reg_room s b"
  shows "\<exists>order s'. distinct order \<and> set order = reg_members s \<and>
    BroadcastMessage order m s = Inr (Some (OtherError ''consumer channel full''), s') \<and>
    reg_inbox s' b = reg_inbox s b"
proof -
  have "finite (reg_members s - {a})"
    by (simp add: reg_members_def)
  from finite_distinct_list [OF this] obtain rest where rest: "set rest = reg_members s - {a}"
    "distinct rest"
    by blast
  let ?order = "a # rest"
  have order: "distinct ?order" "set ?order = reg_members s"
    using rest assms(2) by auto
  have "dropWhile (\<lambda>i. 0 < reg_room s i) ?order = ?order"
    and "\<not> (\<forall>i \<in> set ?order. 0 < reg_room s i)" and "b \<in> set ?order"
    using assms(3,4) order(2) by auto
  moreover from BroadcastMessage_prefix [OF assms(1) order, of m] obtain s' where
    "BroadcastMessage ?order m s = Inr (if \<forall>i \<in> set ?order. 0 < reg_room s i then None
       else Some (OtherError ''consumer channel full''), s')"
    "\<forall>i \<in> set (dropWhile (\<lambda>i. 0 < reg_room s i) ?order). reg_inbox s' i = reg_inbox s i"
    by blast
  ultimately show ?thesis
    using order by (intro exI [of _ ?order] exI [of _ s']) (simp only: if_False)
qed

theorem broadcast_full_consumer_starves_another_witness:
  "\<exists>order s'. distinct order \<and> set order = {''a'', ''b''} \<and>
    BroadcastMessage order [7] (two_consumers [[9]] 1 1) =
      Inr (Some (OtherError ''consumer channel full''), s') \<and> reg_inbox s' ''b'' = []"
  using broadcast_full_consumer_starves_another
    [of "two_consumers [[9]] 1 1" "''a''" "''b''" "[7]"]
  by (simp add: two_consumers_simps)

text \<open>A producer that broadcasts a sequence of messages never panics on a consistent
  registry, and every consumer gets a subsequence of the messages, in their order and behind
  what was waiting for it; a consumer set in which everyone has room for all of them gets all of
  them.\<close>

theorem broadcast_sequence_order:
  assumes "reg_inv s" and "\<forall>(order, m) \<in> set ms. distinct order \<and> set order = reg_members s"
  shows "\<exists>s'. broadcast_all BroadcastMessage ms s = Inr s' \<and> reg_inv s' \<and>
    reg_members s' = reg_members s \<and>
    (\<forall>i \<in> reg_members s. \<exists>ys. reg_inbox s' i = reg_inbox s i @ ys \<and> subseq ys (map snd ms)) \<and>
    ((\<forall>i \<in> reg_members s. length ms \<le> reg_room s i) \<longrightarrow>
       (\<forall>i \<in> reg_members s. reg_inbox s' i = reg_inbox s i @ map snd ms))"
proof -
  from reg.broadcast_all_subseq [OF assms] obtain s' where s': "broadcast_all BroadcastMessage ms s = Inr s'"
    "reg_inv s'" "reg_members s' = reg_members s"
    "\<forall>i \<in> reg_members s. \<exists>ys. reg_inbox s' i = reg_inbox s i @ ys \<and> subseq ys (map snd ms)"
    by blast
  with reg.broadcast_all_room [OF assms] show ?thesis
    by (intro exI [of _ s']) auto
qed

theorem broadcast_sequence_order_witness:
  "\<exists>s'. broadcast_all BroadcastMessage
      [([''a'', ''b''], [1]), ([''b'', ''a''], [2])] (two_consumers [[9]] 3 3) = Inr s' \<and>
    reg_inbox s' ''a'' = [[9], [1], [2]] \<and> reg_inbox s' ''b'' = [[1], [2]]"
  using broadcast_sequence_order
    [of "two_consumers [[9]] 3 3" "[([''a'', ''b''], [1]), ([''b'', ''a''], [2])]"]
  by (auto simp: two_consumers_simps)

text \<open>Closing a consistent registry closes every registered channel exactly once (no panic),
  leaves what was waiting in them to be drained, touches no other channel and forgets every
  consumer.\<close>

theorem registry_close_closes_all:
  assumes "reg_inv s" and "distinct order" and "set order = reg_members s"
  shows "\<exists>s'. Registry_Close order s = Inr s' \<and> GetConsumerCount (fst s') = 0 \<and>
    (\<forall>c. snd s' c = (if c \<in> snd ` set (consumers (fst s))
        then map_option (\<lambda>ch. ch\<lparr>chan_closed := True\<rparr>) (snd s c) else snd s c))"
  using Registry_Close_state [OF assms] by (auto simp: GetConsumerCount_def)

theorem registry_close_closes_all_witness:
  "\<exists>s'. Registry_Close [''b'', ''a''] (two_consumers [[9]] 2 3) = Inr s' \<and> GetConsumerCount (fst s') = 0"
  using registry_close_closes_all [of "two_consumers [[9]] 2 3" "[''b'', ''a'']"]
  by (auto simp: two_consumers_simps)

end
