(* ===== verification/Common.thy ===== *)
theory Common
  imports Prelude
begin

text \<open>
  \<open>internal/common/utility.go\<close>: configuration from the environment. The environment is a
  function from names to values, with the empty string for an unset name, as \<open>os.Getenv\<close>
  reports it. \<open>strconv.Atoi\<close> is modelled for the 64-bit \<open>int\<close>.
\<close>

section \<open>strconv.Atoi\<close>

definition is_digit :: "char \<Rightarrow> bool" where
  "is_digit c \<longleftrightarrow> 48 \<le> (of_char c :: nat) \<and> (of_char c :: nat) \<le> 57"

definition digit_val :: "char \<Rightarrow> nat" where
  "digit_val c = of_char c - 48"

fun digits_value :: "nat \<Rightarrow> string \<Rightarrow> nat option" where
  "digits_value acc [] = Some acc"
| "digits_value acc (c # cs) =
     (if is_digit c then digits_value (10 * acc + digit_val c) cs else None)"

definition int_max :: int where "int_max = 9223372036854775807"
definition int_min :: int where "int_min = -9223372036854775808"

definition Atoi :: "string \<Rightarrow> go_error + int" where
  "Atoi s =
     (let neg = (s \<noteq> [] \<and> hd s = CHR ''-'');
          ds = (if s \<noteq> [] \<and> (hd s = CHR ''-'' \<or> hd s = CHR ''+'') then tl s else s)
      in if ds = [] then Inl (OtherError ''invalid syntax'')
         else case digits_value 0 ds of
           None \<Rightarrow> Inl (OtherError ''invalid syntax'')
         | Some n \<Rightarrow>
             (let v = (if neg then - int n else int n)
              in if int_min \<le> v \<and> v \<le> int_max then Inr v
                 else Inl (OtherError ''value out of range'')))"

lemma Atoi_range: "Atoi s = Inr n \<Longrightarrow> int_min \<le> n \<and> n \<le> int_max"
  by (auto simp: Atoi_def Let_def split: if_splits option.splits)

section \<open>The environment\<close>

type_synonym environment = "string \<Rightarrow> string"

definition GetEnv :: "environment \<Rightarrow> string \<Rightarrow> string \<Rightarrow> string" where
  "GetEnv env key defaultValue = (if env key \<noteq> [] then env key else defaultValue)"

definition GetEnvInt :: "environment \<Rightarrow> string \<Rightarrow> int \<Rightarrow> int" where
  "GetEnvInt env key defaultValue =
     (if env key \<noteq> []
      then (case Atoi (env key) of Inr n \<Rightarrow> n | Inl _ \<Rightarrow> defaultValue)
      else defaultValue)"

lemma GetEnv_nonempty: "d \<noteq> [] \<Longrightarrow> GetEnv env key d \<noteq> []"
  by (simp add: GetEnv_def)

end
