(* ===== verification/Broker.thy ===== *)
theory Broker
  imports Protocol MemoryQueue Registry Common
begin

text \<open>
  \<open>internal/broker/broker.go\<close> and the delivery modes of \<open>internal/broker/interfaces.go\<close>: one
  connection handler at a time. A connection is its input stream and its output stream; the
  broker is its mode, its registry with the heap of consumer channels, and its queue. Handlers
  return the new broker, with a panic as an \<open>Inl\<close>. The interleaving of several handlers is in
  the theory \<open>BrokerSystem\<close>. Log output is not modelled.
\<close>

section \<open>Delivery modes\<close>

text \<open>\<open>OtherMode\<close> stands for every other value of the integer type; the code treats them alike.\<close>

datatype DeliveryMode = Broadcast | Queue | OtherMode

fun DeliveryMode_String :: "DeliveryMode \<Rightarrow> string" where
  "DeliveryMode_String Broadcast = ''broadcast''"
| "DeliveryMode_String Queue = ''queue''"
| "DeliveryMode_String OtherMode = ''unknown''"

definition ParseDeliveryMode :: "string \<Rightarrow> DeliveryMode" where
  "ParseDeliveryMode s =
     (if s = ''queue'' then Queue else if s = ''broadcast'' then Broadcast else Broadcast)"

text \<open>A property of all modes can be checked by evaluating it on the three of them.\<close>

instantiation DeliveryMode :: enum
begin

definition enum_DeliveryMode :: "DeliveryMode list" where
  "enum_DeliveryMode = [Broadcast, Queue, OtherMode]"

definition enum_all_DeliveryMode :: "(DeliveryMode \<Rightarrow> bool) \<Rightarrow> bool" where
  "enum_all_DeliveryMode P \<longleftrightarrow> P Broadcast \<and> P Queue \<and> P OtherMode"

definition enum_ex_DeliveryMode :: "(DeliveryMode \<Rightarrow> bool) \<Rightarrow> bool" where
  "enum_ex_DeliveryMode P \<longleftrightarrow> P Broadcast \<or> P Queue \<or> P OtherMode"

instance
proof
  have all: "x = Broadcast \<or> x = Queue \<or> x = OtherMode" for x :: DeliveryMode by (cases x) auto
  then show "(UNIV :: DeliveryMode set) = set enum_class.enum" by (auto simp: enum_DeliveryMode_def)
  show "distinct (enum_class.enum :: DeliveryMode list)" by (simp add: enum_DeliveryMode_def)
  show "enum_class.enum_all P \<longleftrightarrow> Ball UNIV P" for P :: "DeliveryMode \<Rightarrow> bool"
    unfolding enum_all_DeliveryMode_def using all by (metis UNIV_I)
  show "enum_class.enum_ex P \<longleftrightarrow> Bex UNIV P" for P :: "DeliveryMode \<Rightarrow> bool"
    unfolding enum_ex_DeliveryMode_def using all by (metis UNIV_I)
qed

end

text \<open>A mode is parsed back from its name; an unknown one becomes broadcasting.\<close>

lemma ParseDeliveryMode_String:
  "\<forall>m. ParseDeliveryMode (DeliveryMode_String m) = (if m = OtherMode then Broadcast else m)"
  by code_simp

section \<open>The broker\<close>

record Broker =
  broker_mode :: DeliveryMode
  registry :: BroadcastRegistry
  queue :: MemoryMessageQueue
  broker_heap :: heap

definition NewBroker :: "DeliveryMode \<Rightarrow> Broker go" where
  "NewBroker mode =
     bind_go (NewMemoryMessageQueue 10000) (\<lambda>q.
       Inr \<lparr>broker_mode = mode, registry = NewBroadcastRegistry, queue = q,
            broker_heap = Map.empty\<rparr>)"

text \<open>\<open>order\<close>: the order in which the registry's map is visited.\<close>

definition Broker_Close :: "string list \<Rightarrow> Broker \<Rightarrow> Broker go" where
  "Broker_Close order b =
     bind_go (Queue_Close (queue b)) (\<lambda>q'.
       bind_go (Registry_Close order (registry b, broker_heap b)) (\<lambda>(r', h').
         Inr (b\<lparr>queue := q', registry := r', broker_heap := h'\<rparr>)))"

definition roleProducer :: string where "roleProducer = ''PRODUCER''"
definition roleConsumer :: string where "roleConsumer = ''CONSUMER''"

text \<open>Trailing carriage returns and newlines are cut off.\<close>

fun trimLine :: "string \<Rightarrow> string" where
  "trimLine s =
     (if 0 < length s \<and> (last s = CHR 0x0D \<or> last s = CHR 0x0A) then trimLine (butlast s) else s)"

declare trimLine.simps [simp del]

section \<open>The producer side\<close>

text \<open>One message, by mode; a refused message is only logged. \<open>ord k ks\<close> is the order in which
  the \<open>k\<close>-th broadcast of this connection visits the keys \<open>ks\<close> of the registry's map.\<close>

type_synonym visit_order = "nat \<Rightarrow> string list \<Rightarrow> string list"

definition deliver :: "visit_order \<Rightarrow> nat \<Rightarrow> bytes \<Rightarrow> Broker \<Rightarrow> Broker go" where
  "deliver ord k body b =
     (case broker_mode b of
        Broadcast \<Rightarrow>
          bind_go (BroadcastMessage (ord k (map fst (consumers (registry b)))) body
                     (registry b, broker_heap b))
            (\<lambda>(_, r', h'). Inr (b\<lparr>registry := r', broker_heap := h'\<rparr>))
      | Queue \<Rightarrow> bind_go (Enqueue body (queue b)) (\<lambda>(_, q'). Inr (b\<lparr>queue := q'\<rparr>))
      | OtherMode \<Rightarrow> Inr b)"

text \<open>The loop ends with the read error, which is logged unless it is \<open>EOF\<close>. The buffer is
  overwritten by a frame that fits; for a larger one \<open>ReadFrame\<close> allocates and the loop keeps
  its own buffer.\<close>

function producer_loop ::
    "visit_order \<Rightarrow> nat \<Rightarrow> instream \<Rightarrow> bytes \<Rightarrow> Broker \<Rightarrow> (go_error \<times> Broker) go" where
  "producer_loop ord k r buf b =
     (case ReadFrame ReadFull r buf of
        ((_, Some err), _, _) \<Rightarrow> Inr (err, b)
      | ((body, None), arr, r') \<Rightarrow>
          bind_go (deliver ord k body b) (\<lambda>b'.
            producer_loop ord (Suc k) r' (if length body \<le> length buf then arr else buf) b'))"
  by pat_completeness auto
termination
proof (relation "measure (\<lambda>(ord, k, r, buf, b). length (avail r))", goal_cases)
  case (2 ord k r buf b res rest body err arr r' b')
  then have "ReadFrame ReadFull r buf = ((body, None), arr, r')" by simp
  from ReadFrame_consumes [OF this] show ?case by simp
qed simp

declare producer_loop.simps [simp del]

definition handleProducer :: "visit_order \<Rightarrow> instream \<Rightarrow> Broker \<Rightarrow> (go_error \<times> Broker) go" where
  "handleProducer ord r b = producer_loop ord 0 r (replicate (64 * 1024) 0) b"

section \<open>The consumer side\<close>

text \<open>Queue mode. The loop may not end as long as others enqueue, so it is a partial function:
  \<open>None\<close> is a loop that never returns.\<close>

partial_function (option) handleConsumerQueue ::
    "('q \<Rightarrow> (go_error + bytes) \<times> 'q) \<Rightarrow> 'q \<Rightarrow> outstream \<Rightarrow> ('q \<times> outstream) option" where
  "handleConsumerQueue deq q w =
     (case deq q of
        (Inl err, q') \<Rightarrow> Some (q', w)
      | (Inr msg, q') \<Rightarrow>
          (case WriteFrame msg w of
             (Some err, w') \<Rightarrow> Some (q', w')
           | (None, w') \<Rightarrow> handleConsumerQueue deq q' w'))"

text \<open>Broadcast mode, up to the loop: make the channel and register it. \<open>c\<close> is the new
  channel's reference and \<open>cid\<close> the generated id.\<close>

definition consumer_start ::
    "environment \<Rightarrow> string \<Rightarrow> nat \<Rightarrow> Broker \<Rightarrow> Broker go" where
  "consumer_start env cid c b =
     bind_go (make_chan (GetEnvInt env ''CONSUMER_CHANNEL_BUFFER_SIZE'' 10000)) (\<lambda>ch.
       Inr (b\<lparr>registry := snd (RegisterConsumer cid c (registry b)),
              broker_heap := (broker_heap b)(c \<mapsto> ch)\<rparr>))"

text \<open>\<open>for msg := range ch\<close>: until the channel is empty (the loop blocks there), closed and
  drained, or a write fails.\<close>

datatype range_end = RangeBlocked | RangeClosed | RangeWriteError go_error

function consumer_range :: "nat \<Rightarrow> heap \<Rightarrow> outstream \<Rightarrow> range_end \<times> heap \<times> outstream" where
  "consumer_range c h w =
     (case h c of
        None \<Rightarrow> (RangeBlocked, h, w)
      | Some ch \<Rightarrow>
          (case recv ch of
             (Received msg, ch') \<Rightarrow>
               (case WriteFrame msg w of
                  (Some e, w') \<Rightarrow> (RangeWriteError e, h(c \<mapsto> ch'), w')
                | (None, w') \<Rightarrow> consumer_range c (h(c \<mapsto> ch')) w')
           | (RecvClosed, ch') \<Rightarrow> (RangeClosed, h, w)
           | (WouldBlock, ch') \<Rightarrow> (RangeBlocked, h, w)))"
  by pat_completeness auto
termination
  by (relation "measure (\<lambda>(c, h, w). case h c of None \<Rightarrow> 0 | Some ch \<Rightarrow> length (chan_buf ch))")
     (auto simp: recv_def split: list.splits if_splits)

declare consumer_range.simps [simp del]

text \<open>A connection that has been handled: the handler has returned, or it waits in the range
  loop of the registered consumer.\<close>

datatype conn_status = Returned | Waiting string nat

definition consumer_resume ::
    "string \<Rightarrow> nat \<Rightarrow> Broker \<Rightarrow> outstream \<Rightarrow> (Broker \<times> outstream \<times> conn_status) go" where
  "consumer_resume cid c b w =
     (case consumer_range c (broker_heap b) w of
        (RangeBlocked, h', w') \<Rightarrow> Inr (b\<lparr>broker_heap := h'\<rparr>, w', Waiting cid c)
      | (_, h', w') \<Rightarrow>
          bind_go (UnregisterConsumer cid (registry b, h')) (\<lambda>(r'', h'').
            Inr (b\<lparr>registry := r'', broker_heap := h''\<rparr>, w', Returned)))"

definition handleConsumerBroadcast ::
    "environment \<Rightarrow> string \<Rightarrow> nat \<Rightarrow> outstream \<Rightarrow> Broker \<Rightarrow> (Broker \<times> outstream \<times> conn_status) go"
  where
  "handleConsumerBroadcast env cid c w b =
     bind_go (consumer_start env cid c b) (\<lambda>b'. consumer_resume cid c b' w)"

definition handleConsumer ::
    "environment \<Rightarrow> string \<Rightarrow> nat \<Rightarrow> outstream \<Rightarrow> Broker \<Rightarrow>
     (Broker \<times> outstream \<times> conn_status) go option"
  where
  "handleConsumer env cid c w b =
     (case broker_mode b of
        Broadcast \<Rightarrow> Some (handleConsumerBroadcast env cid c w b)
      | Queue \<Rightarrow>
          (case handleConsumerQueue Dequeue (queue b) w of
             None \<Rightarrow> None
           | Some (q', w') \<Rightarrow> Some (Inr (b\<lparr>queue := q'\<rparr>, w', Returned)))
      | OtherMode \<Rightarrow> Some (Inr (b, w, Returned)))"

section \<open>A connection\<close>

definition HandleConn ::
    "environment \<Rightarrow> string \<Rightarrow> nat \<Rightarrow> visit_order \<Rightarrow> instream \<Rightarrow> outstream \<Rightarrow> Broker \<Rightarrow>
     (Broker \<times> outstream \<times> conn_status) go option"
  where
  "HandleConn env cid c ord inp w b =
     (case ReadString inp of
        (Inl err, _) \<Rightarrow> Some (Inr (b, w, Returned))
      | (Inr line, r) \<Rightarrow>
          (let role = trimLine (string_of_bytes line) in
           if role = roleProducer
           then Some (bind_go (handleProducer ord r b) (\<lambda>(_, b'). Inr (b', w, Returned)))
           else if role = roleConsumer then handleConsumer env cid c w b
           else Some (Inr (b, w, Returned))))"

end
