(* ===== verification/Frames.thy ===== *)
theory Frames
  imports Protocol
begin

text \<open>
  All the frames of a stream: what a loop over \<open>ReadFrame\<close> reads, whatever buffers it uses, and the
  error that ends it. The loops of the broker and of the consumer are reduced to it.
\<close>

section \<open>The frames of a stream\<close>

function decode_frames :: "instream \<Rightarrow> bytes list \<times> go_error" where
  "decode_frames r =
     (case ReadFrame ReadFull r [] of
        ((_, Some err), _, _) \<Rightarrow> ([], err)
      | ((body, None), _, r') \<Rightarrow> (let (ms, e) = decode_frames r' in (body # ms, e)))"
  by pat_completeness auto
termination
proof (relation "measure (\<lambda>r. length (avail r))", goal_cases)
  case (2 r res rest body err arr r')
  then have "ReadFrame ReadFull r [] = ((body, None), arr, r')" by simp
  from ReadFrame_consumes [OF this] show ?case by simp
qed simp

declare decode_frames.simps [simp del]

lemma decode_frames_end: "decode_frames \<lparr>avail = [], fin = e\<rparr> = ([], e)"
  by (subst decode_frames.simps) (simp add: ReadFrame_header_short short_error_def)

lemma decode_frames_frames:
  "\<forall>m \<in> set ms. frame_ok m \<Longrightarrow>
   decode_frames \<lparr>avail = concat (map frame ms) @ rest, fin = e\<rparr> =
     (ms @ fst (decode_frames \<lparr>avail = rest, fin = e\<rparr>), snd (decode_frames \<lparr>avail = rest, fin = e\<rparr>))"
proof (induction ms)
  case Nil
  then show ?case by simp
next
  case (Cons m ms)
  then have "ReadFrame ReadFull \<lparr>avail = concat (map frame (m # ms)) @ rest, fin = e\<rparr> [] =
      ((m, None), body_array [] m, \<lparr>avail = concat (map frame ms) @ rest, fin = e\<rparr>)"
    using ReadFrame_frame [of m "concat (map frame ms) @ rest" e "[]"] by simp
  with Cons show ?case
    by (subst decode_frames.simps) simp
qed

lemma decode_frames_all:
  "\<forall>m \<in> set ms. frame_ok m \<Longrightarrow>
   decode_frames \<lparr>avail = concat (map frame ms), fin = e\<rparr> = (ms, e)"
  using decode_frames_frames [of ms "[]" e] by (simp add: decode_frames_end)

text \<open>One turn of such a loop.\<close>

lemma decode_frames_step:
  assumes "ReadFrame ReadFull r buf = ((body, None), arr, r')"
  shows "decode_frames r = (body # fst (decode_frames r'), snd (decode_frames r'))"
  using ReadFrame_buffer [OF assms, of "[]"] by (subst decode_frames.simps) (simp add: split_beta)

lemma decode_frames_stop:
  assumes "ReadFrame ReadFull r buf = ((body, Some err), arr, r')"
  shows "decode_frames r = ([], err)"
proof -
  from ReadFrame_error_buffer [OF assms, of "[]"] obtain body' arr' where
    "ReadFrame ReadFull r [] = ((body', Some err), arr', r')" by blast
  then show ?thesis by (subst decode_frames.simps) simp
qed

end
