(* ===== verification/BrokerProps.thy ===== *)
theory BrokerProps
  imports Broker Frames
begin

text \<open>
  What the handlers of \<open>Broker\<close> do to the broker and to the wire. The producer loop is reduced
  to delivering the frames of its input one by one, and these to the queue's and the registry's
  contract; the queue consumer is proved against the queue's contract.
\<close>

section \<open>Role lines\<close>

lemma trimLine_Nil: "trimLine [] = []"
  by (subst trimLine.simps) simp

lemma trimLine_snoc:
  "trimLine (s @ [c]) = (if c = CHR 0x0D \<or> c = CHR 0x0A then trimLine s else s @ [c])"
  by (subst trimLine.simps) simp

lemma trimLine_rev:
  "trimLine s = rev (dropWhile (\<lambda>c. c = CHR 0x0D \<or> c = CHR 0x0A) (rev s))"
  by (induction s rule: rev_induct) (simp_all add: trimLine_Nil trimLine_snoc)

lemma newline_char: "char_of_byte newline = CHR 0x0A"
proof -
  have "byte_of_char (CHR 0x0A) = newline"
    by (simp add: byte_of_char_def newline_def)
  then show ?thesis
    by (metis char_of_byte_of_char)
qed

definition role_line :: "string \<Rightarrow> bytes" where
  "role_line role = bytes_of_string role @ [newline]"

lemma trimLine_role_line:
  "role = [] \<or> (last role \<noteq> CHR 0x0D \<and> last role \<noteq> CHR 0x0A) \<Longrightarrow>
   trimLine (string_of_bytes (role_line role)) = role"
  by (cases role rule: rev_cases)
     (auto simp: role_line_def trimLine_rev string_of_bytes_def newline_char bytes_of_string_def comp_def)

lemma ReadString_role_line:
  assumes "CHR 0x0A \<notin> set role"
  shows "ReadString \<lparr>avail = role_line role @ rest, fin = e\<rparr> = (Inr (role_line role), \<lparr>avail = rest, fin = e\<rparr>)"
proof -
  have "newline \<notin> set (bytes_of_string role)"
  proof
    assume "newline \<in> set (bytes_of_string role)"
    then obtain c where "c \<in> set role" "byte_of_char c = newline"
      by (auto simp: bytes_of_string_def)
    then have "c = CHR 0x0A" by (metis char_of_byte_of_char newline_char)
    with \<open>c \<in> set role\<close> assms show False by simp
  qed
  from ReadString_line [OF this, of "\<lparr>avail = role_line role @ rest, fin = e\<rparr>" rest]
  show ?thesis by (simp add: role_line_def)
qed

section \<open>The producer loop\<close>

fun deliver_all :: "visit_order \<Rightarrow> nat \<Rightarrow> bytes list \<Rightarrow> Broker \<Rightarrow> Broker go" where
  "deliver_all ord k [] b = Inr b"
| "deliver_all ord k (m # ms) b = bind_go (deliver ord k m b) (deliver_all ord (Suc k) ms)"

lemma producer_loop_delivers:
  "producer_loop ord k r buf b =
     bind_go (deliver_all ord k (fst (decode_frames r)) b) (\<lambda>b'. Inr (snd (decode_frames r), b'))"
proof (induction ord k r buf b rule: producer_loop.induct)
  case (1 ord k r buf b)
  obtain body e arr r' where read: "ReadFrame ReadFull r buf = ((body, e), arr, r')"
    by (metis prod.exhaust)
  show ?case
  proof (cases e)
    case None
    with read have "decode_frames r = (body # fst (decode_frames r'), snd (decode_frames r'))"
      by (simp add: decode_frames_step)
    moreover have "producer_loop ord k r buf b = bind_go (deliver ord k body b) (\<lambda>b'.
        producer_loop ord (Suc k) r' (if length body \<le> length buf then arr else buf) b')"
      using read None by (simp add: producer_loop.simps [of ord k r buf b])
    moreover have "bind_go (deliver ord k body b) (\<lambda>b'.
        producer_loop ord (Suc k) r' (if length body \<le> length buf then arr else buf) b') =
      bind_go (deliver ord k body b) (\<lambda>b'.
        bind_go (deliver_all ord (Suc k) (fst (decode_frames r')) b')
          (\<lambda>b''. Inr (snd (decode_frames r'), b'')))"
      using "1.IH" [OF read [symmetric] refl None refl] by (intro bind_go_cong) simp_all
    ultimately show ?thesis
      by (simp add: bind_go_assoc)
  next
    case (Some err)
    with read have "decode_frames r = ([], err)" by (simp add: decode_frames_stop)
    with read Some show ?thesis
      by (simp add: producer_loop.simps [of ord k r buf b])
  qed
qed

lemma deliver_all_queue:
  "broker_mode b = Queue \<Longrightarrow>
   deliver_all ord k ms b =
     bind_go (enqueue_all Enqueue ms (queue b)) (\<lambda>(_, q'). Inr (b\<lparr>queue := q'\<rparr>))"
proof (induction ms arbitrary: k b)
  case Nil
  then show ?case by simp
next
  case (Cons m ms)
  have "deliver ord k m b = bind_go (Enqueue m (queue b)) (\<lambda>(_, q'). Inr (b\<lparr>queue := q'\<rparr>))"
    using Cons.prems by (simp add: deliver_def)
  with Cons show ?case
    by (cases "Enqueue m (queue b)") (auto simp: bind_go_assoc split_beta)
qed

text \<open>A visiting order of the registry's map is a permutation of its keys.\<close>

definition visits_all :: "visit_order \<Rightarrow> bool" where
  "visits_all ord \<longleftrightarrow> (\<forall>k ks. distinct ks \<longrightarrow> distinct (ord k ks) \<and> set (ord k ks) = set ks)"

fun with_orders :: "visit_order \<Rightarrow> nat \<Rightarrow> string list \<Rightarrow> bytes list \<Rightarrow> (string list \<times> bytes) list" where
  "with_orders ord k ks [] = []"
| "with_orders ord k ks (m # ms) = (ord k ks, m) # with_orders ord (Suc k) ks ms"

lemma map_snd_with_orders [simp]: "map snd (with_orders ord k ks ms) = ms"
  by (induction ms arbitrary: k) auto

lemma length_with_orders [simp]: "length (with_orders ord k ks ms) = length ms"
  by (induction ms arbitrary: k) auto

lemma with_orders_visit:
  "visits_all ord \<Longrightarrow> distinct ks \<Longrightarrow>
   \<forall>(order, m) \<in> set (with_orders ord k ks ms). distinct order \<and> set order = set ks"
  by (induction ms arbitrary: k) (auto simp: visits_all_def)

lemma BroadcastMessage_registry:
  "BroadcastMessage order m s = Inr (e, s') \<Longrightarrow> fst s' = fst s"
  by (auto simp: BroadcastMessage_def bind_go_eq_Inr)

lemma deliver_all_broadcast:
  "broker_mode b = Broadcast \<Longrightarrow>
   deliver_all ord k ms b =
     bind_go (broadcast_all BroadcastMessage
         (with_orders ord k (map fst (consumers (registry b))) ms) (registry b, broker_heap b))
       (\<lambda>(r', h'). Inr (b\<lparr>registry := r', broker_heap := h'\<rparr>))"
proof (induction ms arbitrary: k b)
  case Nil
  then show ?case by simp
next
  case (Cons m ms)
  let ?bc = "BroadcastMessage (ord k (map fst (consumers (registry b)))) m (registry b, broker_heap b)"
  show ?case
  proof (cases ?bc)
    case (Inl p)
    then show ?thesis using Cons.prems by (simp add: deliver_def)
  next
    case (Inr es)
    obtain e r' h' where es: "es = (e, r', h')" by (cases es) auto
    have "r' = registry b"
      using BroadcastMessage_registry [OF Inr [unfolded es]] by simp
    with Inr es Cons show ?thesis by (simp add: deliver_def split_beta)
  qed
qed

section \<open>The queue consumer\<close>

text \<open>The contract of the queue at the broker's message type, and what the consumer loop does
  with any queue that keeps it.\<close>

locale byte_queue = message_queue enq deq full size_of close contents capacity closed inv
  for enq :: "bytes \<Rightarrow> 'q \<Rightarrow> (go_error option \<times> 'q) go"
    and deq and full and size_of and close and contents and capacity and closed and inv
begin

text \<open>The loop ends: at an empty queue or at the first write that fails. Every message it takes
  leaves the queue for good; at most the last one taken is not written in full. \<open>n\<close> messages
  have been taken, and \<open>k\<close> bytes of the last one's frame written if its write failed.\<close>

definition consumer_leaves ::
    "'q \<Rightarrow> outstream \<Rightarrow> 'q \<Rightarrow> outstream \<Rightarrow> nat \<Rightarrow> nat \<Rightarrow> bool" where
  "consumer_leaves q w q' w' n k \<longleftrightarrow>
     inv q' \<and> \<not> closed q' \<and> capacity q' = capacity q \<and> n \<le> length (contents q) \<and>
     contents q' = drop n (contents q) \<and>
     ((n = length (contents q) \<and> written w' = written w @ concat (map frame (contents q))) \<or>
      (0 < n \<and> wr_room w \<noteq> None \<and>
       written w' = written w @ concat (map frame (take (n - 1) (contents q)))
         @ take k (frame (contents q ! (n - 1)))))"

lemma handleConsumerQueue_ends:
  assumes "inv q" and "\<not> closed q"
  shows "\<exists>q' w' n k. handleConsumerQueue deq q w = Some (q', w') \<and> consumer_leaves q w q' w' n k"
  using assms
proof (induction "contents q" arbitrary: q w)
  case Nil
  have "handleConsumerQueue deq q w = Some (q, w)"
    using Nil by (subst handleConsumerQueue.simps) (simp add: deq_empty)
  moreover have "consumer_leaves q w q w 0 0"
    using Nil by (simp add: consumer_leaves_def)
  ultimately show ?case by blast
next
  case (Cons m ms)
  note q = Cons.hyps(2) [symmetric]
  from deq_some [OF Cons.prems q] obtain q1 where q1: "deq q = (Inr m, q1)"
    "inv q1" "\<not> closed q1" "contents q1 = ms" "capacity q1 = capacity q"
    by blast
  obtain e w1 where w1: "WriteFrame m w = (e, w1)" by (cases "WriteFrame m w")
  show ?case
  proof (cases e)
    case (Some x)
    from WriteFrame_prefix [OF w1] obtain k where k: "written w1 = written w @ take k (frame m)" ..
    have limited: "wr_room w \<noteq> None"
      using w1 Some WriteFrame_unlimited [of w m] by (cases "wr_room w") auto
    have "handleConsumerQueue deq q w = Some (q1, w1)"
      using q1(1) w1 Some by (subst handleConsumerQueue.simps) simp
    moreover have "consumer_leaves q w q1 w1 1 k"
      using q1 q k limited by (simp add: consumer_leaves_def)
    ultimately show ?thesis by blast
  next
    case None
    have wr: "written w1 = written w @ frame m"
      using WriteFrame_ok w1 None by blast
    have step: "handleConsumerQueue deq q w = handleConsumerQueue deq q1 w1"
      using q1(1) w1 None by (subst handleConsumerQueue.simps) simp
    from Cons.hyps(1) [OF q1(4) [symmetric] q1(2,3), of w1] obtain q' w' n k where
      IH: "handleConsumerQueue deq q1 w1 = Some (q', w')" "consumer_leaves q1 w1 q' w' n k"
      by blast
    have "consumer_leaves q w q' w' (Suc n) k"
      using IH(2) wr q1 q WriteFrame_none_room [OF w1]
      by (cases n) (auto simp: consumer_leaves_def)
    with IH(1) step show ?thesis by auto
  qed
qed

lemma handleConsumerQueue_drains:
  assumes "inv q" and "\<not> closed q" and "wr_room w = None"
  shows "\<exists>q' w'. handleConsumerQueue deq q w = Some (q', w') \<and> inv q' \<and> \<not> closed q' \<and>
    capacity q' = capacity q \<and> contents q' = [] \<and> wr_room w' = None \<and>
    written w' = written w @ concat (map frame (contents q))"
  using assms
proof (induction "contents q" arbitrary: q w)
  case Nil
  then show ?case
    by (subst handleConsumerQueue.simps) (auto simp: deq_empty)
next
  case (Cons m ms)
  from deq_some [OF Cons.prems(1,2) Cons.hyps(2) [symmetric]] obtain q1 where q1: "deq q = (Inr m, q1)"
    "inv q1" "\<not> closed q1" "contents q1 = ms" "capacity q1 = capacity q"
    by blast
  let ?w1 = "w\<lparr>written := written w @ frame m\<rparr>"
  have "handleConsumerQueue deq q w = handleConsumerQueue deq q1 ?w1"
    using q1(1) Cons.prems(3) by (subst handleConsumerQueue.simps) (simp add: WriteFrame_unlimited)
  with Cons.hyps(1) [OF q1(4) [symmetric] q1(2,3), of ?w1] Cons.prems(3) q1 Cons.hyps(2) [symmetric]
  show ?case by auto
qed

end

interpretation mqb: byte_queue Enqueue Dequeue IsFull Len Queue_Close
  mq_contents mq_capacity mq_closed mq_inv
  by unfold_locales

section \<open>Whole connections\<close>

definition queue_ready :: "Broker \<Rightarrow> bool" where
  "queue_ready b \<longleftrightarrow> broker_mode b = Queue \<and> mq_inv (queue b) \<and> \<not> mq_closed (queue b)"

definition broadcast_ready :: "Broker \<Rightarrow> bool" where
  "broadcast_ready b \<longleftrightarrow> broker_mode b = Broadcast \<and> reg_inv (registry b, broker_heap b)"

abbreviation broker_members :: "Broker \<Rightarrow> string set" where
  "broker_members b \<equiv> reg_members (registry b, broker_heap b)"

abbreviation broker_inbox :: "Broker \<Rightarrow> string \<Rightarrow> bytes list" where
  "broker_inbox b \<equiv> reg_inbox (registry b, broker_heap b)"

abbreviation broker_room :: "Broker \<Rightarrow> string \<Rightarrow> nat" where
  "broker_room b \<equiv> reg_room (registry b, broker_heap b)"

lemma NewBroker_state:
  "\<exists>b. NewBroker mode = Inr b \<and> broker_mode b = mode \<and> mq_inv (queue b) \<and> \<not> mq_closed (queue b) \<and>
     mq_contents (queue b) = [] \<and> mq_capacity (queue b) = 10000 \<and>
     registry b = NewBroadcastRegistry \<and> broker_heap b = Map.empty"
  using NewMemoryMessageQueue_inv [of 10000] by (auto simp: NewBroker_def)

text \<open>A connection whose first line names a role, possibly ended by \<open>\r\n\<close>.\<close>

lemma HandleConn_producer:
  "HandleConn env cid c ord \<lparr>avail = role_line ''PRODUCER'' @ rest, fin = e\<rparr> w b =
     Some (bind_go (deliver_all ord 0 (fst (decode_frames \<lparr>avail = rest, fin = e\<rparr>)) b)
       (\<lambda>b'. Inr (b', w, Returned)))"
  by (simp add: HandleConn_def ReadString_role_line trimLine_role_line roleProducer_def
      handleProducer_def producer_loop_delivers bind_go_assoc)

lemma HandleConn_consumer:
  "HandleConn env cid c ord \<lparr>avail = role_line ''CONSUMER'' @ rest, fin = e\<rparr> w b =
     handleConsumer env cid c w b"
  by (simp add: HandleConn_def ReadString_role_line trimLine_role_line roleProducer_def roleConsumer_def)

lemma producer_queue_state:
  assumes "queue_ready b" and "\<forall>m \<in> set ms. frame_ok m"
  shows "\<exists>b'. HandleConn env cid c ord
      \<lparr>avail = role_line ''PRODUCER'' @ concat (map frame ms), fin = e\<rparr> w b =
      Some (Inr (b', w, Returned)) \<and> queue_ready b' \<and>
    mq_contents (queue b') = take (mq_capacity (queue b)) (mq_contents (queue b) @ ms) \<and>
    mq_capacity (queue b') = mq_capacity (queue b) \<and>
    registry b' = registry b \<and> broker_heap b' = broker_heap b"
proof -
  have q: "broker_mode b = Queue" "mq_inv (queue b)" "\<not> mq_closed (queue b)"
    using assms(1) by (auto simp: queue_ready_def)
  from mq.enqueue_all_contents [OF q(2,3), of ms] obtain rs q' where q':
    "enqueue_all Enqueue ms (queue b) = Inr (rs, q')" "mq_inv q'" "\<not> mq_closed q'"
    "mq_contents q' = take (mq_capacity (queue b)) (mq_contents (queue b) @ ms)"
    "mq_capacity q' = mq_capacity (queue b)"
    by blast
  have "HandleConn env cid c ord
      \<lparr>avail = role_line ''PRODUCER'' @ concat (map frame ms), fin = e\<rparr> w b =
      Some (Inr (b\<lparr>queue := q'\<rparr>, w, Returned))"
    unfolding HandleConn_producer decode_frames_all [OF assms(2)]
    by (simp add: deliver_all_queue [OF q(1)] q'(1))
  with q q' show ?thesis
    by (intro exI [of _ "b\<lparr>queue := q'\<rparr>"]) (simp add: queue_ready_def)
qed

lemma consumer_queue_state:
  assumes "queue_ready b" and "wr_room w = None"
  shows "\<exists>b' w'. HandleConn env cid c ord \<lparr>avail = role_line ''CONSUMER'' @ rest, fin = e\<rparr> w b =
      Some (Inr (b', w', Returned)) \<and> queue_ready b' \<and> mq_contents (queue b') = [] \<and>
    mq_capacity (queue b') = mq_capacity (queue b) \<and>
    written w' = written w @ concat (map frame (mq_contents (queue b)))"
proof -
  have q: "broker_mode b = Queue" "mq_inv (queue b)" "\<not> mq_closed (queue b)"
    using assms(1) by (auto simp: queue_ready_def)
  from mqb.handleConsumerQueue_drains [OF q(2,3) assms(2)] obtain q' w' where q':
    "handleConsumerQueue Dequeue (queue b) w = Some (q', w')" "mq_inv q'" "\<not> mq_closed q'"
    "mq_capacity q' = mq_capacity (queue b)" "mq_contents q' = []"
    "written w' = written w @ concat (map frame (mq_contents (queue b)))"
    by blast
  with q show ?thesis
    unfolding HandleConn_consumer
    by (intro exI [of _ "b\<lparr>queue := q'\<rparr>"] exI [of _ w'])
       (simp add: queue_ready_def handleConsumer_def)
qed

section \<open>Consumers in broadcast mode\<close>

lemma consumer_start_state:
  assumes "consumer_start env cid c b = Inr b'"
    and "cid \<notin> fst ` set (consumers (registry b))"
  shows "b' = b\<lparr>registry := \<lparr>consumers = consumers (registry b) @ [(cid, c)]\<rparr>,
    broker_heap := (broker_heap b)(c \<mapsto> \<lparr>chan_buf = [],
      chan_cap = nat (GetEnvInt env ''CONSUMER_CHANNEL_BUFFER_SIZE'' 10000), chan_closed = False\<rparr>)\<rparr>"
proof -
  have "(registry b)\<lparr>consumers := cs\<rparr> = \<lparr>consumers = cs\<rparr>" for cs
    by (cases "registry b") simp
  with assms show ?thesis
    unfolding consumer_start_def RegisterConsumer_def make_chan_def
    by (simp add: update_fresh split: if_splits)
qed

lemma consumer_start_inv:
  assumes "reg_inv (registry b, broker_heap b)" and "consumer_start env cid c b = Inr b'"
    and "cid \<notin> fst ` set (consumers (registry b))" and "broker_heap b c = None"
    and "0 < GetEnvInt env ''CONSUMER_CHANNEL_BUFFER_SIZE'' 10000"
  shows "reg_inv (registry b', broker_heap b')"
proof -
  let ?r = "registry b" and ?h = "broker_heap b"
  let ?ch = "\<lparr>chan_buf = [], chan_cap = nat (GetEnvInt env ''CONSUMER_CHANNEL_BUFFER_SIZE'' 10000),
    chan_closed = False\<rparr> :: bytes chan"
  have c: "c \<notin> snd ` set (consumers ?r)"
    using assms(1,4) by (auto simp: reg_inv_def open_ref_def)
  have "open_ref (?h(c \<mapsto> ?ch)) d" if "d \<in> insert c (snd ` set (consumers ?r))" for d
    using that assms(1,5) by (cases "d = c") (auto simp: reg_inv_def open_ref_def chan_wf_def)
  then have "reg_inv (\<lparr>consumers = consumers ?r @ [(cid, c)]\<rparr>, ?h(c \<mapsto> ?ch))"
    using assms(1,3) c by (simp add: reg_inv_def)
  moreover have "b' = b\<lparr>registry := \<lparr>consumers = consumers ?r @ [(cid, c)]\<rparr>,
      broker_heap := ?h(c \<mapsto> ?ch)\<rparr>"
    by (rule consumer_start_state [OF assms(2,3)])
  ultimately show ?thesis by simp
qed

text \<open>A new consumer joins with an empty channel of the configured size; nobody else notices.\<close>

lemma consumer_start_joins:
  assumes inv: "reg_inv (registry b, broker_heap b)" and start: "consumer_start env cid c b = Inr b'"
    and fresh: "cid \<notin> reg_members (registry b, broker_heap b)" and new: "broker_heap b c = None"
    and n: "n = GetEnvInt env ''CONSUMER_CHANNEL_BUFFER_SIZE'' 10000" "0 < n"
  shows "broadcast_ready b' = (broker_mode b = Broadcast) \<and> broker_members b' = insert cid (broker_members b) \<and>
    broker_inbox b' cid = [] \<and> broker_room b' cid = nat n \<and>
    (\<forall>i \<in> broker_members b. broker_inbox b' i = broker_inbox b i \<and> broker_room b' i = broker_room b i)"
proof -
  have notin: "cid \<notin> fst ` set (consumers (registry b))"
    using fresh by (simp add: reg_members_def)
  note b' = consumer_start_state [OF start notin]
  have "reg_inv (registry b', broker_heap b')"
    using consumer_start_inv [OF inv start notin new] n by simp
  moreover have "reg_members (registry b', broker_heap b') = insert cid (reg_members (registry b, broker_heap b))"
    by (simp add: b' reg_members_def)
  moreover have "reg_chan (registry b', broker_heap b') cid =
      Some \<lparr>chan_buf = [], chan_cap = nat n, chan_closed = False\<rparr>"
    using notin n(1) by (simp add: b' reg_chan_def map_add_def map_of_eq_None_iff [THEN iffD2])
  moreover have "reg_chan (registry b', broker_heap b') i = reg_chan (registry b, broker_heap b) i"
    if "i \<in> reg_members (registry b, broker_heap b)" for i
  proof -
    from that obtain d where d: "map_of (consumers (registry b)) i = Some d"
      by (auto simp: reg_members_lookup)
    with reg_inv_lookup(1) [OF inv, of i d] new have "d \<noteq> c" by (auto simp: open_ref_def)
    moreover have "i \<noteq> cid" using that fresh by auto
    ultimately show ?thesis using d by (simp add: b' reg_chan_def map_add_def)
  qed
  moreover have "broker_mode b' = broker_mode b" by (simp add: b')
  ultimately show ?thesis
    by (simp add: broadcast_ready_def reg_inbox_def reg_room_def)
qed

text \<open>With a connection that takes everything, the loop writes what is in the channel and then
  waits, or ends if the channel is closed.\<close>

lemma consumer_range_drains:
  "h c = Some ch \<Longrightarrow> wr_room w = None \<Longrightarrow>
   consumer_range c h w =
     (if chan_closed ch then RangeClosed else RangeBlocked, h(c \<mapsto> ch\<lparr>chan_buf := []\<rparr>),
      w\<lparr>written := written w @ concat (map frame (chan_buf ch))\<rparr>)"
proof (induction "chan_buf ch" arbitrary: h ch w)
  case Nil
  then have "ch\<lparr>chan_buf := []\<rparr> = ch" by simp
  with Nil show ?case
    by (subst consumer_range.simps) (auto simp: recv_def fun_upd_idem)
next
  case (Cons m ms)
  let ?ch = "ch\<lparr>chan_buf := ms\<rparr>" and ?w = "w\<lparr>written := written w @ frame m\<rparr>"
  have "recv ch = (Received m, ?ch)"
    using Cons.hyps(2) [symmetric] by (simp add: recv_def)
  then have "consumer_range c h w = consumer_range c (h(c \<mapsto> ?ch)) ?w"
    using Cons.prems by (subst consumer_range.simps) (simp add: WriteFrame_unlimited)
  with Cons.hyps(1) [of ?ch "h(c \<mapsto> ?ch)" ?w] Cons.prems Cons.hyps(2) [symmetric] show ?case
    by simp
qed

lemma broadcast_all_registry:
  "broadcast_all BroadcastMessage xs (r, h) = Inr (r', h') \<Longrightarrow> r' = r"
  by (induction xs arbitrary: h) (auto simp: bind_go_eq_Inr BroadcastMessage_def)

lemma producer_broadcast_state:
  assumes "broadcast_ready b" and "visits_all ord" and "\<forall>m \<in> set ms. frame_ok m"
  shows "\<exists>b'. HandleConn env cid c ord
      \<lparr>avail = role_line ''PRODUCER'' @ concat (map frame ms), fin = e\<rparr> w b =
      Some (Inr (b', w, Returned)) \<and> broadcast_ready b' \<and>
    registry b' = registry b \<and> broker_members b' = broker_members b \<and> queue b' = queue b \<and>
    (\<forall>i \<in> broker_members b. \<exists>ys. broker_inbox b' i = broker_inbox b i @ ys \<and> subseq ys ms) \<and>
    ((\<forall>i \<in> broker_members b. length ms \<le> broker_room b i) \<longrightarrow>
       (\<forall>i \<in> broker_members b. broker_inbox b' i = broker_inbox b i @ ms))"
proof -
  let ?s = "(registry b, broker_heap b)"
  let ?ks = "map fst (consumers (registry b))"
  have b: "broker_mode b = Broadcast" "reg_inv ?s"
    using assms(1) by (auto simp: broadcast_ready_def)
  then have "distinct ?ks" and mem: "set ?ks = reg_members ?s"
    by (auto simp: reg_inv_def reg_members_def)
  from with_orders_visit [OF assms(2) this(1), of 0 ms]
  have visit: "\<forall>(order, m) \<in> set (with_orders ord 0 ?ks ms). distinct order \<and> set order = reg_members ?s"
    unfolding mem .
  from reg.broadcast_all_subseq [OF b(2) visit] obtain r' h' where s':
    "broadcast_all BroadcastMessage (with_orders ord 0 ?ks ms) ?s = Inr (r', h')"
    "reg_inv (r', h')" "reg_members (r', h') = reg_members ?s"
    "\<forall>i \<in> reg_members ?s. \<exists>ys. reg_inbox (r', h') i = reg_inbox ?s i @ ys \<and> subseq ys ms"
    by auto
  have all: "(\<forall>i \<in> reg_members ?s. length ms \<le> reg_room ?s i) \<longrightarrow>
       (\<forall>i \<in> reg_members ?s. reg_inbox (r', h') i = reg_inbox ?s i @ ms)"
    using reg.broadcast_all_room [OF b(2) visit] s'(1) by auto
  have "HandleConn env cid c ord
      \<lparr>avail = role_line ''PRODUCER'' @ concat (map frame ms), fin = e\<rparr> w b =
      Some (Inr (b\<lparr>registry := r', broker_heap := h'\<rparr>, w, Returned))"
    unfolding HandleConn_producer decode_frames_all [OF assms(3)]
    by (simp add: deliver_all_broadcast [OF b(1)] s'(1))
  with b s' all broadcast_all_registry [OF s'(1)] show ?thesis
    by (intro exI [of _ "b\<lparr>registry := r', broker_heap := h'\<rparr>"]) (simp add: broadcast_ready_def)
qed

text \<open>A producer and then a consumer at a new broker in queue mode.\<close>

lemma queue_mode_written:
  assumes "\<forall>m \<in> set ms. frame_ok m" and "wr_room w2 = None"
  shows "\<exists>b b1 b2 w'. NewBroker Queue = Inr b \<and>
    HandleConn env cid1 c1 ord1 \<lparr>avail = role_line ''PRODUCER'' @ concat (map frame ms), fin = e\<rparr> w1 b =
      Some (Inr (b1, w1, Returned)) \<and>
    HandleConn env cid2 c2 ord2 \<lparr>avail = role_line ''CONSUMER'', fin = e'\<rparr> w2 b1 =
      Some (Inr (b2, w', Returned)) \<and>
    written w' = written w2 @ concat (map frame (take 10000 ms)) \<and> mq_contents (queue b2) = []"
proof -
  from NewBroker_state [of Queue] obtain b where b: "NewBroker Queue = Inr b" "queue_ready b"
    "mq_contents (queue b) = []" "mq_capacity (queue b) = 10000"
    by (auto simp: queue_ready_def)
  from producer_queue_state [OF b(2) assms(1), of env cid1 c1 ord1 e w1] b(3,4) obtain b1 where b1:
    "HandleConn env cid1 c1 ord1 \<lparr>avail = role_line ''PRODUCER'' @ concat (map frame ms), fin = e\<rparr> w1 b =
      Some (Inr (b1, w1, Returned))" "queue_ready b1" "mq_contents (queue b1) = take 10000 ms"
    by auto
  from consumer_queue_state [OF b1(2) assms(2), of env cid2 c2 ord2 "[]" e'] b1(3)
  obtain b2 w' where b2: "HandleConn env cid2 c2 ord2 \<lparr>avail = role_line ''CONSUMER'', fin = e'\<rparr> w2 b1 =
      Some (Inr (b2, w', Returned))" "mq_contents (queue b2) = []"
    "written w' = written w2 @ concat (map frame (take 10000 ms))"
    by auto
  with b b1 show ?thesis
    by (intro exI [of _ b] exI [of _ b1] exI [of _ b2] exI [of _ w']) simp
qed

section \<open>Properties of connections\<close>

text \<open>A producer connection in queue mode appends its messages to the queue in the order sent,
  drops exactly those that no longer fit, writes nothing back and touches nothing else; its end,
  orderly or not, does not matter.\<close>

theorem producer_connection_enqueues:
  assumes "queue_ready b" and "\<forall>m \<in> set ms. frame_ok m"
  shows "\<exists>b'. HandleConn env cid c ord
      \<lparr>avail = role_line ''PRODUCER'' @ concat (map frame ms), fin = e\<rparr> w b =
      Some (Inr (b', w, Returned)) \<and> queue_ready b' \<and>
    mq_contents (queue b') = take (mq_capacity (queue b)) (mq_contents (queue b) @ ms) \<and>
    mq_capacity (queue b') = mq_capacity (queue b) \<and>
    registry b' = registry b \<and> broker_heap b' = broker_heap b"
  using assms by (rule producer_queue_state)

definition small_broker :: "DeliveryMode \<Rightarrow> bytes list \<Rightarrow> Broker" where
  "small_broker mode ms =
     \<lparr>broker_mode = mode, registry = fst (two_consumers [[9]] 3 3),
      queue = \<lparr>mq_queue = Some \<lparr>chan_buf = ms, chan_cap = 3, chan_closed = False\<rparr>, mq_size = 3\<rparr>,
      broker_heap = snd (two_consumers [[9]] 3 3)\<rparr>"

lemma small_broker_mq: "length ms \<le> 3 \<Longrightarrow> mq_inv (queue (small_broker mode ms))"
  by (simp add: small_broker_def mq_defs chan_wf_def)

lemma small_broker_heap: "broker_heap (small_broker mode ms) 5 = None"
  by (simp add: small_broker_def two_consumers_def)

lemma small_broker_ready:
  "length ms \<le> 3 \<Longrightarrow> queue_ready (small_broker Queue ms)"
  "mq_contents (queue (small_broker mode ms)) = ms" "mq_capacity (queue (small_broker mode ms)) = 3"
  "broadcast_ready (small_broker Broadcast ms)"
  "broker_members (small_broker mode ms) = {''a'', ''b''}"
  "broker_inbox (small_broker mode ms) ''a'' = [[9]]" "broker_inbox (small_broker mode ms) ''b'' = []"
  "broker_room (small_broker mode ms) ''a'' = 2" "broker_room (small_broker mode ms) ''b'' = 3"
  by (simp_all add: small_broker_def queue_ready_def broadcast_ready_def mq_defs chan_wf_def
      two_consumers_simps)

theorem producer_connection_enqueues_witness:
  "\<exists>b'. HandleConn (\<lambda>_. []) ''u'' 5 (\<lambda>_ ks. ks)
      \<lparr>avail = role_line ''PRODUCER'' @ concat (map frame [[1], [2], [3]]), fin = EOF\<rparr>
      \<lparr>written = [], wr_room = None, wr_err = EOF\<rparr> (small_broker Queue [[7]]) =
      Some (Inr (b', \<lparr>written = [], wr_room = None, wr_err = EOF\<rparr>, Returned)) \<and>
    mq_contents (queue b') = [[7], [1], [2]]"
  using producer_connection_enqueues [of "small_broker Queue [[7]]" "[[1], [2], [3]]"
      "\<lambda>_. []" "''u''" 5 "\<lambda>_ ks. ks" EOF "\<lparr>written = [], wr_room = None, wr_err = EOF\<rparr>"]
  by (auto simp: small_broker_ready frame_ok_def)

text \<open>C15: End to end through a new broker in queue mode, for messages within the frame limit of 1 MiB:
  what a producer connection sends, a later
  consumer connection receives as frames that decode to the same messages in the same order (the
  first 10000 of them, the size of the queue), and the queue is empty afterwards.\<close>

theorem queue_mode_end_to_end:
  assumes "\<forall>m \<in> set ms. frame_ok m" and "wr_room w2 = None" and "written w2 = []"
  shows "\<exists>b b1 b2 w'. NewBroker Queue = Inr b \<and>
    HandleConn env cid1 c1 ord1 \<lparr>avail = role_line ''PRODUCER'' @ concat (map frame ms), fin = e\<rparr> w1 b =
      Some (Inr (b1, w1, Returned)) \<and>
    HandleConn env cid2 c2 ord2 \<lparr>avail = role_line ''CONSUMER'', fin = e'\<rparr> w2 b1 =
      Some (Inr (b2, w', Returned)) \<and>
    decode_frames \<lparr>avail = written w', fin = EOF\<rparr> = (take 10000 ms, EOF) \<and>
    mq_contents (queue b2) = []"
proof -
  have "\<forall>m \<in> set (take 10000 ms). frame_ok m"
    using assms(1) by (auto dest: in_set_takeD)
  from decode_frames_all [OF this, of EOF] queue_mode_written [OF assms(1,2), of env cid1 c1 ord1 e w1 cid2 c2 ord2 e']
    assms(3) show ?thesis by fastforce
qed

theorem queue_mode_end_to_end_witness:
  "\<exists>b b1 b2 w'. NewBroker Queue = Inr b \<and>
    HandleConn (\<lambda>_. []) ''u'' 0 (\<lambda>_ ks. ks)
      \<lparr>avail = role_line ''PRODUCER'' @ concat (map frame [[1, 2], []]), fin = EOF\<rparr>
      \<lparr>written = [], wr_room = None, wr_err = EOF\<rparr> b =
      Some (Inr (b1, \<lparr>written = [], wr_room = None, wr_err = EOF\<rparr>, Returned)) \<and>
    HandleConn (\<lambda>_. []) ''v'' 1 (\<lambda>_ ks. ks) \<lparr>avail = role_line ''CONSUMER'', fin = EOF\<rparr>
      \<lparr>written = [], wr_room = None, wr_err = EOF\<rparr> b1 = Some (Inr (b2, w', Returned)) \<and>
    decode_frames \<lparr>avail = written w', fin = EOF\<rparr> = ([[1, 2], []], EOF)"
  using queue_mode_end_to_end [of "[[1, 2], []]" "\<lparr>written = [], wr_room = None, wr_err = EOF\<rparr>"
      "\<lambda>_. []" "''u''" 0 "\<lambda>_ ks. ks" EOF "\<lparr>written = [], wr_room = None, wr_err = EOF\<rparr>"
      "''v''" 1 "\<lambda>_ ks. ks" EOF]
  by (auto simp: frame_ok_def)

text \<open>The queue-mode consumer handler always returns, and delivery is at most once: it takes
  messages from the front until the queue is empty or a write fails. Everything it took is on the
  wire in order, but for the last message when its write failed: that one is gone from the queue
  and only a prefix of its frame was written.\<close>

theorem queue_consumer_at_most_once:
  assumes "queue_ready b"
  shows "\<exists>b' w' n k. handleConsumer env cid c w b = Some (Inr (b', w', Returned)) \<and>
    n \<le> length (mq_contents (queue b)) \<and> mq_contents (queue b') = drop n (mq_contents (queue b)) \<and>
    ((n = length (mq_contents (queue b)) \<and>
      written w' = written w @ concat (map frame (mq_contents (queue b)))) \<or>
     (0 < n \<and> wr_room w \<noteq> None \<and>
      written w' = written w @ concat (map frame (take (n - 1) (mq_contents (queue b))))
        @ take k (frame (mq_contents (queue b) ! (n - 1)))))"
proof -
  have q: "broker_mode b = Queue" "mq_inv (queue b)" "\<not> mq_closed (queue b)"
    using assms by (auto simp: queue_ready_def)
  from mqb.handleConsumerQueue_ends [OF q(2,3), of w] obtain q' w' n k where
    "handleConsumerQueue Dequeue (queue b) w = Some (q', w')"
    and "mqb.consumer_leaves (queue b) w q' w' n k"
    by blast
  with q(1) have "handleConsumer env cid c w b = Some (Inr (b\<lparr>queue := q'\<rparr>, w', Returned))"
    and "mqb.consumer_leaves (queue b) (w :: outstream) (queue (b\<lparr>queue := q'\<rparr>)) w' n k"
    by (simp_all add: handleConsumer_def)
  then show ?thesis
    unfolding mqb.consumer_leaves_def by blast
qed

theorem queue_consumer_at_most_once_witness:
  "\<exists>b' w' n k. handleConsumer (\<lambda>_. []) ''u'' 0 \<lparr>written = [], wr_room = Some 3, wr_err = EOF\<rparr>
      (small_broker Queue [[7]]) = Some (Inr (b', w', Returned)) \<and>
    n \<le> length [[7 :: byte]] \<and> mq_contents (queue b') = drop n [[7]]"
  using queue_consumer_at_most_once [of "small_broker Queue [[7]]" "\<lambda>_. []" "''u''" 0
      "\<lparr>written = [], wr_room = Some 3, wr_err = EOF\<rparr>"]
  unfolding small_broker_ready by (auto simp: small_broker_ready)

text \<open>A consumer that connects in queue mode while the queue is empty is not kept waiting: its
  handler returns at once, nothing has been written and the connection is closed.\<close>

theorem queue_consumer_dropped_when_empty:
  assumes "queue_ready b" and "mq_contents (queue b) = []"
  shows "HandleConn env cid c ord \<lparr>avail = role_line ''CONSUMER'' @ rest, fin = e\<rparr> w b =
    Some (Inr (b, w, Returned))"
proof -
  have "Dequeue (queue b) = (Inl (OtherError ''queue is empty''), queue b)"
    using assms mq.deq_empty by (simp add: queue_ready_def)
  then have "handleConsumerQueue Dequeue (queue b) w = Some (queue b, w)"
    by (subst handleConsumerQueue.simps) simp
  with assms(1) show ?thesis
    by (simp add: HandleConn_consumer handleConsumer_def queue_ready_def)
qed

theorem queue_consumer_dropped_when_empty_witness:
  "HandleConn (\<lambda>_. []) ''u'' 0 (\<lambda>_ ks. ks) \<lparr>avail = role_line ''CONSUMER'' @ [], fin = EOF\<rparr>
     \<lparr>written = [], wr_room = None, wr_err = EOF\<rparr> (small_broker Queue []) =
   Some (Inr (small_broker Queue [], \<lparr>written = [], wr_room = None, wr_err = EOF\<rparr>, Returned))"
  by (rule queue_consumer_dropped_when_empty) (simp_all add: small_broker_ready)

text \<open>C25: A producer connection in broadcast mode, its handler running alone on a consistent broker and its
  messages within the frame limit, never panics and changes neither the registrations nor the queue. Every registered consumer gets a subsequence of the
  messages sent, in order and behind what was waiting for it, and all of them when every consumer
  has room for all of them, whatever orders Go visits the registry in.\<close>

theorem producer_connection_broadcasts:
  assumes "broadcast_ready b" and "visits_all ord" and "\<forall>m \<in> set ms. frame_ok m"
  shows "\<exists>b'. HandleConn env cid c ord
      \<lparr>avail = role_line ''PRODUCER'' @ concat (map frame ms), fin = e\<rparr> w b =
      Some (Inr (b', w, Returned)) \<and> broadcast_ready b' \<and>
    registry b' = registry b \<and> broker_members b' = broker_members b \<and> queue b' = queue b \<and>
    (\<forall>i \<in> broker_members b. \<exists>ys. broker_inbox b' i = broker_inbox b i @ ys \<and> subseq ys ms) \<and>
    ((\<forall>i \<in> broker_members b. length ms \<le> broker_room b i) \<longrightarrow>
       (\<forall>i \<in> broker_members b. broker_inbox b' i = broker_inbox b i @ ms))"
  using assms by (rule producer_broadcast_state)

theorem producer_connection_broadcasts_witness:
  "\<exists>b'. HandleConn (\<lambda>_. []) ''u'' 5 (\<lambda>_ ks. rev ks)
      \<lparr>avail = role_line ''PRODUCER'' @ concat (map frame [[1], [2]]), fin = EOF\<rparr>
      \<lparr>written = [], wr_room = None, wr_err = EOF\<rparr> (small_broker Broadcast []) =
      Some (Inr (b', \<lparr>written = [], wr_room = None, wr_err = EOF\<rparr>, Returned)) \<and>
    broker_inbox b' ''a'' = [[9], [1], [2]] \<and> broker_inbox b' ''b'' = [[1], [2]]"
proof -
  have "visits_all (\<lambda>_ ks. rev ks)" by (simp add: visits_all_def)
  from producer_connection_broadcasts [OF small_broker_ready(4) this,
      where ms = "[[1], [2]]" and env = "\<lambda>_. []" and cid = "''u''" and c = 5 and e = EOF
        and w = "\<lparr>written = [], wr_room = None, wr_err = EOF\<rparr>"]
  show ?thesis by (auto simp: small_broker_ready frame_ok_def)
qed

text \<open>A connection that does not name a known role in its first line is turned away: the
  broker is unchanged and nothing is written. A carriage return before the newline is no part of
  the role.\<close>

theorem unknown_role_rejected:
  assumes "newline \<notin> set (avail inp) \<or>
    (\<exists>role rest. avail inp = role_line role @ rest \<and> CHR 0x0A \<notin> set role \<and>
       trimLine role \<notin> {''PRODUCER'', ''CONSUMER''})"
  shows "HandleConn env cid c ord inp w b = Some (Inr (b, w, Returned))"
  using assms
proof
  assume "newline \<notin> set (avail inp)"
  then show ?thesis by (simp add: HandleConn_def ReadString_def)
next
  assume "\<exists>role rest. avail inp = role_line role @ rest \<and> CHR 0x0A \<notin> set role \<and>
    trimLine role \<notin> {''PRODUCER'', ''CONSUMER''}"
  then obtain role rest where inp: "avail inp = role_line role @ rest" "CHR 0x0A \<notin> set role"
    "trimLine role \<notin> {''PRODUCER'', ''CONSUMER''}"
    by blast
  then have "inp = \<lparr>avail = role_line role @ rest, fin = fin inp\<rparr>" by (cases inp) simp
  with ReadString_role_line [OF inp(2), of rest "fin inp"]
  have "ReadString inp = (Inr (role_line role), \<lparr>avail = rest, fin = fin inp\<rparr>)" by simp
  moreover have "trimLine (string_of_bytes (role_line role)) = trimLine role"
    by (simp add: role_line_def trimLine_snoc string_of_bytes_def [of "[newline]"] newline_char)
  ultimately show ?thesis
    using inp(3) by (simp add: HandleConn_def roleProducer_def roleConsumer_def)
qed

theorem unknown_role_rejected_witness:
  "HandleConn (\<lambda>_. []) ''u'' 0 (\<lambda>_ ks. ks) \<lparr>avail = role_line ''producer'', fin = EOF\<rparr>
     \<lparr>written = [], wr_room = None, wr_err = EOF\<rparr> (small_broker Queue []) =
   Some (Inr (small_broker Queue [], \<lparr>written = [], wr_room = None, wr_err = EOF\<rparr>, Returned))"
proof (rule unknown_role_rejected, rule disjI2, intro exI conjI)
  show "avail \<lparr>avail = role_line ''producer'', fin = EOF\<rparr> = role_line ''producer'' @ []" by simp
qed (simp_all add: trimLine_rev)

text \<open>C16: Broadcast mode from end to end. A consumer connects to a consistent broker and waits;
  a producer connects afterwards and sends messages, within the frame limit, that fit every channel; when the consumer's
  handler goes on, it writes exactly these messages, in order, and waits for more.\<close>

theorem broadcast_mode_end_to_end:
  assumes "broadcast_ready b" and "cid \<notin> broker_members b" and "broker_heap b c = None"
    and "int (length ms) \<le> GetEnvInt env ''CONSUMER_CHANNEL_BUFFER_SIZE'' 10000" and "ms \<noteq> []"
    and "\<forall>i \<in> broker_members b. length ms \<le> broker_room b i"
    and "\<forall>m \<in> set ms. frame_ok m" and "visits_all ord" and "wr_room w = None"
  shows "\<exists>b1 b2 b3 w'.
    HandleConn env cid c ord' \<lparr>avail = role_line ''CONSUMER'' @ rest, fin = e\<rparr> w b =
      Some (Inr (b1, w, Waiting cid c)) \<and>
    HandleConn env cid2 c2 ord \<lparr>avail = role_line ''PRODUCER'' @ concat (map frame ms), fin = e2\<rparr> w2 b1 =
      Some (Inr (b2, w2, Returned)) \<and>
    consumer_resume cid c b2 w = Inr (b3, w', Waiting cid c) \<and>
    decode_frames \<lparr>avail = drop (length (written w)) (written w'), fin = EOF\<rparr> = (ms, EOF)"
proof -
  have mode: "broker_mode b = Broadcast" and inv: "reg_inv (registry b, broker_heap b)"
    using assms(1) by (auto simp: broadcast_ready_def)
  let ?n = "GetEnvInt env ''CONSUMER_CHANNEL_BUFFER_SIZE'' 10000"
  have n: "0 < ?n" using assms(4,5) by (cases ms) auto
  then obtain b1 where start: "consumer_start env cid c b = Inr b1"
    by (auto simp: consumer_start_def make_chan_def)
  note joins = consumer_start_joins [OF inv start assms(2,3) refl n]
  from joins mode have b1: "broadcast_ready b1" "broker_mode b1 = Broadcast"
    "reg_inv (registry b1, broker_heap b1)" by (auto simp: broadcast_ready_def)
  have chan1: "broker_heap b1 c = Some \<lparr>chan_buf = [], chan_cap = nat ?n, chan_closed = False\<rparr>"
    and look1: "map_of (consumers (registry b1)) cid = Some c"
    using consumer_start_state [OF start] assms(2)
    by (simp_all add: reg_members_def map_add_def map_of_eq_None_iff [THEN iffD2])
  have "consumer_range c (broker_heap b1) w = (RangeBlocked, broker_heap b1, w)"
    using chan1 by (subst consumer_range.simps) (simp add: recv_def)
  then have h1: "HandleConn env cid c ord' \<lparr>avail = role_line ''CONSUMER'' @ rest, fin = e\<rparr> w b =
      Some (Inr (b1, w, Waiting cid c))"
    by (simp add: HandleConn_consumer handleConsumer_def mode handleConsumerBroadcast_def start
        consumer_resume_def)
  have "\<forall>i \<in> broker_members b1. length ms \<le> broker_room b1 i"
    using joins assms(4,6) by auto
  from producer_broadcast_state [OF b1(1) assms(8,7), of env cid2 c2 e2 w2] this joins
  obtain b2 where h2: "HandleConn env cid2 c2 ord
      \<lparr>avail = role_line ''PRODUCER'' @ concat (map frame ms), fin = e2\<rparr> w2 b1 = Some (Inr (b2, w2, Returned))"
    and b2: "broadcast_ready b2" "broker_inbox b2 cid = ms" "registry b2 = registry b1"
    by fastforce
  from b2(1) have "reg_inv (registry b2, broker_heap b2)" by (simp add: broadcast_ready_def)
  from reg_inv_lookup(1) [OF this] look1 b2(3) obtain ch where ch: "broker_heap b2 c = Some ch"
    "\<not> chan_closed ch" by (auto simp: open_ref_def)
  with b2(2,3) look1 have "chan_buf ch = ms" by (simp add: reg_inbox_def reg_chan_def)
  with consumer_range_drains [of "broker_heap b2" c ch w, OF ch(1) assms(9)] ch(2)
  have h3: "consumer_resume cid c b2 w = Inr (b2\<lparr>broker_heap := (broker_heap b2)(c \<mapsto> ch\<lparr>chan_buf := []\<rparr>)\<rparr>,
      w\<lparr>written := written w @ concat (map frame ms)\<rparr>, Waiting cid c)"
    by (simp add: consumer_resume_def)
  show ?thesis
    by (intro exI conjI, rule h1, rule h2, rule h3) (simp add: decode_frames_all [OF assms(7)])
qed

theorem broadcast_mode_end_to_end_witness:
  "\<exists>b1 b2 b3 w'.
    HandleConn (\<lambda>_. []) ''z'' 5 (\<lambda>_ ks. ks) \<lparr>avail = role_line ''CONSUMER'' @ [], fin = EOF\<rparr>
      \<lparr>written = [], wr_room = None, wr_err = EOF\<rparr> (small_broker Broadcast []) =
      Some (Inr (b1, \<lparr>written = [], wr_room = None, wr_err = EOF\<rparr>, Waiting ''z'' 5)) \<and>
    HandleConn (\<lambda>_. []) ''p'' 6 (\<lambda>_ ks. rev ks)
      \<lparr>avail = role_line ''PRODUCER'' @ concat (map frame [[1], [2, 3]]), fin = EOF\<rparr>
      \<lparr>written = [], wr_room = None, wr_err = EOF\<rparr> b1 =
      Some (Inr (b2, \<lparr>written = [], wr_room = None, wr_err = EOF\<rparr>, Returned)) \<and>
    consumer_resume ''z'' 5 b2 \<lparr>written = [], wr_room = None, wr_err = EOF\<rparr> = Inr (b3, w', Waiting ''z'' 5) \<and>
    decode_frames \<lparr>avail = drop (length ([] :: bytes)) (written w'), fin = EOF\<rparr> = ([[1], [2, 3]], EOF)"
  using broadcast_mode_end_to_end [OF small_broker_ready(4) _ small_broker_heap, where cid = "''z''"
      and ms = "[[1], [2, 3]]" and env = "\<lambda>_. []" and ord = "\<lambda>_ ks. rev ks" and ord' = "\<lambda>_ ks. ks"
      and rest = "[]" and e = EOF and ?cid2.0 = "''p''" and ?c2.0 = 6 and ?e2.0 = EOF
      and w = "\<lparr>written = [], wr_room = None, wr_err = EOF\<rparr>"
      and ?w2.0 = "\<lparr>written = [], wr_room = None, wr_err = EOF\<rparr>"]
  by (simp add: small_broker_ready GetEnvInt_def frame_ok_def visits_all_def)

text \<open>A negative CONSUMER_CHANNEL_BUFFER_SIZE is not refused at the start: the first consumer
  that connects in broadcast mode panics the broker.\<close>

theorem negative_buffer_size_panics:
  assumes "broker_mode b = Broadcast" and "GetEnvInt env ''CONSUMER_CHANNEL_BUFFER_SIZE'' 10000 < 0"
  shows "HandleConn env cid c ord \<lparr>avail = role_line ''CONSUMER'' @ rest, fin = e\<rparr> w b =
    Some (Inl MakeChanSize)"
  using assms
  by (simp add: HandleConn_consumer handleConsumer_def handleConsumerBroadcast_def consumer_start_def
      make_chan_def)

theorem negative_buffer_size_panics_witness:
  "HandleConn ((\<lambda>_. [])(''CONSUMER_CHANNEL_BUFFER_SIZE'' := ''-1'')) ''u'' 0 (\<lambda>_ ks. ks)
     \<lparr>avail = role_line ''CONSUMER'' @ [], fin = EOF\<rparr> \<lparr>written = [], wr_room = None, wr_err = EOF\<rparr>
     (small_broker Broadcast []) = Some (Inl MakeChanSize)"
  by (rule negative_buffer_size_panics)
     (simp_all add: small_broker_def GetEnvInt_def Atoi_def is_digit_def digit_val_def int_min_def int_max_def)

text \<open>C27: Shutting down a consistent broker does not panic, in whatever order the registry is
  visited. Afterwards the queue is closed and empty, nobody is registered and the broker is
  consistent; every consumer that was registered still gets what was waiting for it, with its
  handler then returning.\<close>

theorem broker_close_drains_consumers:
  assumes "broadcast_ready b" and "mq_inv (queue b)"
    and "distinct order" and "set order = broker_members b"
  shows "\<exists>b'. Broker_Close order b = Inr b' \<and> broadcast_ready b' \<and> broker_members b' = {} \<and>
    mq_closed (queue b') \<and> Len (queue b') = 0 \<and>
    (\<forall>cid c ch w. map_of (consumers (registry b)) cid = Some c \<and> broker_heap b c = Some ch \<and> wr_room w = None \<longrightarrow>
       (\<exists>b'' w'. consumer_resume cid c b' w = Inr (b'', w', Returned) \<and>
          written w' = written w @ concat (map frame (chan_buf ch))))"
proof -
  have mode: "broker_mode b = Broadcast" and inv: "reg_inv (registry b, broker_heap b)"
    using assms(1) by (auto simp: broadcast_ready_def)
  from mq.closing [OF assms(2)] obtain q' where q': "Queue_Close (queue b) = Inr q'" "mq_closed q'"
    "Len q' = 0" by blast
  from Registry_Close_state [OF inv assms(3,4)] obtain r' h' where s':
    "Registry_Close order (registry b, broker_heap b) = Inr (r', h')" "reg_inv (r', h')" "consumers r' = []"
    "\<forall>c. h' c = (if c \<in> snd ` set (consumers (registry b))
        then map_option (\<lambda>ch. ch\<lparr>chan_closed := True\<rparr>) (broker_heap b c) else broker_heap b c)"
    by auto
  let ?b' = "b\<lparr>queue := q', registry := r', broker_heap := h'\<rparr>"
  have resume: "consumer_resume cid c ?b' w = Inr (?b'\<lparr>broker_heap := h'(c \<mapsto> ch\<lparr>chan_closed := True, chan_buf := []\<rparr>)\<rparr>,
      w\<lparr>written := written w @ concat (map frame (chan_buf ch))\<rparr>, Returned)"
    if "map_of (consumers (registry b)) cid = Some c" "broker_heap b c = Some ch" "wr_room w = None" for cid c ch w
  proof -
    from that(1) have "c \<in> snd ` set (consumers (registry b))"
      by (metis map_of_SomeD snd_conv image_eqI)
    with s'(4) that(2) have "h' c = Some (ch\<lparr>chan_closed := True\<rparr>)" by simp
    from consumer_range_drains [of h' c _ w, OF this that(3)] s'(3) show ?thesis
      by (simp add: consumer_resume_def UnregisterConsumer_def)
  qed
  have "Broker_Close order b = Inr ?b'"
    by (simp add: Broker_Close_def q'(1) s'(1))
  with mode s'(2,3) q' resume show ?thesis
    by (intro exI [of _ ?b']) (auto simp: broadcast_ready_def reg_members_def)
qed

theorem broker_close_drains_consumers_witness:
  "\<exists>b' b'' w'. Broker_Close [''a'', ''b''] (small_broker Broadcast [[5]]) = Inr b' \<and>
     consumer_resume ''a'' 0 b' \<lparr>written = [], wr_room = None, wr_err = EOF\<rparr> = Inr (b'', w', Returned) \<and>
     written w' = frame [9]"
proof -
  let ?b = "small_broker Broadcast [[5]]" and ?w = "\<lparr>written = [], wr_room = None, wr_err = EOF\<rparr>"
  let ?ch = "\<lparr>chan_buf = [[9]], chan_cap = 3, chan_closed = False\<rparr>"
  have "map_of (consumers (registry ?b)) ''a'' = Some 0 \<and> broker_heap ?b 0 = Some ?ch \<and> wr_room ?w = None"
    by (simp add: small_broker_def two_consumers_def)
  moreover have "mq_inv (queue ?b)" "distinct [''a'', ''b'']" "set [''a'', ''b''] = broker_members ?b"
    by (simp_all add: small_broker_ready small_broker_mq)
  note broker_close_drains_consumers [OF small_broker_ready(4) this]
  ultimately obtain b' b'' w' where "Broker_Close [''a'', ''b''] ?b = Inr b'"
    "consumer_resume ''a'' 0 b' ?w = Inr (b'', w', Returned)"
    "written w' = written ?w @ concat (map frame (chan_buf ?ch))"
    by blast
  then show ?thesis by simp
qed

end
