(* ===== verification/BrokerSystem.thy ===== *)
theory BrokerSystem
  imports BrokerProps "HOL-Library.Multiset"
begin

text \<open>
  The running broker: any number of connections, each served by its own goroutine, and the
  shutdown of \<open>cmd/message_queue/main.go\<close>, interleaved in any order. A step is what Go makes
  atomic: an operation under the registry's mutex (which holds it for no call that can wait, so that
  waiting for the mutex always ends), one send or receive on a channel, one close.
  So \<open>BroadcastMessage\<close> is a snapshot and then one send per channel, \<open>Enqueue\<close> is a nil check
  and then a \<open>select\<close>, a consumer's loop is a receive and then a write, and \<open>Broker.Close\<close> is
  three steps. The steps are written with the operations of the components. A panic in any
  goroutine stops the whole process (\<open>crash\<close>). The fields \<open>accepted\<close>, \<open>refused\<close>, \<open>entered\<close>, \<open>handed\<close>
  and \<open>handled\<close> are only recorded, no step depends on them: for each channel the messages whose
  sends on it succeeded, with the connection they came from; the messages refused or lost; the
  messages for which \<open>Enqueue\<close> returned nil, with the connection they came from; the messages that
  \<open>Dequeue\<close> returned, with the connection whose handler called it; the messages a handler has read.
\<close>

section \<open>Connections and shared state\<close>

text \<open>Where a goroutine stands. A producer is about to read, has channels of its snapshot left to
  send to, or is past the nil check of \<open>Enqueue\<close>. A broadcast consumer is about to register,
  at the head of its loop, about to write, about to unregister, or gone (the list: messages it
  took but could not write). A queue consumer is about to dequeue or to write.\<close>

datatype control =
    Reading | Sending bytes "nat list" | Selecting bytes | Producer_done
  | Starting | Ranging string nat | Writing string nat bytes
  | Leaving string nat "bytes list" | Left nat "bytes list"
  | Dequeueing | WritingQ bytes | Queue_done

record conn =
  pc :: control
  todo :: "bytes list"
  handled :: "bytes list"
  wire :: "bytes list"

record shared =
  sb :: Broker
  crash :: "panic option"
  accepted :: "nat \<Rightarrow> (nat \<times> bytes) list"
  refused :: "bytes list"
  entered :: "(nat \<times> bytes) list"
  handed :: "(nat \<times> bytes) list"

abbreviation chan_at :: "shared \<Rightarrow> nat \<Rightarrow> bytes chan option" where
  "chan_at sh c \<equiv> broker_heap (sb sh) c"

definition set_chan :: "nat \<Rightarrow> bytes chan \<Rightarrow> shared \<Rightarrow> shared" where
  "set_chan c ch sh = sh\<lparr>sb := (sb sh)\<lparr>broker_heap := (broker_heap (sb sh))(c \<mapsto> ch)\<rparr>\<rparr>"

definition set_registry :: "BroadcastRegistry \<Rightarrow> heap \<Rightarrow> shared \<Rightarrow> shared" where
  "set_registry r h sh = sh\<lparr>sb := (sb sh)\<lparr>registry := r, broker_heap := h\<rparr>\<rparr>"

definition set_queue :: "MemoryMessageQueue \<Rightarrow> shared \<Rightarrow> shared" where
  "set_queue q sh = sh\<lparr>sb := (sb sh)\<lparr>queue := q\<rparr>\<rparr>"

definition log_accept :: "nat \<Rightarrow> nat \<Rightarrow> bytes \<Rightarrow> shared \<Rightarrow> shared" where
  "log_accept c i m sh = sh\<lparr>accepted := (accepted sh)(c := accepted sh c @ [(i, m)])\<rparr>"

definition log_refuse :: "bytes list \<Rightarrow> shared \<Rightarrow> shared" where
  "log_refuse ms sh = sh\<lparr>refused := refused sh @ ms\<rparr>"

definition log_enter :: "nat \<Rightarrow> bytes \<Rightarrow> shared \<Rightarrow> shared" where
  "log_enter i m sh = sh\<lparr>entered := entered sh @ [(i, m)]\<rparr>"

definition log_hand :: "nat \<Rightarrow> bytes \<Rightarrow> shared \<Rightarrow> shared" where
  "log_hand i m sh = sh\<lparr>handed := handed sh @ [(i, m)]\<rparr>"

lemma log_simps [simp]:
  "sb (log_enter i m sh) = sb sh" "crash (log_enter i m sh) = crash sh" "accepted (log_enter i m sh) = accepted sh"
  "refused (log_enter i m sh) = refused sh" "entered (log_enter i m sh) = entered sh @ [(i, m)]"
  "handed (log_enter i m sh) = handed sh"
  "sb (log_hand i m sh) = sb sh" "crash (log_hand i m sh) = crash sh" "accepted (log_hand i m sh) = accepted sh"
  "refused (log_hand i m sh) = refused sh" "entered (log_hand i m sh) = entered sh"
  "handed (log_hand i m sh) = handed sh @ [(i, m)]"
  by (simp_all add: log_enter_def log_hand_def)

text \<open>The \<open>select\<close> of \<open>Enqueue\<close>, which looks at \<open>q.queue\<close> again: a nil channel is never
  ready.\<close>

definition Enqueue_select :: "bytes \<Rightarrow> MemoryMessageQueue \<Rightarrow> (go_error option \<times> MemoryMessageQueue) go"
  where
  "Enqueue_select msg q =
     (case mq_queue q of
        None \<Rightarrow> Inr (Some (OtherError ''queue full''), q)
      | Some c \<Rightarrow>
          bind_go (try_send msg c) (\<lambda>(sent, c').
            if sent then Inr (None, q\<lparr>mq_queue := Some c'\<rparr>)
            else Inr (Some (OtherError ''queue full''), q)))"

lemma Enqueue_two_steps:
  "Enqueue msg q =
     (if mq_queue q = None then Inr (Some (OtherError ''queue is closed''), q)
      else Enqueue_select msg q)"
  by (auto simp: Enqueue_def Enqueue_select_def)

section \<open>The steps of one connection\<close>

text \<open>A read or write may fail at any time: the connection is cut. \<open>i\<close> is the number of the
  connection. Ids come from a UUID generator and channels from the allocator: both fresh.\<close>

inductive conn_step :: "environment \<Rightarrow> nat \<Rightarrow> conn \<times> shared \<Rightarrow> conn \<times> shared \<Rightarrow> bool"
  for env :: environment and i :: nat
  where
  ReadEnd: "pc cn = Reading \<Longrightarrow> conn_step env i (cn, sh) (cn\<lparr>pc := Producer_done\<rparr>, sh)"
| ReadBroadcast: "pc cn = Reading \<Longrightarrow> todo cn = m # ms \<Longrightarrow> broker_mode (sb sh) = Broadcast \<Longrightarrow>
    distinct order \<Longrightarrow> set order = fst ` set (consumers (registry (sb sh))) \<Longrightarrow>
    conn_step env i (cn, sh)
      (cn\<lparr>pc := Sending m (snapshot order (registry (sb sh))), todo := ms, handled := handled cn @ [m]\<rparr>, sh)"
| ReadQueue: "pc cn = Reading \<Longrightarrow> todo cn = m # ms \<Longrightarrow> broker_mode (sb sh) = Queue \<Longrightarrow>
    mq_queue (queue (sb sh)) \<noteq> None \<Longrightarrow>
    conn_step env i (cn, sh) (cn\<lparr>pc := Selecting m, todo := ms, handled := handled cn @ [m]\<rparr>, sh)"
| ReadQueueClosed: "pc cn = Reading \<Longrightarrow> todo cn = m # ms \<Longrightarrow> broker_mode (sb sh) = Queue \<Longrightarrow>
    mq_queue (queue (sb sh)) = None \<Longrightarrow>
    conn_step env i (cn, sh) (cn\<lparr>todo := ms, handled := handled cn @ [m]\<rparr>, log_refuse [m] sh)"
| SendDone: "pc cn = Sending m [] \<Longrightarrow> conn_step env i (cn, sh) (cn\<lparr>pc := Reading\<rparr>, sh)"
| SendTaken: "pc cn = Sending m (c # cs) \<Longrightarrow> chan_at sh c = Some ch \<Longrightarrow>
    try_send m ch = Inr (True, ch') \<Longrightarrow>
    conn_step env i (cn, sh) (cn\<lparr>pc := Sending m cs\<rparr>, log_accept c i m (set_chan c ch' sh))"
| SendFull: "pc cn = Sending m (c # cs) \<Longrightarrow> chan_at sh c = Some ch \<Longrightarrow>
    try_send m ch = Inr (False, ch') \<Longrightarrow> conn_step env i (cn, sh) (cn\<lparr>pc := Reading\<rparr>, sh)"
| SendPanic: "pc cn = Sending m (c # cs) \<Longrightarrow> chan_at sh c = Some ch \<Longrightarrow> try_send m ch = Inl p \<Longrightarrow>
    conn_step env i (cn, sh) (cn, sh\<lparr>crash := Some p\<rparr>)"
| SelectTaken: "pc cn = Selecting m \<Longrightarrow> Enqueue_select m (queue (sb sh)) = Inr (None, q') \<Longrightarrow>
    conn_step env i (cn, sh) (cn\<lparr>pc := Reading\<rparr>, log_enter i m (set_queue q' sh))"
| SelectFull: "pc cn = Selecting m \<Longrightarrow> Enqueue_select m (queue (sb sh)) = Inr (Some e, q') \<Longrightarrow>
    conn_step env i (cn, sh) (cn\<lparr>pc := Reading\<rparr>, log_refuse [m] (set_queue q' sh))"
| SelectPanic: "pc cn = Selecting m \<Longrightarrow> Enqueue_select m (queue (sb sh)) = Inl p \<Longrightarrow>
    conn_step env i (cn, sh) (cn, sh\<lparr>crash := Some p\<rparr>)"
| Start: "pc cn = Starting \<Longrightarrow> cid \<notin> fst ` set (consumers (registry (sb sh))) \<Longrightarrow> chan_at sh c = None \<Longrightarrow>
    consumer_start env cid c (sb sh) = Inr b' \<Longrightarrow>
    conn_step env i (cn, sh) (cn\<lparr>pc := Ranging cid c\<rparr>, sh\<lparr>sb := b'\<rparr>)"
| StartPanic: "pc cn = Starting \<Longrightarrow> consumer_start env cid c (sb sh) = Inl p \<Longrightarrow>
    conn_step env i (cn, sh) (cn, sh\<lparr>crash := Some p\<rparr>)"
| RangeReceive: "pc cn = Ranging cid c \<Longrightarrow> chan_at sh c = Some ch \<Longrightarrow> recv ch = (Received m, ch') \<Longrightarrow>
    conn_step env i (cn, sh) (cn\<lparr>pc := Writing cid c m\<rparr>, set_chan c ch' sh)"
| RangeClosed: "pc cn = Ranging cid c \<Longrightarrow> chan_at sh c = Some ch \<Longrightarrow> recv ch = (RecvClosed, ch') \<Longrightarrow>
    conn_step env i (cn, sh) (cn\<lparr>pc := Leaving cid c []\<rparr>, sh)"
| WriteOk: "pc cn = Writing cid c m \<Longrightarrow>
    conn_step env i (cn, sh) (cn\<lparr>pc := Ranging cid c, wire := wire cn @ [m]\<rparr>, sh)"
| WriteError: "pc cn = Writing cid c m \<Longrightarrow>
    conn_step env i (cn, sh) (cn\<lparr>pc := Leaving cid c [m]\<rparr>, sh)"
| Unregister: "pc cn = Leaving cid c ms \<Longrightarrow>
    UnregisterConsumer cid (registry (sb sh), broker_heap (sb sh)) = Inr (r', h') \<Longrightarrow>
    conn_step env i (cn, sh) (cn\<lparr>pc := Left c ms\<rparr>, set_registry r' h' sh)"
| UnregisterPanic: "pc cn = Leaving cid c ms \<Longrightarrow>
    UnregisterConsumer cid (registry (sb sh), broker_heap (sb sh)) = Inl p \<Longrightarrow>
    conn_step env i (cn, sh) (cn, sh\<lparr>crash := Some p\<rparr>)"
| DequeueOk: "pc cn = Dequeueing \<Longrightarrow> Dequeue (queue (sb sh)) = (Inr m, q') \<Longrightarrow>
    conn_step env i (cn, sh) (cn\<lparr>pc := WritingQ m\<rparr>, log_hand i m (set_queue q' sh))"
| DequeueError: "pc cn = Dequeueing \<Longrightarrow> Dequeue (queue (sb sh)) = (Inl e, q') \<Longrightarrow>
    conn_step env i (cn, sh) (cn\<lparr>pc := Queue_done\<rparr>, set_queue q' sh)"
| WriteQOk: "pc cn = WritingQ m \<Longrightarrow>
    conn_step env i (cn, sh) (cn\<lparr>pc := Dequeueing, wire := wire cn @ [m]\<rparr>, sh)"
| WriteQError: "pc cn = WritingQ m \<Longrightarrow>
    conn_step env i (cn, sh) (cn\<lparr>pc := Queue_done\<rparr>, log_refuse [m] sh)"

section \<open>The system\<close>

text \<open>\<open>closing\<close>: how far the shutdown got: 0 running, 1 the queue's channel is closed, 2 the
  queue is nil, 3 the registry is closed.\<close>

record system =
  conns :: "conn list"
  shr :: shared
  closing :: nat

text \<open>The steps of \<open>Broker.Close\<close>.\<close>

inductive close_step :: "system \<Rightarrow> system \<Rightarrow> bool" where
  CloseQueue: "crash (shr s) = None \<Longrightarrow> closing s = 0 \<Longrightarrow> mq_queue (queue (sb (shr s))) = Some ch \<Longrightarrow>
    close_chan ch = Inr ch' \<Longrightarrow>
    close_step s
      (s\<lparr>shr := set_queue ((queue (sb (shr s)))\<lparr>mq_queue := Some ch'\<rparr>) (shr s), closing := 1\<rparr>)"
| CloseQueuePanic: "crash (shr s) = None \<Longrightarrow> closing s = 0 \<Longrightarrow> mq_queue (queue (sb (shr s))) = Some ch \<Longrightarrow>
    close_chan ch = Inl p \<Longrightarrow> close_step s (s\<lparr>shr := (shr s)\<lparr>crash := Some p\<rparr>\<rparr>)"
| ClearQueue: "crash (shr s) = None \<Longrightarrow> closing s = 1 \<Longrightarrow>
    close_step s
      (s\<lparr>shr := log_refuse (mq_contents (queue (sb (shr s))))
                 (set_queue ((queue (sb (shr s)))\<lparr>mq_queue := None\<rparr>) (shr s)), closing := 2\<rparr>)"
| CloseRegistry: "crash (shr s) = None \<Longrightarrow> closing s = 2 \<Longrightarrow>
    distinct order \<Longrightarrow> set order = fst ` set (consumers (registry (sb (shr s)))) \<Longrightarrow>
    Registry_Close order (registry (sb (shr s)), broker_heap (sb (shr s))) = Inr (r', h') \<Longrightarrow>
    close_step s (s\<lparr>shr := set_registry r' h' (shr s), closing := 3\<rparr>)"
| CloseRegistryPanic: "crash (shr s) = None \<Longrightarrow> closing s = 2 \<Longrightarrow>
    distinct order \<Longrightarrow> set order = fst ` set (consumers (registry (sb (shr s)))) \<Longrightarrow>
    Registry_Close order (registry (sb (shr s)), broker_heap (sb (shr s))) = Inl p \<Longrightarrow>
    close_step s (s\<lparr>shr := (shr s)\<lparr>crash := Some p\<rparr>\<rparr>)"

inductive sys_step :: "environment \<Rightarrow> system \<Rightarrow> system \<Rightarrow> bool" for env :: environment where
  Conn: "crash (shr s) = None \<Longrightarrow> i < length (conns s) \<Longrightarrow>
    conn_step env i (conns s ! i, shr s) (cn', sh') \<Longrightarrow>
    sys_step env s (s\<lparr>conns := (conns s)[i := cn'], shr := sh'\<rparr>)"
| Close: "close_step s s' \<Longrightarrow> sys_step env s s'"

text \<open>A freshly started broker and the connections that will come: one that has not come yet is
  one that has not taken a step. A connection without a known role is done at once.\<close>

definition sys_start :: "DeliveryMode \<Rightarrow> system \<Rightarrow> bool" where
  "sys_start mode s \<longleftrightarrow>
     (\<exists>b. NewBroker mode = Inr b \<and>
        shr s = \<lparr>sb = b, crash = None, accepted = \<lambda>_. [], refused = [], entered = [], handed = []\<rparr>) \<and> closing s = 0 \<and>
     (\<forall>cn \<in> set (conns s). handled cn = [] \<and> wire cn = [] \<and>
        (pc cn = Reading \<or> pc cn = Producer_done \<and> todo cn = [] \<or>
         (if mode = Broadcast then pc cn = Starting else pc cn = Dequeueing) \<and> todo cn = []))"

abbreviation sys_runs :: "environment \<Rightarrow> system \<Rightarrow> system \<Rightarrow> bool" where
  "sys_runs env \<equiv> rtranclp (sys_step env)"


inductive_cases conn_stepE: "conn_step env i (cn, sh) (cn', sh')"

inductive_cases sys_stepE: "sys_step env s s'"

lemmas sh_defs = set_chan_def set_registry_def set_queue_def log_accept_def log_refuse_def

lemma sys_runs_step: "sys_step env s s1 \<Longrightarrow> sys_runs env s1 s2 \<Longrightarrow> sys_runs env s s2"
  by (rule converse_rtranclp_into_rtranclp)

section \<open>Panics\<close>

text \<open>The registry and its channels, as the components' invariants see them.\<close>

definition reg_ok :: "shared \<Rightarrow> bool" where
  "reg_ok sh \<longleftrightarrow> reg_inv (registry (sb sh), broker_heap (sb sh)) \<and>
     (\<forall>c ch. chan_at sh c = Some ch \<longrightarrow> chan_wf ch)"

definition some_closed :: "shared \<Rightarrow> bool" where
  "some_closed sh \<longleftrightarrow> (\<exists>c ch. chan_at sh c = Some ch \<and> chan_closed ch)"

definition queue_state :: "shared \<Rightarrow> bool option" where
  "queue_state sh = map_option chan_closed (mq_queue (queue (sb sh)))"

definition has_left :: "conn \<Rightarrow> bool" where
  "has_left cn \<longleftrightarrow> (\<exists>c ms. pc cn = Left c ms)"

lemma reg_inv_same_channel:
  assumes "reg_inv (r, h)" and "h c = Some ch" and "chan_closed ch' = chan_closed ch"
    and "chan_cap ch' = chan_cap ch" and "chan_wf ch'"
  shows "reg_inv (r, h(c \<mapsto> ch'))"
  using assms by (auto simp: reg_inv_def open_ref_def)

lemma reg_ok_set_chan:
  assumes "reg_ok sh" and "chan_at sh c = Some ch" and "chan_closed ch' = chan_closed ch"
    and "chan_cap ch' = chan_cap ch" and "chan_wf ch'"
  shows "reg_ok (set_chan c ch' sh)"
  using assms reg_inv_same_channel by (auto simp: reg_ok_def set_chan_def)

lemma recv_channel:
  "recv ch = (r, ch') \<Longrightarrow> chan_closed ch' = chan_closed ch \<and> chan_cap ch' = chan_cap ch"
  by (auto simp: recv_def split: list.splits)

lemma try_send_closed_same: "try_send m ch = Inr (b, ch') \<Longrightarrow> chan_closed ch' = chan_closed ch"
  by (auto simp: try_send_def split: if_splits)

lemma try_send_panic: "try_send m ch = Inl p \<longleftrightarrow> p = SendOnClosedChannel \<and> chan_closed ch"
  by (auto simp: try_send_def)

text \<open>Leaving and closing touch only the closed flags.\<close>

definition same_bufs :: "heap \<Rightarrow> heap \<Rightarrow> bool" where
  "same_bufs h h' \<longleftrightarrow> (\<forall>c. map_option chan_buf (h' c) = map_option chan_buf (h c) \<and>
     map_option chan_cap (h' c) = map_option chan_cap (h c))"

lemma UnregisterConsumer_keeps:
  assumes "reg_inv (r, h)"
  shows "\<exists>r' h'. UnregisterConsumer cid (r, h) = Inr (r', h') \<and> reg_inv (r', h') \<and> same_bufs h h'"
proof (cases "map_of (consumers r) cid")
  case None
  with assms show ?thesis by (auto simp: UnregisterConsumer_def same_bufs_def)
next
  case (Some c)
  with UnregisterConsumer_heap [OF assms] obtain ch where ch: "h c = Some ch"
    "UnregisterConsumer cid (r, h) = Inr (r\<lparr>consumers := AList.delete cid (consumers r)\<rparr>,
      h(c \<mapsto> ch\<lparr>chan_closed := True\<rparr>))"
    by auto
  with UnregisterConsumer_law [OF assms, of cid] show ?thesis
    by (auto simp: same_bufs_def)
qed

lemma Registry_Close_keeps:
  assumes "reg_inv (r, h)" and "distinct order" and "set order = fst ` set (consumers r)"
  shows "\<exists>r' h'. Registry_Close order (r, h) = Inr (r', h') \<and> reg_inv (r', h') \<and> same_bufs h h'"
proof -
  have "set order = reg_members (r, h)"
    using assms(3) by (simp add: reg_members_def)
  from Registry_Close_state [OF assms(1,2) this] obtain r' h' where
    rh: "Registry_Close order (r, h) = Inr (r', h')" "reg_inv (r', h')"
    and h': "\<forall>c. h' c = (if c \<in> snd ` set (consumers r)
        then map_option (\<lambda>ch. ch\<lparr>chan_closed := True\<rparr>) (h c) else h c)"
    by auto
  have "same_bufs h h'"
    using h' by (simp add: same_bufs_def option.map_comp comp_def)
  with rh show ?thesis by blast
qed

lemma same_bufs_wf:
  assumes "same_bufs h h'" and "\<forall>c ch. h c = Some ch \<longrightarrow> chan_wf ch" and "h' c = Some ch'"
  shows "chan_wf ch'"
proof -
  have "map_option chan_buf (h c) = Some (chan_buf ch')" "map_option chan_cap (h c) = Some (chan_cap ch')"
    using assms(3) spec [OF assms(1) [unfolded same_bufs_def], of c] by simp_all
  then obtain ch where "h c = Some ch" "chan_buf ch = chan_buf ch'" "chan_cap ch = chan_cap ch'" by auto
  with assms(2) show ?thesis unfolding chan_wf_def by metis
qed

lemma consumer_start_reg_ok:
  assumes "reg_ok sh" and "consumer_start env cid c (sb sh) = Inr b'"
    and "cid \<notin> fst ` set (consumers (registry (sb sh)))" and "chan_at sh c = None"
    and "0 < GetEnvInt env ''CONSUMER_CHANNEL_BUFFER_SIZE'' 10000"
  shows "reg_ok (sh\<lparr>sb := b'\<rparr>)"
  using assms(1) consumer_start_inv [OF _ assms(2-5)] consumer_start_state [OF assms(2,3)]
  by (simp add: reg_ok_def chan_wf_def)

lemma Enqueue_select_queue:
  "Enqueue_select m (queue (sb sh)) = Inr (e, q') \<Longrightarrow> queue_state (set_queue q' sh) = queue_state sh"
  by (auto simp: Enqueue_select_def queue_state_def set_queue_def try_send_closed_same bind_go_eq_Inr
      split: option.splits if_splits)

lemma Dequeue_queue:
  "Dequeue (queue (sb sh)) = (r, q') \<Longrightarrow> queue_state (set_queue q' sh) = queue_state sh"
  by (auto simp: Dequeue_def queue_state_def set_queue_def recv_channel
      split: option.splits prod.splits recv.splits)

lemma conn_step_reg_ok:
  assumes "conn_step env i (cn, sh) (cn', sh')" and "reg_ok sh"
    and "0 < GetEnvInt env ''CONSUMER_CHANNEL_BUFFER_SIZE'' 10000"
  shows "reg_ok sh'"
  using assms(1)
proof cases
  case (SendTaken m c cs ch ch')
  then have "reg_ok (set_chan c ch' sh)"
    using assms(2) try_send_keeps_open [of m ch] try_send_wf [of m ch] try_send_closed_same [of m ch]
    by (intro reg_ok_set_chan) (auto simp: reg_ok_def)
  with SendTaken show ?thesis by (simp add: reg_ok_def log_accept_def)
next
  case (RangeReceive cid c ch m ch')
  then have "chan_wf ch'"
    using assms(2) recv_wf [of ch] by (auto simp: reg_ok_def)
  with RangeReceive recv_channel [of ch] reg_ok_set_chan [OF assms(2)] show ?thesis
    by simp
next
  case (Start cid c b')
  with assms(2,3) consumer_start_reg_ok show ?thesis by simp
next
  case (Unregister cid c ms r' h')
  with assms(2) UnregisterConsumer_keeps [of "registry (sb sh)" "broker_heap (sb sh)" cid]
    same_bufs_wf [of "broker_heap (sb sh)" h']
  show ?thesis by (auto simp: reg_ok_def set_registry_def)
qed (use assms(2) in \<open>simp_all add: reg_ok_def sh_defs\<close>)

lemma queue_state_log [simp]:
  "queue_state (log_refuse ms sh) = queue_state sh" "queue_state (log_enter i m sh) = queue_state sh"
  "queue_state (log_hand i m sh) = queue_state sh"
  by (simp_all add: queue_state_def log_refuse_def)

lemma conn_step_queue_state:
  "conn_step env i (cn, sh) (cn', sh') \<Longrightarrow> queue_state sh' = queue_state sh"
  by (erule conn_stepE)
     (simp_all add: Enqueue_select_queue Dequeue_queue, simp_all add: queue_state_def sh_defs consumer_start_def
        bind_go_eq_Inr, auto)

text \<open>One step of a connection panics only by sending on a closed channel.\<close>

lemma conn_step_crash:
  assumes "conn_step env i (cn, sh) (cn', sh')" and "reg_ok sh"
    and "0 < GetEnvInt env ''CONSUMER_CHANNEL_BUFFER_SIZE'' 10000"
  shows "crash sh' = crash sh \<or>
    crash sh' = Some SendOnClosedChannel \<and> (some_closed sh \<or> queue_state sh = Some True)"
  using assms(1)
proof cases
  case (SelectPanic m p)
  then show ?thesis
    by (auto simp: Enqueue_select_def bind_go_eq_Inl try_send_panic queue_state_def
        split: option.splits if_splits)
next
  case (StartPanic cid c p)
  with assms(3) show ?thesis
    by (simp add: consumer_start_def make_chan_def)
next
  case (UnregisterPanic cid c ms p)
  with assms(2) UnregisterConsumer_keeps [of "registry (sb sh)" "broker_heap (sb sh)" cid] show ?thesis
    by (auto simp: reg_ok_def)
qed (auto simp: sh_defs try_send_panic some_closed_def)

lemma conn_step_some_closed:
  assumes "conn_step env i (cn, sh) (cn', sh')" and "some_closed sh'"
  shows "some_closed sh \<or> has_left cn'"
  using assms(1)
proof cases
  case (SendTaken m c cs ch ch')
  with assms(2) try_send_keeps_open [of m ch] show ?thesis
    by (auto simp: some_closed_def sh_defs split: if_splits)
next
  case (RangeReceive cid c ch m ch')
  with assms(2) recv_channel [of ch] show ?thesis
    by (auto simp: some_closed_def sh_defs split: if_splits)
next
  case (Start cid c b')
  with assms(2) consumer_start_state [OF Start(6) Start(4)] show ?thesis
    by (auto simp: some_closed_def split: if_splits)
qed (use assms(2) in \<open>auto simp: some_closed_def sh_defs has_left_def\<close>)

lemma conn_step_not_left: "conn_step env i (cn, sh) (cn', sh') \<Longrightarrow> \<not> has_left cn"
  by (erule conn_stepE) (auto simp: has_left_def)

text \<open>The invariant of the whole system.\<close>

definition departed :: "system \<Rightarrow> bool" where
  "departed s \<longleftrightarrow> 0 < closing s \<or> (\<exists>cn \<in> set (conns s). has_left cn)"

definition sys_safe :: "system \<Rightarrow> bool" where
  "sys_safe s \<longleftrightarrow> reg_ok (shr s) \<and>
     queue_state (shr s) =
       (if closing s = 0 then Some False else if closing s = 1 then Some True else None) \<and>
     crash (shr s) \<in> {None, Some SendOnClosedChannel} \<and>
     (some_closed (shr s) \<or> crash (shr s) \<noteq> None \<longrightarrow> departed s)"

lemma departed_step:
  assumes "conn_step env i (conns s ! i, shr s) (cn', sh')" and "i < length (conns s)"
  shows "departed (s\<lparr>conns := (conns s)[i := cn'], shr := sh'\<rparr>) \<longleftrightarrow> departed s \<or> has_left cn'"
proof -
  have "\<not> has_left (conns s ! i)"
    using conn_step_not_left [OF assms(1)] .
  from bex_list_update [OF assms(2), where P = has_left, OF this] show ?thesis
    by (auto simp: departed_def)
qed

lemma sys_safe_step:
  assumes "sys_step env s s'" and "sys_safe s"
    and "0 < GetEnvInt env ''CONSUMER_CHANNEL_BUFFER_SIZE'' 10000"
  shows "sys_safe s'"
  using assms(1)
proof cases
  case (Conn i cn' sh')
  note safe = assms(2) [unfolded sys_safe_def]
  from safe have ok: "reg_ok (shr s)" by blast
  note step = Conn(4)
  have "queue_state sh' = queue_state (shr s)"
    by (rule conn_step_queue_state [OF step])
  moreover have "departed s'" if "some_closed sh' \<or> crash sh' \<noteq> None"
    unfolding Conn(1) departed_step [OF step Conn(3)]
    using that conn_step_some_closed [OF step] conn_step_crash [OF step ok assms(3)] safe Conn(2)
    by (auto simp: departed_def split: if_splits)
  ultimately show ?thesis
    using conn_step_reg_ok [OF step ok assms(3)] conn_step_crash [OF step ok assms(3)] safe Conn(1,2)
    by (auto simp: sys_safe_def)
next
  case Close
  then show ?thesis
  proof cases
    case (CloseQueue ch ch')
    with assms(2) show ?thesis
      by (auto simp: sys_safe_def reg_ok_def some_closed_def queue_state_def departed_def sh_defs close_chan_def
          split: if_splits)
  next
    case (CloseQueuePanic ch p)
    with assms(2) show ?thesis
      by (auto simp: sys_safe_def queue_state_def close_chan_def split: if_splits)
  next
    case ClearQueue
    with assms(2) show ?thesis
      by (auto simp: sys_safe_def reg_ok_def some_closed_def queue_state_def departed_def sh_defs)
  next
    case (CloseRegistry order r' h')
    from assms(2) have ok: "reg_inv (registry (sb (shr s)), broker_heap (sb (shr s)))"
      "\<forall>c ch. chan_at (shr s) c = Some ch \<longrightarrow> chan_wf ch"
      by (auto simp: sys_safe_def reg_ok_def)
    from Registry_Close_keeps [OF ok(1) CloseRegistry(4,5)] CloseRegistry(6)
    have "reg_inv (r', h')" "same_bufs (broker_heap (sb (shr s))) h'" by auto
    with same_bufs_wf [OF _ ok(2)] have "reg_ok (set_registry r' h' (shr s))"
      by (auto simp: reg_ok_def set_registry_def)
    with CloseRegistry assms(2) show ?thesis
      by (auto simp: sys_safe_def queue_state_def departed_def set_registry_def)
  next
    case (CloseRegistryPanic order p)
    with assms(2) Registry_Close_keeps [of "registry (sb (shr s))" "broker_heap (sb (shr s))" order]
    show ?thesis by (auto simp: sys_safe_def reg_ok_def)
  qed
qed

lemma sys_start_safe: "sys_start mode s \<Longrightarrow> sys_safe s"
  by (auto simp: sys_start_def sys_safe_def reg_ok_def some_closed_def queue_state_def NewBroker_def
      NewMemoryMessageQueue_def make_chan_def NewBroadcastRegistry_def reg_inv_def)

lemma sys_runs_safe:
  assumes "sys_runs env s s'" and "sys_safe s"
    and "0 < GetEnvInt env ''CONSUMER_CHANNEL_BUFFER_SIZE'' 10000"
  shows "sys_safe s'"
  using assms by (induction rule: rtranclp_induct) (auto intro: sys_safe_step)

section \<open>Order of delivery\<close>

text \<open>What a channel accepted from connection \<open>j\<close>.\<close>

definition from_conn :: "nat \<Rightarrow> (nat \<times> bytes) list \<Rightarrow> bytes list" where
  "from_conn j log = map snd (filter (\<lambda>x. fst x = j) log)"

fun owned_by :: "control \<Rightarrow> nat option" where
  "owned_by (Ranging cid c) = Some c"
| "owned_by (Writing cid c m) = Some c"
| "owned_by (Leaving cid c ms) = Some c"
| "owned_by (Left c ms) = Some c"
| "owned_by _ = None"

fun in_hand :: "control \<Rightarrow> bytes list" where
  "in_hand (Writing cid c m) = [m]"
| "in_hand (Leaving cid c ms) = ms"
| "in_hand (Left c ms) = ms"
| "in_hand _ = []"

text \<open>A consumer has written, holds or will find in its channel exactly what the channel
  accepted.\<close>

definition consumer_ok :: "shared \<Rightarrow> conn \<Rightarrow> bool" where
  "consumer_ok sh cn \<longleftrightarrow> (pc cn = Starting \<longrightarrow> wire cn = []) \<and>
     (\<forall>c. owned_by (pc cn) = Some c \<longrightarrow>
        (\<exists>ch. chan_at sh c = Some ch \<and> wire cn @ in_hand (pc cn) @ chan_buf ch = map snd (accepted sh c)))"

text \<open>Of what connection \<open>j\<close> has read, every channel accepted a subsequence; the channels that
  are still to be sent to have not seen the last message.\<close>

fun pending :: "control \<Rightarrow> nat set" where
  "pending (Sending m cs) = set cs"
| "pending _ = {}"

definition producer_ok :: "shared \<Rightarrow> nat \<Rightarrow> conn \<Rightarrow> bool" where
  "producer_ok sh j cn \<longleftrightarrow>
     (\<forall>m cs. pc cn = Sending m cs \<longrightarrow> distinct cs \<and> (\<exists>ms. handled cn = ms @ [m])) \<and>
     (\<forall>c \<in> pending (pc cn). chan_at sh c \<noteq> None) \<and>
     (\<forall>c. subseq (from_conn j (accepted sh c))
            (if c \<in> pending (pc cn) then butlast (handled cn) else handled cn))"

definition sys_fifo :: "system \<Rightarrow> bool" where
  "sys_fifo s \<longleftrightarrow>
     (\<forall>j < length (conns s). consumer_ok (shr s) (conns s ! j) \<and> producer_ok (shr s) j (conns s ! j)) \<and>
     (\<forall>i < length (conns s). \<forall>j < length (conns s). i \<noteq> j \<longrightarrow>
        owned_by (pc (conns s ! i)) = None \<or> owned_by (pc (conns s ! i)) \<noteq> owned_by (pc (conns s ! j))) \<and>
     (\<forall>c. (chan_at (shr s) c = None \<longrightarrow> accepted (shr s) c = []) \<and>
        (\<forall>x \<in> set (accepted (shr s) c). fst x < length (conns s)))"

lemma from_conn_append: "from_conn j (xs @ ys) = from_conn j xs @ from_conn j ys"
  by (simp add: from_conn_def)

lemma from_conn_other: "\<forall>x \<in> set xs. fst x = i \<Longrightarrow> i \<noteq> j \<Longrightarrow> from_conn j xs = []"
  by (simp add: from_conn_def filter_empty_conv)

lemma subseq_butlast: "subseq xs (butlast ys) \<Longrightarrow> subseq xs ys"
  by (meson prefix_imp_subseq prefixeq_butlast subseq_order.trans)

lemma snapshot_distinct:
  assumes "reg_inv (r, h)" and "distinct order" and "set order = fst ` set (consumers r)"
  shows "distinct (snapshot order r)" and "\<forall>c \<in> set (snapshot order r). h c \<noteq> None"
proof -
  let ?f = "\<lambda>i. the (map_of (consumers r) i)"
  have mem: "set order = reg_members (r, h)"
    using assms(3) by (simp add: reg_members_def)
  then have f: "map_of (consumers r) i = Some (?f i)" if "i \<in> set order" for i
    using that reg_members_lookup [of i "(r, h)"] by auto
  have snap: "snapshot order r = map ?f order"
    using snapshot_members [of order "(r, h)"] mem by simp
  have "inj_on ?f (set order)"
  proof (rule inj_onI)
    fix i j
    assume "i \<in> set order" "j \<in> set order" "?f i = ?f j"
    with f [of i] f [of j] reg_inv_inj [OF assms(1), of i "?f i" j] show "i = j" by simp
  qed
  with assms(2) show "distinct (snapshot order r)"
    by (simp add: snap distinct_map)
  have "h (?f i) \<noteq> None" if "i \<in> set order" for i
    using reg_inv_lookup(1) [OF assms(1), of i "?f i"] f [OF that] by (auto simp: open_ref_def)
  then show "\<forall>c \<in> set (snapshot order r). h c \<noteq> None"
    by (simp add: snap)
qed

text \<open>What a step of connection \<open>i\<close> does to a channel it does not own.\<close>

definition grows_by :: "nat \<Rightarrow> (nat \<times> bytes) list \<Rightarrow> shared \<Rightarrow> shared \<Rightarrow> nat \<Rightarrow> bool" where
  "grows_by i app sh sh' d \<longleftrightarrow>
     map_option chan_buf (chan_at sh' d) = map_option (\<lambda>ch. chan_buf ch @ map snd app) (chan_at sh d) \<and>
     accepted sh' d = accepted sh d @ app \<and> (\<forall>x \<in> set app. fst x = i)"

lemma grows_by_Nil [intro]:
  "map_option chan_buf (chan_at sh' d) = map_option chan_buf (chan_at sh d) \<Longrightarrow>
   accepted sh' d = accepted sh d \<Longrightarrow> grows_by i [] sh sh' d"
  by (simp add: grows_by_def)

lemma conn_step_channel:
  assumes "conn_step env i (cn, sh) (cn', sh')" and "reg_ok sh"
    and "chan_at sh d \<noteq> None" and "owned_by (pc cn) \<noteq> Some d"
  shows "\<exists>app. grows_by i app sh sh' d"
  using assms(1)
proof cases
  case (SendTaken m c cs ch1 ch')
  show ?thesis
  proof (cases "d = c")
    case True
    with SendTaken try_send_buf [of m ch1] have "grows_by i [(i, m)] sh sh' d"
      by (simp add: sh_defs grows_by_def)
    then show ?thesis ..
  next
    case False
    with SendTaken have "grows_by i [] sh sh' d" by (auto simp: sh_defs)
    then show ?thesis ..
  qed
next
  case (Unregister cid c ms r' h')
  with assms(2) UnregisterConsumer_keeps [of "registry (sb sh)" "broker_heap (sb sh)" cid]
  have "same_bufs (broker_heap (sb sh)) h'" by (auto simp: reg_ok_def)
  with Unregister have "grows_by i [] sh sh' d" by (auto simp: sh_defs same_bufs_def)
  then show ?thesis ..
next
  case (Start cid c b')
  with assms(3) have "d \<noteq> c" by auto
  with Start consumer_start_state [OF Start(6) Start(4)] have "grows_by i [] sh sh' d"
    by (intro grows_by_Nil) auto
  then show ?thesis ..
next
  case (RangeReceive cid c ch m ch')
  with assms(4) have "grows_by i [] sh sh' d" by (auto simp: sh_defs)
  then show ?thesis ..
qed (rule exI [of _ "[]"], rule grows_by_Nil, simp add: sh_defs, simp add: sh_defs)+

lemma conn_step_allocated:
  assumes "conn_step env i (cn, sh) (cn', sh')" and "reg_ok sh" and "chan_at sh d \<noteq> None"
  shows "chan_at sh' d \<noteq> None"
  using assms(1)
proof cases
  case (Unregister cid c ms r' h')
  with assms(2) UnregisterConsumer_keeps [of "registry (sb sh)" "broker_heap (sb sh)" cid]
  have "same_bufs (broker_heap (sb sh)) h'" by (auto simp: reg_ok_def)
  then have "map_option chan_buf (h' d) = map_option chan_buf (chan_at sh d)"
    by (simp add: same_bufs_def)
  with Unregister assms(3) show ?thesis by (auto simp: sh_defs)
next
  case (Start cid c b')
  with assms(3) consumer_start_state [OF Start(6) Start(4)] show ?thesis by auto
qed (use assms(3) in \<open>auto simp: sh_defs\<close>)

text \<open>Only registering makes a connection the owner of a channel, a new one.\<close>

lemma conn_step_owned:
  assumes "conn_step env i (cn, sh) (cn', sh')"
  shows "owned_by (pc cn') = owned_by (pc cn) \<or>
    (\<exists>c. owned_by (pc cn') = Some c \<and> chan_at sh c = None)"
  using assms by (auto elim!: conn_stepE)

lemma conn_step_consumer_ok:
  assumes "conn_step env i (cn, sh) (cn', sh')" and "reg_ok sh" and "consumer_ok sh cn"
    and "\<forall>c. chan_at sh c = None \<longrightarrow> accepted sh c = []"
  shows "consumer_ok sh' cn'"
  using assms(1)
proof cases
  case (Unregister cid c ms r' h')
  with assms(2) UnregisterConsumer_keeps [of "registry (sb sh)" "broker_heap (sb sh)" cid]
  have "same_bufs (broker_heap (sb sh)) h'" by (auto simp: reg_ok_def)
  then have "map_option chan_buf (h' c) = map_option chan_buf (chan_at sh c)"
    by (simp add: same_bufs_def)
  with Unregister assms(3) show ?thesis
    by (auto simp: consumer_ok_def sh_defs)
next
  case (Start cid c b')
  with assms(3,4) consumer_start_state [OF Start(6) Start(4)] show ?thesis
    by (simp add: consumer_ok_def)
next
  case (RangeReceive cid c ch m ch')
  with assms(3) show ?thesis
    by (auto simp: consumer_ok_def sh_defs recv_def split: list.splits if_splits)
qed (use assms(3) in \<open>auto simp: consumer_ok_def sh_defs\<close>)

lemma consumer_ok_other:
  assumes "consumer_ok sh cn" and "\<forall>c. owned_by (pc cn) = Some c \<longrightarrow> (\<exists>app. grows_by i app sh sh' c)"
  shows "consumer_ok sh' cn"
  unfolding consumer_ok_def
proof (intro conjI allI impI)
  fix c
  assume own: "owned_by (pc cn) = Some c"
  with assms obtain ch app where "chan_at sh c = Some ch"
    "wire cn @ in_hand (pc cn) @ chan_buf ch = map snd (accepted sh c)" "grows_by i app sh sh' c"
    unfolding consumer_ok_def by blast
  then show "\<exists>ch'. chan_at sh' c = Some ch' \<and>
      wire cn @ in_hand (pc cn) @ chan_buf ch' = map snd (accepted sh' c)"
    by (auto simp: grows_by_def)
qed (use assms(1) in \<open>simp add: consumer_ok_def\<close>)

lemma producer_ok_at:
  "producer_ok sh j cn \<Longrightarrow> subseq (from_conn j (accepted sh c))
     (if c \<in> pending (pc cn) then butlast (handled cn) else handled cn)"
  unfolding producer_ok_def by blast

lemma producer_ok_all:
  assumes "producer_ok sh j cn"
  shows "subseq (from_conn j (accepted sh c)) (handled cn)"
proof (cases "c \<in> pending (pc cn)")
  case True
  with producer_ok_at [OF assms, of c] show ?thesis by (simp add: subseq_butlast)
next
  case False
  with producer_ok_at [OF assms, of c] show ?thesis by simp
qed

lemma conn_step_producer_ok:
  assumes "conn_step env i (cn, sh) (cn', sh')" and "reg_ok sh" and "producer_ok sh i cn"
  shows "producer_ok sh' i cn'"
  using assms(1)
proof cases
  case (ReadBroadcast m ms order)
  from assms(2) have "reg_inv (registry (sb sh), broker_heap (sb sh))" by (simp add: reg_ok_def)
  from snapshot_distinct [OF this ReadBroadcast(6,7)] ReadBroadcast
    producer_ok_all [OF assms(3)] show ?thesis
    by (auto simp: producer_ok_def)
next
  case (SendTaken m c cs ch ch')
  with assms(3) obtain ms where ms: "handled cn = ms @ [m]" "distinct (c # cs)"
    by (auto simp: producer_ok_def)
  have at: "subseq (from_conn i (accepted sh d)) (if d = c \<or> d \<in> set cs then ms else ms @ [m])" for d
    using producer_ok_at [OF assms(3), of d] SendTaken(3) ms by (auto split: if_splits)
  have sent: "\<forall>d. subseq (from_conn i (accepted sh' d)) (if d \<in> set cs then ms else ms @ [m])"
  proof
    fix d
    show "subseq (from_conn i (accepted sh' d)) (if d \<in> set cs then ms else ms @ [m])"
    proof (cases "d = c")
      case True
      have "from_conn i (accepted sh' c) = from_conn i (accepted sh c) @ [m]"
        by (simp add: SendTaken(2) sh_defs from_conn_def)
      with at [of c] ms(2) True show ?thesis by simp
    next
      case False
      with at [of d] SendTaken(2) show ?thesis by (simp add: sh_defs)
    qed
  qed
  have "\<forall>d \<in> set cs. chan_at sh' d \<noteq> None"
    using assms(3) SendTaken(2,3) by (simp add: producer_ok_def sh_defs)
  with ms sent show ?thesis
    by (simp add: producer_ok_def SendTaken(1)) metis
next
  case (Start cid c b')
  then show ?thesis using assms(3) by (simp add: producer_ok_def)
qed (use assms(3) producer_ok_all [OF assms(3)] in
  \<open>auto simp: producer_ok_def sh_defs intro: list_emb_append2 subseq_order.trans\<close>)

lemma producer_ok_other:
  assumes "producer_ok sh j cn" and "\<forall>c. chan_at sh c \<noteq> None \<longrightarrow> chan_at sh' c \<noteq> None"
    and "\<forall>c. from_conn j (accepted sh' c) = from_conn j (accepted sh c)"
  shows "producer_ok sh' j cn"
  using assms by (simp add: producer_ok_def)

lemma conn_step_accepted:
  assumes "conn_step env i (cn, sh) (cn', sh')"
  shows "\<exists>app. accepted sh' c = accepted sh c @ app \<and> (\<forall>x \<in> set app. fst x = i) \<and>
    (app \<noteq> [] \<longrightarrow> chan_at sh' c \<noteq> None)"
  using assms
proof cases
  case (SendTaken m d cs ch ch')
  then show ?thesis
    by (cases "c = d") (auto simp: sh_defs intro!: exI [of _ "[(i, m)]"] exI [of _ "[]"])
qed (auto simp: sh_defs)

lemma sys_fifo_conn:
  assumes "conn_step env i (conns s ! i, shr s) (cn', sh')" and "i < length (conns s)"
    and "sys_fifo s" and "reg_ok (shr s)"
  shows "sys_fifo (s\<lparr>conns := (conns s)[i := cn'], shr := sh'\<rparr>)"
proof -
  let ?cns = "conns s" and ?sh = "shr s"
  note step = assms(1)
  have ok: "consumer_ok ?sh (?cns ! j)" "producer_ok ?sh j (?cns ! j)" if "j < length ?cns" for j
    using assms(3) that by (simp_all add: sys_fifo_def)
  have sep: "owned_by (pc (?cns ! j)) = None \<or> owned_by (pc (?cns ! j)) \<noteq> owned_by (pc (?cns ! k))"
    if "j < length ?cns" "k < length ?cns" "j \<noteq> k" for j k
    using assms(3) that by (simp add: sys_fifo_def)
  have acc: "\<forall>c. chan_at ?sh c = None \<longrightarrow> accepted ?sh c = []"
    "x \<in> set (accepted ?sh c) \<Longrightarrow> fst x < length ?cns" for c x
    using assms(3) by (auto simp: sys_fifo_def)
  have alloc: "chan_at ?sh c \<noteq> None" if "j < length ?cns" "owned_by (pc (?cns ! j)) = Some c" for j c
    using ok(1) [OF that(1)] that(2) by (auto simp: consumer_ok_def)
  have other: "consumer_ok sh' (?cns ! j) \<and> producer_ok sh' j (?cns ! j)"
    if "j < length ?cns" "j \<noteq> i" for j
  proof
    show "consumer_ok sh' (?cns ! j)"
    proof (rule consumer_ok_other [OF ok(1) [OF that(1)]], intro allI impI)
      fix c
      assume own: "owned_by (pc (?cns ! j)) = Some c"
      with sep [OF that(1) assms(2) that(2)] have "owned_by (pc (?cns ! i)) \<noteq> Some c" by auto
      from conn_step_channel [OF step assms(4) alloc [OF that(1) own] this]
      show "\<exists>app. grows_by i app ?sh sh' c" .
    qed
    have "from_conn j (accepted sh' c) = from_conn j (accepted ?sh c)" for c
      using conn_step_accepted [OF step, of c] that(2) from_conn_other [of _ i j]
      by (auto simp: from_conn_append)
    then show "producer_ok sh' j (?cns ! j)"
      using producer_ok_other [OF ok(2) [OF that(1)]] conn_step_allocated [OF step assms(4)] by blast
  qed
  have own: "owned_by (pc cn') = None \<or> owned_by (pc cn') \<noteq> owned_by (pc (?cns ! j))"
    if "j < length ?cns" "j \<noteq> i" for j
    using conn_step_owned [OF step] sep [OF assms(2) that(1)] alloc [OF that(1)] that(2) by force
  have new: "chan_at sh' c = None \<Longrightarrow> accepted sh' c = []"
    "x \<in> set (accepted sh' c) \<Longrightarrow> fst x < length ?cns" for c x
  proof -
    from conn_step_accepted [OF step, of c] obtain app where app:
      "accepted sh' c = accepted ?sh c @ app" "\<forall>x \<in> set app. fst x = i"
      "app \<noteq> [] \<longrightarrow> chan_at sh' c \<noteq> None"
      by blast
    show "chan_at sh' c = None \<Longrightarrow> accepted sh' c = []"
      using app(1,3) acc(1) conn_step_allocated [OF step assms(4), of c] by auto
    show "x \<in> set (accepted sh' c) \<Longrightarrow> fst x < length ?cns"
      using app(1,2) acc(2) [of x c] assms(2) by auto
  qed
  have "owned_by (pc (?cns[i := cn'] ! j)) = None \<or>
      owned_by (pc (?cns[i := cn'] ! j)) \<noteq> owned_by (pc (?cns[i := cn'] ! k))"
    if "j < length ?cns" "k < length ?cns" "j \<noteq> k" for j k
    using own [of j] own [of k] sep [OF that] that
    by (cases "j = i"; cases "k = i") (auto simp: nth_list_update)
  then show ?thesis
    using other new conn_step_consumer_ok [OF step assms(4) ok(1) [OF assms(2)] acc(1)]
      conn_step_producer_ok [OF step assms(4) ok(2) [OF assms(2)]] assms(2)
    by (simp add: sys_fifo_def) (simp add: nth_list_update)
qed

lemma sys_fifo_step:
  assumes "sys_step env s s'" and "sys_fifo s" and "sys_safe s"
  shows "sys_fifo s'"
  using assms(1)
proof cases
  case (Conn i cn' sh')
  with sys_fifo_conn [OF Conn(4,3) assms(2)] assms(3) show ?thesis by (simp add: sys_safe_def)
next
  case Close
  then show ?thesis
  proof cases
    case (CloseRegistry order r' h')
    with assms(3) Registry_Close_keeps [of "registry (sb (shr s))" "broker_heap (sb (shr s))" order]
    have "same_bufs (broker_heap (sb (shr s))) h'"
      by (auto simp: sys_safe_def reg_ok_def)
    then have bufs: "map_option chan_buf (h' c) = map_option chan_buf (chan_at (shr s) c)" for c
      by (simp add: same_bufs_def)
    then have none: "h' c = None \<longleftrightarrow> chan_at (shr s) c = None" for c
      by (metis map_option_is_None)
    have "consumer_ok (set_registry r' h' (shr s)) cn" if "consumer_ok (shr s) cn" for cn
      by (rule consumer_ok_other [OF that]) (auto simp: sh_defs bufs intro!: exI [of _ "[]"])
    with assms(2) none CloseRegistry(1) show ?thesis
      by (simp add: sys_fifo_def sh_defs producer_ok_def)
  qed (use assms(2) in \<open>simp_all add: sys_fifo_def sh_defs consumer_ok_def producer_ok_def\<close>)
qed

lemma sys_start_fifo:
  assumes "sys_start mode s"
  shows "sys_fifo s"
proof -
  have "handled cn = [] \<and> wire cn = [] \<and> pc cn \<in> {Reading, Producer_done, Starting, Dequeueing}"
    if "cn \<in> set (conns s)" for cn
    using assms that by (auto simp: sys_start_def split: if_splits)
  then have "consumer_ok sh cn \<and> owned_by (pc cn) = None \<and> handled cn = [] \<and> (\<forall>m cs. pc cn \<noteq> Sending m cs)
      \<and> pending (pc cn) = {}"
    if "cn \<in> set (conns s)" for cn sh
    using that by (fastforce simp: consumer_ok_def)
  moreover have "accepted (shr s) c = []" for c
    using assms by (auto simp: sys_start_def)
  ultimately show ?thesis
    by (simp add: sys_fifo_def producer_ok_def from_conn_def)
qed

lemma sys_runs_fifo:
  assumes "sys_runs env s s'" and "sys_fifo s" and "sys_safe s"
    and "0 < GetEnvInt env ''CONSUMER_CHANNEL_BUFFER_SIZE'' 10000"
  shows "sys_fifo s'"
  using assms
  by (induction rule: rtranclp_induct) (auto intro: sys_fifo_step sys_runs_safe)

text \<open>A connection reads its script.\<close>

text \<open>A handler holds at most one message.\<close>

lemma conn_step_in_hand:
  "conn_step env i (cn, sh) (cn', sh') \<Longrightarrow> length (in_hand (pc cn)) \<le> 1 \<Longrightarrow> length (in_hand (pc cn')) \<le> 1"
  by (erule conn_stepE) auto

lemma sys_runs_in_hand:
  assumes "sys_runs env s0 s" and "sys_start mode s0" and "i < length (conns s)"
  shows "length (in_hand (pc (conns s ! i))) \<le> 1"
proof -
  have "\<forall>cn \<in> set (conns s). length (in_hand (pc cn)) \<le> 1" using assms(1)
  proof (induction rule: rtranclp_induct)
    case base
    have "in_hand (pc cn) = []" if "cn \<in> set (conns s0)" for cn
      using assms(2) that by (auto simp: sys_start_def split: if_splits)
    then show ?case by simp
  next
    case (step s1 s2)
    from step(2) show ?case
    proof cases
      case (Conn i cn' sh')
      with step(3) conn_step_in_hand [OF Conn(4)] show ?thesis
        by (auto dest!: subsetD [OF set_update_subset_insert])
    next
      case Close
      then have "conns s2 = conns s1" by (auto elim: close_step.cases)
      with step(3) show ?thesis by simp
    qed
  qed
  with assms(3) show ?thesis by simp
qed

lemma sys_step_script:
  assumes "sys_step env s s'"
  shows "length (conns s') = length (conns s) \<and>
    (\<forall>j < length (conns s). handled (conns s' ! j) @ todo (conns s' ! j) =
       handled (conns s ! j) @ todo (conns s ! j))"
  using assms
proof cases
  case (Conn i cn' sh')
  then have "handled cn' @ todo cn' = handled (conns s ! i) @ todo (conns s ! i)"
    by (auto elim!: conn_stepE)
  with Conn show ?thesis by (simp add: nth_list_update)
next
  case Close
  then show ?thesis by cases simp_all
qed

lemma sys_runs_script:
  assumes "sys_runs env s s'"
  shows "length (conns s') = length (conns s)"
    and "j < length (conns s) \<Longrightarrow> handled (conns s' ! j) @ todo (conns s' ! j) =
       handled (conns s ! j) @ todo (conns s ! j)"
  using assms by (induction rule: rtranclp_induct) (auto dest!: sys_step_script)

section \<open>Conservation in queue mode\<close>

definition conn_messages :: "conn \<Rightarrow> bytes list" where
  "conn_messages cn = todo cn @ wire cn @
     (case pc cn of Selecting m \<Rightarrow> [m] | WritingQ m \<Rightarrow> [m] | _ \<Rightarrow> [])"

definition queue_mode_pc :: "control \<Rightarrow> bool" where
  "queue_mode_pc p \<longleftrightarrow> p \<in> {Reading, Producer_done, Dequeueing, Queue_done} \<union>
     range Selecting \<union> range WritingQ"

definition all_messages :: "system \<Rightarrow> bytes multiset" where
  "all_messages s = mset (concat (map conn_messages (conns s))) +
     mset (mq_contents (queue (sb (shr s)))) + mset (refused (shr s))"

lemma mset_concat_update:
  "i < length xs \<Longrightarrow>
   mset (concat (map f (xs[i := y]))) + mset (f (xs ! i)) = mset (concat (map f xs)) + mset (f y)"
proof (induction xs arbitrary: i)
  case (Cons a xs)
  then show ?case by (cases i) (auto simp: algebra_simps)
qed simp

lemma Enqueue_select_contents:
  "Enqueue_select m q = Inr (e, q') \<Longrightarrow>
   mq_contents q' = (if e = None then mq_contents q @ [m] else mq_contents q)"
  by (auto simp: Enqueue_select_def bind_go_eq_Inr mq_contents_def try_send_buf split: option.splits if_splits)

lemma Dequeue_contents:
  "Dequeue q = (r, q') \<Longrightarrow>
   mq_contents q = (case r of Inr m \<Rightarrow> m # mq_contents q' | Inl _ \<Rightarrow> mq_contents q')"
  by (auto simp: Dequeue_def mq_contents_def recv_def split: option.splits list.splits if_splits)

text \<open>One step moves messages around, and the connections stay in queue mode.\<close>

lemma conn_step_messages:
  assumes "conn_step env i (cn, sh) (cn', sh')" and "queue_mode_pc (pc cn)"
    and "broker_mode (sb sh) = Queue"
  shows "mset (conn_messages cn') + mset (mq_contents (queue (sb sh'))) + mset (refused sh') =
      mset (conn_messages cn) + mset (mq_contents (queue (sb sh))) + mset (refused sh)"
    and "queue_mode_pc (pc cn')" and "broker_mode (sb sh') = Queue"
proof -
  show "mset (conn_messages cn') + mset (mq_contents (queue (sb sh'))) + mset (refused sh') =
      mset (conn_messages cn) + mset (mq_contents (queue (sb sh))) + mset (refused sh)"
    using assms(1)
  proof cases
    case (SelectTaken m q')
    with Enqueue_select_contents [OF SelectTaken(4)] show ?thesis
      by (simp add: conn_messages_def sh_defs)
  next
    case (SelectFull m e q')
    with Enqueue_select_contents [OF SelectFull(4)] show ?thesis
      by (simp add: conn_messages_def sh_defs)
  next
    case (DequeueOk m q')
    with Dequeue_contents [OF DequeueOk(4)] show ?thesis
      by (simp add: conn_messages_def sh_defs)
  next
    case (DequeueError e q')
    with Dequeue_contents [OF DequeueError(4)] show ?thesis
      by (simp add: conn_messages_def sh_defs)
  qed (use assms(2,3) in \<open>auto simp: conn_messages_def sh_defs queue_mode_pc_def\<close>)
  show "queue_mode_pc (pc cn')" "broker_mode (sb sh') = Queue"
    using assms by (auto elim!: conn_stepE simp: queue_mode_pc_def sh_defs)
qed

definition sys_queue_mode :: "system \<Rightarrow> bool" where
  "sys_queue_mode s \<longleftrightarrow> broker_mode (sb (shr s)) = Queue \<and>
     (\<forall>cn \<in> set (conns s). queue_mode_pc (pc cn))"

lemma sys_step_messages:
  assumes "sys_step env s s'" and "sys_queue_mode s"
  shows "all_messages s' = all_messages s \<and> sys_queue_mode s'"
  using assms(1)
proof cases
  case (Conn i cn' sh')
  have q: "queue_mode_pc (pc (conns s ! i))" "broker_mode (sb (shr s)) = Queue"
    using assms(2) Conn(3) by (auto simp: sys_queue_mode_def)
  note step = conn_step_messages [OF Conn(4) q]
  have "all_messages s' + mset (conn_messages (conns s ! i)) =
      all_messages s + mset (conn_messages (conns s ! i))"
    using mset_concat_update [OF Conn(3), of conn_messages cn'] step(1) Conn(1)
    by (simp add: all_messages_def algebra_simps)
  moreover have "sys_queue_mode s'"
    using assms(2) step(2,3) Conn(1) set_update_subset_insert [of "conns s" i cn']
    by (auto simp: sys_queue_mode_def)
  ultimately show ?thesis by simp
next
  case Close
  then show ?thesis
    by cases (use assms(2) in \<open>auto simp: all_messages_def sys_queue_mode_def sh_defs mq_contents_def
       close_chan_def split: option.splits if_splits\<close>)
qed

lemma sys_runs_messages:
  assumes "sys_runs env s s'" and "sys_queue_mode s"
  shows "all_messages s' = all_messages s \<and> sys_queue_mode s'"
  using assms by (induction rule: rtranclp_induct) (auto dest: sys_step_messages)

lemma sys_start_messages:
  assumes "sys_start Queue s"
  shows "sys_queue_mode s" and "all_messages s = mset (concat (map todo (conns s)))"
proof -
  have cn: "wire cn = [] \<and> pc cn \<in> {Reading, Producer_done, Dequeueing}" if "cn \<in> set (conns s)" for cn
    using assms that by (auto simp: sys_start_def)
  obtain b where b: "NewBroker Queue = Inr b" "sb (shr s) = b" "refused (shr s) = []"
    using assms by (auto simp: sys_start_def)
  from NewBroker_state obtain b' where "NewBroker Queue = Inr b'" "broker_mode b' = Queue"
    "mq_contents (queue b') = []" by blast
  with b have b': "broker_mode b = Queue" "mq_contents (queue b) = []" by auto
  with cn b show "sys_queue_mode s"
    by (force simp: sys_queue_mode_def queue_mode_pc_def)
  have msgs: "map conn_messages (conns s) = map todo (conns s)"
    using cn by (force simp: conn_messages_def)
  show "all_messages s = mset (concat (map todo (conns s)))"
    unfolding all_messages_def msgs using b b' by simp
qed

section \<open>A run that panics\<close>

text \<open>One producer with two messages and one consumer, as they stand in the course of a run.\<close>

definition duo_sh :: "(string \<times> nat) list \<Rightarrow> heap \<Rightarrow> (nat \<times> bytes) list \<Rightarrow> panic option \<Rightarrow> shared" where
  "duo_sh regs h log pan =
     \<lparr>sb = \<lparr>broker_mode = Broadcast, registry = \<lparr>consumers = regs\<rparr>,
        queue = \<lparr>mq_queue = Some \<lparr>chan_buf = [], chan_cap = 10000, chan_closed = False\<rparr>, mq_size = 10000\<rparr>,
        broker_heap = h\<rparr>,
      crash = pan, accepted = (\<lambda>_. [])(0 := log), refused = [], entered = [], handed = []\<rparr>"

definition duo_conn :: "control \<Rightarrow> bytes list \<Rightarrow> bytes list \<Rightarrow> conn" where
  "duo_conn p ms hs = \<lparr>pc = p, todo = ms, handled = hs, wire = []\<rparr>"

definition duo :: "conn \<Rightarrow> control \<Rightarrow> shared \<Rightarrow> system" where
  "duo p c sh = \<lparr>conns = [p, duo_conn c [] []], shr = sh, closing = 0\<rparr>"

definition chan0 :: "bytes list \<Rightarrow> bool \<Rightarrow> heap" where
  "chan0 ms cl = [0 \<mapsto> \<lparr>chan_buf = ms, chan_cap = 10000, chan_closed = cl\<rparr>]"

lemmas duo_defs = duo_conn_def duo_sh_def chan0_def

lemma duo_producer:
  assumes "conn_step env 0 (p, sh) (p', sh')" and "crash sh = None"
  shows "sys_step env (duo p c sh) (duo p' c sh')"
  using Conn [of "duo p c sh" 0 env p' sh'] assms by (simp add: duo_def)

lemma duo_consumer:
  assumes "conn_step env 1 (duo_conn c [] [], sh) (duo_conn c' [] [], sh')" and "crash sh = None"
  shows "sys_step env (duo p c sh) (duo p c' sh')"
  using Conn [of "duo p c sh" 1 env "duo_conn c' [] []" sh'] assms by (simp add: duo_def)

lemma duo_run_1:
  "sys_runs (\<lambda>_. []) (duo (duo_conn Reading [m1, m2] []) Starting (duo_sh [] Map.empty [] None))
     (duo (duo_conn Reading [m2] [m1]) (Ranging cid 0) (duo_sh [(cid, 0)] (chan0 [m1] False) [(0, m1)] None))"
proof -
  let ?e = "\<lambda>_. [] :: string"
  have "conn_step ?e 1 (duo_conn Starting [] [], duo_sh [] Map.empty [] None)
      (duo_conn (Ranging cid 0) [] [], duo_sh [(cid, 0)] (chan0 [] False) [] None)"
    by (simp add: conn_step.simps duo_defs consumer_start_def GetEnvInt_def make_chan_def RegisterConsumer_def)
  note s1 = duo_consumer [OF this]
  have "conn_step ?e 0 (duo_conn Reading [m1, m2] [], duo_sh [(cid, 0)] (chan0 [] False) [] None)
      (duo_conn (Sending m1 [0]) [m2] [m1], duo_sh [(cid, 0)] (chan0 [] False) [] None)"
    using ReadBroadcast [of "duo_conn Reading [m1, m2] []" m1 "[m2]"
        "duo_sh [(cid, 0)] (chan0 [] False) [] None" "[cid]" ?e 0]
    by (simp add: duo_defs snapshot_def map_filter_simps)
  note s2 = duo_producer [OF this]
  have "conn_step ?e 0 (duo_conn (Sending m1 [0]) [m2] [m1], duo_sh [(cid, 0)] (chan0 [] False) [] None)
      (duo_conn (Sending m1 []) [m2] [m1], duo_sh [(cid, 0)] (chan0 [m1] False) [(0, m1)] None)"
    by (simp add: conn_step.simps duo_defs sh_defs try_send_def)
  note s3 = duo_producer [OF this]
  have "conn_step ?e 0 (duo_conn (Sending m1 []) [m2] [m1], duo_sh [(cid, 0)] (chan0 [m1] False) [(0, m1)] None)
      (duo_conn Reading [m2] [m1], duo_sh [(cid, 0)] (chan0 [m1] False) [(0, m1)] None)"
    by (simp add: conn_step.simps duo_defs)
  note s4 = duo_producer [OF this]
  have c: "crash (duo_sh rs h l None) = None" for rs h l by (simp add: duo_sh_def)
  show ?thesis
    by (rule sys_runs_step, rule s1 [OF c], rule sys_runs_step, rule s2 [OF c],
        rule sys_runs_step, rule s3 [OF c], rule sys_runs_step, rule s4 [OF c], rule rtranclp.rtrancl_refl)
qed

lemma duo_run_2:
  "sys_runs (\<lambda>_. [])
     (duo (duo_conn Reading [m2] [m1]) (Ranging cid 0) (duo_sh [(cid, 0)] (chan0 [m1] False) [(0, m1)] None))
     (duo (duo_conn (Sending m2 [0]) [] [m1, m2]) (Left 0 [m1])
        (duo_sh [] (chan0 [] True) [(0, m1)] (Some SendOnClosedChannel)))"
proof -
  let ?e = "\<lambda>_. [] :: string"
  have "conn_step ?e 1 (duo_conn (Ranging cid 0) [] [], duo_sh [(cid, 0)] (chan0 [m1] False) [(0, m1)] None)
      (duo_conn (Writing cid 0 m1) [] [], duo_sh [(cid, 0)] (chan0 [] False) [(0, m1)] None)"
    by (simp add: conn_step.simps duo_defs sh_defs recv_def)
  note s1 = duo_consumer [OF this]
  have "conn_step ?e 0 (duo_conn Reading [m2] [m1], duo_sh [(cid, 0)] (chan0 [] False) [(0, m1)] None)
      (duo_conn (Sending m2 [0]) [] [m1, m2], duo_sh [(cid, 0)] (chan0 [] False) [(0, m1)] None)"
    using ReadBroadcast [of "duo_conn Reading [m2] [m1]" m2 "[]"
        "duo_sh [(cid, 0)] (chan0 [] False) [(0, m1)] None" "[cid]" ?e 0]
    by (simp add: duo_defs snapshot_def map_filter_simps)
  note s2 = duo_producer [OF this]
  have "conn_step ?e 1 (duo_conn (Writing cid 0 m1) [] [], duo_sh [(cid, 0)] (chan0 [] False) [(0, m1)] None)
      (duo_conn (Leaving cid 0 [m1]) [] [], duo_sh [(cid, 0)] (chan0 [] False) [(0, m1)] None)"
    by (simp add: conn_step.simps duo_defs)
  note s3 = duo_consumer [OF this]
  have "conn_step ?e 1 (duo_conn (Leaving cid 0 [m1]) [] [], duo_sh [(cid, 0)] (chan0 [] False) [(0, m1)] None)
      (duo_conn (Left 0 [m1]) [] [], duo_sh [] (chan0 [] True) [(0, m1)] None)"
    by (simp add: conn_step.simps duo_defs sh_defs UnregisterConsumer_def close_ref_def close_chan_def)
  note s4 = duo_consumer [OF this]
  have "conn_step ?e 0 (duo_conn (Sending m2 [0]) [] [m1, m2], duo_sh [] (chan0 [] True) [(0, m1)] None)
      (duo_conn (Sending m2 [0]) [] [m1, m2],
       duo_sh [] (chan0 [] True) [(0, m1)] (Some SendOnClosedChannel))"
    by (simp add: conn_step.simps duo_defs try_send_def)
  note s5 = duo_producer [OF this]
  have c: "crash (duo_sh rs h l None) = None" for rs h l by (simp add: duo_sh_def)
  show ?thesis
    by (rule sys_runs_step, rule s1 [OF c], rule sys_runs_step, rule s2 [OF c],
        rule sys_runs_step, rule s3 [OF c], rule sys_runs_step, rule s4 [OF c],
        rule sys_runs_step, rule s5 [OF c], rule rtranclp.rtrancl_refl)
qed

lemma duo_start:
  "sys_start Broadcast (duo (duo_conn Reading ms []) Starting (duo_sh [] Map.empty [] None))"
  by (simp add: sys_start_def duo_def duo_conn_def duo_sh_def NewBroker_def NewMemoryMessageQueue_def
      make_chan_def NewBroadcastRegistry_def fun_upd_idem_iff)

lemma duo_run:
  "sys_runs (\<lambda>_. []) (duo (duo_conn Reading [m1, m2] []) Starting (duo_sh [] Map.empty [] None))
     (duo (duo_conn (Sending m2 [0]) [] [m1, m2]) (Left 0 [m1])
        (duo_sh [] (chan0 [] True) [(0, m1)] (Some SendOnClosedChannel)))"
  by (rule rtranclp_trans [OF duo_run_1 duo_run_2])

text \<open>One message through the queue.\<close>

definition queue_sh :: "bytes list \<Rightarrow> (nat \<times> bytes) list \<Rightarrow> (nat \<times> bytes) list \<Rightarrow> shared" where
  "queue_sh ms ins outs =
     \<lparr>sb = \<lparr>broker_mode = Queue, registry = \<lparr>consumers = []\<rparr>,
        queue = \<lparr>mq_queue = Some \<lparr>chan_buf = ms, chan_cap = 10000, chan_closed = False\<rparr>, mq_size = 10000\<rparr>,
        broker_heap = Map.empty\<rparr>,
      crash = None, accepted = \<lambda>_. [], refused = [], entered = ins, handed = outs\<rparr>"

lemma queue_start: "sys_start Queue (duo (duo_conn Reading ms []) Dequeueing (queue_sh [] [] []))"
  by (simp add: sys_start_def duo_def duo_conn_def queue_sh_def NewBroker_def NewMemoryMessageQueue_def
      make_chan_def NewBroadcastRegistry_def)

lemma queue_run:
  "sys_runs env (duo (duo_conn Reading [m] []) Dequeueing (queue_sh [] [] []))
     (duo (duo_conn Reading [] [m]) (WritingQ m) (queue_sh [] [(0, m)] [(1, m)]))"
proof -
  have "conn_step env 0 (duo_conn Reading [m] [], queue_sh [] [] []) (duo_conn (Selecting m) [] [m], queue_sh [] [] [])"
    by (simp add: conn_step.simps duo_conn_def queue_sh_def)
  note s1 = duo_producer [OF this]
  have "conn_step env 0 (duo_conn (Selecting m) [] [m], queue_sh [] [] []) (duo_conn Reading [] [m], queue_sh [m] [(0, m)] [])"
    by (simp add: conn_step.simps duo_conn_def queue_sh_def Enqueue_select_def try_send_def set_queue_def log_enter_def)
  note s2 = duo_producer [OF this]
  have "conn_step env 1 (duo_conn Dequeueing [] [], queue_sh [m] [(0, m)] [])
      (duo_conn (WritingQ m) [] [], queue_sh [] [(0, m)] [(1, m)])"
    by (simp add: conn_step.simps duo_conn_def queue_sh_def Dequeue_def recv_def set_queue_def log_hand_def)
  note s3 = duo_consumer [OF this]
  have c: "crash (queue_sh ms ins outs) = None" for ms ins outs by (simp add: queue_sh_def)
  show ?thesis
    by (rule sys_runs_step, rule s1 [OF c], rule sys_runs_step, rule s2 [OF c],
        rule sys_runs_step, rule s3 [OF c], rule rtranclp.rtrancl_refl)
qed

section \<open>Properties\<close>

text \<open>C9: Whatever the goroutines do and however they interleave, with a positive channel buffer
  the only panic the running broker can have is a send on a closed channel, and that only after a
  consumer has unregistered or the shutdown has begun: no channel is ever closed twice and no
  registry operation panics. In every reachable state the registry is consistent and every
  registered channel is open.\<close>

theorem running_broker_panics:
  assumes "sys_start mode s0" and "0 < GetEnvInt env ''CONSUMER_CHANNEL_BUFFER_SIZE'' 10000"
    and "sys_runs env s0 s"
  shows "crash (shr s) \<in> {None, Some SendOnClosedChannel} \<and>
    (crash (shr s) \<noteq> None \<longrightarrow> departed s) \<and>
    reg_inv (registry (sb (shr s)), broker_heap (sb (shr s)))"
  using sys_runs_safe [OF assms(3) sys_start_safe [OF assms(1)] assms(2)]
  by (simp add: sys_safe_def reg_ok_def)

theorem running_broker_panics_witness:
  "departed (duo (duo_conn (Sending [2] [0]) [] [[1], [2]]) (Left 0 [[1]])
     (duo_sh [] (chan0 [] True) [(0, [1])] (Some SendOnClosedChannel)))"
  using running_broker_panics [OF duo_start _ duo_run [of "[1]" "[2]"]]
  by (simp add: GetEnvInt_def duo_def duo_sh_def)

text \<open>C13: A consumer that goes away can take the whole broker down: there is a run, without any
  shutdown, in which a producer has collected the channels, the consumer's write fails and its
  handler unregisters and closes its channel, and the producer's send on it panics.\<close>

theorem departing_consumer_crashes_broker:
  "\<exists>s0 s. sys_start Broadcast s0 \<and> sys_runs (\<lambda>_. []) s0 s \<and> closing s = 0 \<and>
     crash (shr s) = Some SendOnClosedChannel \<and> pc (conns s ! 1) = Left 0 [m1]"
proof -
  let ?s = "duo (duo_conn (Sending [] [0]) [] [m1, []]) (Left 0 [m1])
    (duo_sh [] (chan0 [] True) [(0, m1)] (Some SendOnClosedChannel))"
  have "closing ?s = 0 \<and> crash (shr ?s) = Some SendOnClosedChannel \<and> pc (conns ?s ! 1) = Left 0 [m1]"
    by (simp add: duo_def duo_sh_def duo_conn_def)
  with duo_start duo_run [of m1 "[]"] show ?thesis by blast
qed

text \<open>C7: Delivery in broadcast mode, with a positive channel buffer, under every interleaving of any
  number of producers and consumers and the shutdown. \<open>accepted\<close> records every send on a consumer's
  channel that succeeded, with the connection it was made for. What the consumer's handler has
  written, then the at most one message it took and has not written (or, when its connection failed, could not write), then
  what waits in the channel is exactly this record, in its order: no message the channel accepted is
  dropped, doubled or overtaken. And of every producer the record has a subsequence of the messages it
  sent: in order, none twice.\<close>

theorem broadcast_delivery_order:
  assumes "sys_start mode s0" and "0 < GetEnvInt env ''CONSUMER_CHANNEL_BUFFER_SIZE'' 10000"
    and "sys_runs env s0 s" and "i < length (conns s)" and "owned_by (pc (conns s ! i)) = Some c"
  shows "\<exists>ch. chan_at (shr s) c = Some ch \<and>
    wire (conns s ! i) @ in_hand (pc (conns s ! i)) @ chan_buf ch = map snd (accepted (shr s) c) \<and>
    length (in_hand (pc (conns s ! i))) \<le> 1 \<and>
    (\<forall>x \<in> set (accepted (shr s) c). fst x < length (conns s0)) \<and>
    (\<forall>j < length (conns s0). subseq (from_conn j (accepted (shr s) c)) (todo (conns s0 ! j)))"
proof -
  have fifo: "sys_fifo s"
    by (rule sys_runs_fifo [OF assms(3) sys_start_fifo [OF assms(1)] sys_start_safe [OF assms(1)] assms(2)])
  with assms(4) have "consumer_ok (shr s) (conns s ! i)" by (simp add: sys_fifo_def)
  with assms(5) obtain ch where ch: "chan_at (shr s) c = Some ch"
    "wire (conns s ! i) @ in_hand (pc (conns s ! i)) @ chan_buf ch = map snd (accepted (shr s) c)"
    by (auto simp: consumer_ok_def)
  note len = sys_runs_script(1) [OF assms(3)]
  have "subseq (from_conn j (accepted (shr s) c)) (todo (conns s0 ! j))" if "j < length (conns s0)" for j
  proof -
    have "subseq (from_conn j (accepted (shr s) c)) (handled (conns s ! j))"
      using fifo that len by (intro producer_ok_all) (simp add: sys_fifo_def)
    moreover have "handled (conns s ! j) @ todo (conns s ! j) = todo (conns s0 ! j)"
      using sys_runs_script(2) [OF assms(3) that] assms(1) that by (simp add: sys_start_def)
    ultimately show ?thesis by (metis list_emb_prefix)
  qed
  with ch fifo len sys_runs_in_hand [OF assms(3,1,4)] show ?thesis
    by (intro exI [of _ ch]) (simp add: sys_fifo_def)
qed

theorem broadcast_delivery_order_witness:
  "\<exists>s. sys_runs (\<lambda>_. []) (duo (duo_conn Reading [[1], [2]] []) Starting (duo_sh [] Map.empty [] None)) s \<and>
     accepted (shr s) 0 = [(0, [1])] \<and> subseq (from_conn 0 (accepted (shr s) 0)) [[1], [2]]"
proof -
  let ?start = "duo (duo_conn Reading [[1], [2]] []) Starting (duo_sh [] Map.empty [] None)"
  let ?now = "duo (duo_conn Reading [[2]] [[1]]) (Ranging ''a'' 0)
    (duo_sh [(''a'', 0)] (chan0 [[1]] False) [(0, [1])] None)"
  have "0 < GetEnvInt (\<lambda>_. []) ''CONSUMER_CHANNEL_BUFFER_SIZE'' 10000" "1 < length (conns ?now)"
    "owned_by (pc (conns ?now ! 1)) = Some 0"
    by (simp_all add: GetEnvInt_def duo_def duo_conn_def)
  from broadcast_delivery_order [OF duo_start this(1) duo_run_1 this(2,3)]
  have "\<forall>j < length (conns ?start). subseq (from_conn j (accepted (shr ?now) 0)) (todo (conns ?start ! j))" by blast
  then show ?thesis using duo_run_1 [of "[1]" "[2]" "''a''"]
    by (intro exI [of _ ?now]) (simp add: duo_def duo_sh_def duo_conn_def All_less_Suc)
qed

text \<open>C8: Nothing is duplicated or made up in queue mode, under every interleaving of producers,
  competing consumers and the shutdown: at any time the messages the producers started with are,
  as a multiset, those not read yet, in the hands of a handler, waiting in the queue, written to a
  consumer, or refused (queue full, closed, or the write failed). In particular each message is
  written to at most one consumer.\<close>

theorem queue_mode_conserves_messages:
  assumes "sys_start Queue s0" and "sys_runs env s0 s"
  shows "mset (concat (map todo (conns s0))) =
      mset (concat (map conn_messages (conns s))) +
      mset (mq_contents (queue (sb (shr s)))) + mset (refused (shr s)) \<and>
    mset (concat (map wire (conns s))) \<subseteq># mset (concat (map todo (conns s0)))"
proof -
  from sys_runs_messages [OF assms(2) sys_start_messages(1) [OF assms(1)]]
  have all: "all_messages s = mset (concat (map todo (conns s0)))"
    by (simp add: sys_start_messages(2) [OF assms(1)])
  have "mset (wire cn) \<subseteq># mset (conn_messages cn)" for cn
    by (simp add: conn_messages_def)
  then have "mset (concat (map wire cs)) \<subseteq># mset (concat (map conn_messages cs))" for cs
    by (induction cs) (simp_all add: subset_mset.add_mono)
  then have "mset (concat (map wire (conns s))) \<subseteq># all_messages s"
    unfolding all_messages_def
    by (metis subset_mset.order_trans mset_subset_eq_add_left union_assoc)
  with all show ?thesis
    by (simp add: all_messages_def)
qed

theorem queue_mode_conserves_messages_witness:
  "mset (concat (map conn_messages (conns (duo (duo_conn Reading [] [[1]]) (WritingQ [1])
     (queue_sh [] [(0, [1])] [(1, [1])]))))) =
     {#[1 :: byte]#}"
  using queue_mode_conserves_messages [OF queue_start queue_run [of "\<lambda>_. []" "[1]"]]
  by (simp add: duo_def duo_conn_def queue_sh_def mq_contents_def)

end
