(* ===== verification/BrokerFifo.thy ===== *)
theory BrokerFifo
  imports BrokerSystem
begin

text \<open>
  Queue mode of the running broker as an abstract machine: one bounded queue between any number of
  producers and consumers. Every run of the interleaved system is a run of this machine, and of the
  machine the order of delivery is read off.
\<close>

section \<open>A bounded queue between producers and consumers\<close>

text \<open>What each producer has still to send, the queue with the producer of each message, all that
  ever entered the queue and what was handed to which consumer, both in order.\<close>

record fifo =
  f_open :: bool
  f_pending :: "nat \<Rightarrow> bytes list"
  f_queue :: "(nat \<times> bytes) list"
  f_arrived :: "(nat \<times> bytes) list"
  f_served :: "(nat \<times> nat \<times> bytes) list"

inductive fifo_step :: "nat \<Rightarrow> fifo \<Rightarrow> fifo \<Rightarrow> bool" for cap :: nat where
  Arrive: "f_open f \<Longrightarrow> f_pending f i = m # ms \<Longrightarrow> length (f_queue f) < cap \<Longrightarrow>
    fifo_step cap f (f\<lparr>f_pending := (f_pending f)(i := ms), f_queue := f_queue f @ [(i, m)],
                       f_arrived := f_arrived f @ [(i, m)]\<rparr>)"
| Refuse: "f_pending f i = m # ms \<Longrightarrow> \<not> f_open f \<or> cap \<le> length (f_queue f) \<Longrightarrow>
    fifo_step cap f (f\<lparr>f_pending := (f_pending f)(i := ms)\<rparr>)"
| Serve: "f_queue f = x # q \<Longrightarrow>
    fifo_step cap f (f\<lparr>f_queue := q, f_served := f_served f @ [(j, x)]\<rparr>)"
| Stop: "f_open f \<Longrightarrow> fifo_step cap f (f\<lparr>f_open := False\<rparr>)"
| Discard: "\<not> f_open f \<Longrightarrow> fifo_step cap f (f\<lparr>f_queue := []\<rparr>)"

abbreviation fifo_runs :: "nat \<Rightarrow> fifo \<Rightarrow> fifo \<Rightarrow> bool" where
  "fifo_runs cap \<equiv> rtranclp (fifo_step cap)"

definition fifo_start :: "(nat \<Rightarrow> bytes list) \<Rightarrow> fifo" where
  "fifo_start P = \<lparr>f_open = True, f_pending = P, f_queue = [], f_arrived = [], f_served = []\<rparr>"

text \<open>The queue is a segment of what arrived, behind what was served; what is behind it was discarded.
  Of each producer some messages were tried, and those that arrived are in order.\<close>

definition fifo_inv :: "nat \<Rightarrow> (nat \<Rightarrow> bytes list) \<Rightarrow> fifo \<Rightarrow> bool" where
  "fifo_inv cap P f \<longleftrightarrow> length (f_queue f) \<le> cap \<and>
     (\<exists>d. f_arrived f = map snd (f_served f) @ f_queue f @ d \<and> (f_open f \<longrightarrow> d = [])) \<and>
     (\<forall>j. \<exists>tried. P j = tried @ f_pending f j \<and> subseq (from_conn j (f_arrived f)) tried)"

lemma from_conn_snoc: "from_conn j (xs @ [(i, m)]) = from_conn j xs @ (if i = j then [m] else [])"
  by (simp add: from_conn_def)

lemma fifo_inv_step:
  assumes "fifo_step cap f f'" and "fifo_inv cap P f"
  shows "fifo_inv cap P f'"
  using assms(1)
proof cases
  case (Arrive i m ms)
  have "\<exists>tried. P j = tried @ f_pending f' j \<and> subseq (from_conn j (f_arrived f')) tried" for j
  proof -
    from assms(2) obtain tried where t: "P j = tried @ f_pending f j" "subseq (from_conn j (f_arrived f)) tried"
      unfolding fifo_inv_def by blast
    show ?thesis
    proof (cases "i = j")
      case True
      with t Arrive show ?thesis
        by (intro exI [of _ "tried @ [m]"]) (simp add: from_conn_snoc list_emb_append_mono)
    next
      case False
      with t Arrive show ?thesis by (intro exI [of _ tried]) (simp add: from_conn_snoc)
    qed
  qed
  with assms(2) Arrive show ?thesis by (auto simp: fifo_inv_def)
next
  case (Refuse i m ms)
  have "\<exists>tried. P j = tried @ f_pending f' j \<and> subseq (from_conn j (f_arrived f')) tried" for j
  proof -
    from assms(2) obtain tried where t: "P j = tried @ f_pending f j" "subseq (from_conn j (f_arrived f)) tried"
      unfolding fifo_inv_def by blast
    show ?thesis
    proof (cases "i = j")
      case True
      with t Refuse show ?thesis
        by (intro exI [of _ "tried @ [m]"]) (simp add: list_emb_prefix)
    next
      case False
      with t Refuse show ?thesis by (intro exI [of _ tried]) simp
    qed
  qed
  with assms(2) Refuse show ?thesis by (auto simp: fifo_inv_def)
qed (use assms(2) in \<open>auto simp: fifo_inv_def\<close>)

lemma fifo_inv_runs: "fifo_runs cap f f' \<Longrightarrow> fifo_inv cap P f \<Longrightarrow> fifo_inv cap P f'"
  by (induction rule: rtranclp_induct) (auto intro: fifo_inv_step)

lemma fifo_inv_start: "fifo_inv cap P (fifo_start P)"
  by (auto simp: fifo_inv_def fifo_start_def from_conn_def)

section \<open>The simulation\<close>

text \<open>A producer past the nil check of \<open>Enqueue\<close> holds the next message. What a consumer was served
  it has written, but for one message it holds or could not write.\<close>

fun offered :: "control \<Rightarrow> bytes list" where
  "offered (Selecting m) = [m]"
| "offered _ = []"

definition served_to :: "nat \<Rightarrow> fifo \<Rightarrow> bytes list" where
  "served_to i f = map (snd \<circ> snd) (filter (\<lambda>x. fst x = i) (f_served f))"

fun unwritten :: "control \<Rightarrow> bytes list \<Rightarrow> bool" where
  "unwritten (WritingQ m) l \<longleftrightarrow> l = [m]"
| "unwritten Queue_done l \<longleftrightarrow> length l \<le> 1"
| "unwritten _ l \<longleftrightarrow> l = []"

definition conn_sim :: "fifo \<Rightarrow> nat \<Rightarrow> conn \<Rightarrow> bool" where
  "conn_sim f i cn \<longleftrightarrow> f_pending f i = offered (pc cn) @ todo cn \<and>
     (\<exists>l. served_to i f = wire cn @ l \<and> unwritten (pc cn) l)"

definition queue_sim :: "fifo \<Rightarrow> shared \<Rightarrow> bool" where
  "queue_sim f sh \<longleftrightarrow> map snd (f_queue f) = mq_contents (queue (sb sh)) \<and>
     (f_open f \<longleftrightarrow> queue_state sh = Some False) \<and>
     f_arrived f = entered sh \<and> map (\<lambda>x. (fst x, snd (snd x))) (f_served f) = handed sh \<and>
     (\<forall>ch. mq_queue (queue (sb sh)) = Some ch \<longrightarrow> chan_cap ch = 10000)"

definition simulates :: "system \<Rightarrow> fifo \<Rightarrow> bool" where
  "simulates s f \<longleftrightarrow> sys_queue_mode s \<and>
     queue_state (shr s) = (if closing s = 0 then Some False else if closing s = 1 then Some True else None) \<and>
     queue_sim f (shr s) \<and> (\<forall>i < length (conns s). conn_sim f i (conns s ! i)) \<and>
     (\<forall>j \<ge> length (conns s). f_pending f j = [] \<and> served_to j f = [])"

lemma Enqueue_select_cases:
  assumes "Enqueue_select m q = Inr (e, q')"
  obtains (taken) ch where "e = None" "mq_queue q = Some ch" "\<not> chan_closed ch" "length (chan_buf ch) < chan_cap ch"
      "q' = q\<lparr>mq_queue := Some (ch\<lparr>chan_buf := chan_buf ch @ [m]\<rparr>)\<rparr>"
  | (refused) "e \<noteq> None" "q' = q" "mq_queue q = None \<or> (\<exists>ch. mq_queue q = Some ch \<and> \<not> chan_closed ch \<and>
      chan_cap ch \<le> length (chan_buf ch))"
  using assms by (auto simp: Enqueue_select_def try_send_def split: option.splits if_splits)

lemma Dequeue_cases:
  assumes "Dequeue q = (r, q')"
  obtains (taken) m ms ch where "r = Inr m" "mq_queue q = Some ch" "chan_buf ch = m # ms"
      "q' = q\<lparr>mq_queue := Some (ch\<lparr>chan_buf := ms\<rparr>)\<rparr>"
  | (error) e where "r = Inl e" "q' = q"
  using assms by (auto simp: Dequeue_def recv_def mq_contents_def split: option.splits list.splits if_splits)

lemma served_to_simps [simp]:
  "served_to j (f\<lparr>f_pending := p\<rparr>) = served_to j f" "served_to j (f\<lparr>f_open := b\<rparr>) = served_to j f"
  "served_to j (f\<lparr>f_queue := q\<rparr>) = served_to j f" "served_to j (f\<lparr>f_arrived := a\<rparr>) = served_to j f"
  "served_to j (f\<lparr>f_queue := q, f_served := f_served f @ [(i, x)]\<rparr>) = served_to j f @ (if i = j then [snd x] else [])"
  by (simp_all add: served_to_def)

lemma served_to_log: "served_to i f = from_conn i (map (\<lambda>x. (fst x, snd (snd x))) (f_served f))"
  by (induction "f_served f") (auto simp: served_to_def from_conn_def filter_map o_def)

lemma from_conn_empty: "from_conn j log = [] \<Longrightarrow> x \<in> set log \<Longrightarrow> fst x \<noteq> j"
  by (auto simp: from_conn_def filter_empty_conv)

text \<open>One step of a connection is a step of the machine, or none.\<close>

definition fifo_answer :: "nat \<Rightarrow> fifo \<Rightarrow> shared \<Rightarrow> conn \<Rightarrow> fifo \<Rightarrow> bool" where
  "fifo_answer i f sh' cn' f' \<longleftrightarrow> (f' = f \<or> fifo_step 10000 f f') \<and> queue_sim f' sh' \<and> conn_sim f' i cn' \<and>
     (\<forall>j. j \<noteq> i \<longrightarrow> f_pending f' j = f_pending f j \<and> served_to j f' = served_to j f)"

lemma conn_step_fifo:
  assumes step: "conn_step env i (cn, sh) (cn', sh')" and mode: "queue_mode_pc (pc cn)" "broker_mode (sb sh) = Queue"
    and q: "queue_sim f sh" and c: "conn_sim f i cn"
  shows "\<exists>f'. fifo_answer i f sh' cn' f'"
  using step
proof cases
  case (ReadQueueClosed m ms)
  with c have p: "f_pending f i = m # ms" by (simp add: conn_sim_def)
  have "\<not> f_open f" using q ReadQueueClosed by (simp add: queue_sim_def queue_state_def)
  from Refuse [OF p, of 10000] this q c ReadQueueClosed show ?thesis
    by (intro exI [of _ "f\<lparr>f_pending := (f_pending f)(i := ms)\<rparr>"])
      (auto simp: fifo_answer_def queue_sim_def conn_sim_def log_refuse_def queue_state_def)
next
  case (SelectTaken m q')
  from c SelectTaken(3) have p: "f_pending f i = m # todo cn" by (simp add: conn_sim_def)
  from SelectTaken(4) show ?thesis
  proof (cases rule: Enqueue_select_cases)
    case (taken ch)
    have ch: "map snd (f_queue f) = chan_buf ch" "f_open f" "chan_cap ch = 10000"
      using q taken by (simp_all add: queue_sim_def mq_contents_def queue_state_def)
    then have "length (f_queue f) < 10000" using taken(4) by (metis length_map)
    from Arrive [OF ch(2) p this] q c taken SelectTaken ch show ?thesis
      by (intro exI [of _ "f\<lparr>f_pending := (f_pending f)(i := todo cn), f_queue := f_queue f @ [(i, m)],
          f_arrived := f_arrived f @ [(i, m)]\<rparr>"])
        (auto simp: fifo_answer_def queue_sim_def conn_sim_def set_queue_def mq_contents_def queue_state_def)
  qed simp
next
  case (SelectFull m e q')
  from c SelectFull(3) have p: "f_pending f i = m # todo cn" by (simp add: conn_sim_def)
  from SelectFull(4) show ?thesis
  proof (cases rule: Enqueue_select_cases)
    case refused
    have "\<not> f_open f \<or> 10000 \<le> length (f_queue f)"
      using q refused(3) by (auto simp: queue_sim_def mq_contents_def queue_state_def) (metis length_map)+
    from Refuse [OF p this] q c refused SelectFull show ?thesis
      by (intro exI [of _ "f\<lparr>f_pending := (f_pending f)(i := todo cn)\<rparr>"])
        (auto simp: fifo_answer_def queue_sim_def conn_sim_def set_queue_def log_refuse_def queue_state_def)
  qed simp
next
  case (DequeueOk m q')
  from DequeueOk(4) show ?thesis
  proof (cases rule: Dequeue_cases)
    case (taken m' ms ch)
    with q have "map snd (f_queue f) = m # ms" by (simp add: queue_sim_def mq_contents_def)
    then obtain x r where x: "f_queue f = x # r" "snd x = m" "map snd r = ms" by auto
    from Serve [OF x(1), of 10000 i] q c taken DequeueOk x show ?thesis
      by (intro exI [of _ "f\<lparr>f_queue := r, f_served := f_served f @ [(i, x)]\<rparr>"])
        (auto simp: fifo_answer_def queue_sim_def conn_sim_def set_queue_def mq_contents_def queue_state_def)
  qed simp
next
  case (DequeueError e q')
  from DequeueError(4) show ?thesis
  proof (cases rule: Dequeue_cases)
    case (error e')
    with q c DequeueError show ?thesis
      by (intro exI [of _ f])
        (auto simp: fifo_answer_def queue_sim_def conn_sim_def set_queue_def queue_state_def)
  qed simp
next
  case (ReadQueue m ms)
  with q c show ?thesis by (intro exI [of _ f]) (simp add: fifo_answer_def conn_sim_def)
next
  case (WriteQOk m)
  with q c show ?thesis by (intro exI [of _ f]) (auto simp: fifo_answer_def conn_sim_def)
next
  case (WriteQError m)
  with q c show ?thesis
    by (intro exI [of _ f]) (auto simp: fifo_answer_def conn_sim_def queue_sim_def log_refuse_def queue_state_def)
qed (use mode q c in \<open>auto simp: queue_mode_pc_def fifo_answer_def conn_sim_def queue_sim_def queue_state_def
      intro!: exI [of _ f]\<close>)

section \<open>Every run of queue mode is a run of the bounded queue\<close>

lemma conn_sim_other:
  "conn_sim f j cn \<Longrightarrow> f_pending f' j = f_pending f j \<Longrightarrow> served_to j f' = served_to j f \<Longrightarrow> conn_sim f' j cn"
  by (simp add: conn_sim_def)

lemma sys_step_fifo:
  assumes "sys_step env s s'" and "simulates s f"
  shows "\<exists>f'. (f' = f \<or> fifo_step 10000 f f') \<and> simulates s' f'"
proof -
  from assms(2) have mode: "sys_queue_mode s" and q: "queue_sim f (shr s)"
    and state: "queue_state (shr s) =
      (if closing s = 0 then Some False else if closing s = 1 then Some True else None)"
    and c: "\<And>i. i < length (conns s) \<Longrightarrow> conn_sim f i (conns s ! i)"
    and none: "\<And>j. length (conns s) \<le> j \<Longrightarrow> f_pending f j = [] \<and> served_to j f = []"
    by (simp_all add: simulates_def)
  have mode': "sys_queue_mode s'" using sys_step_messages [OF assms(1) mode] by simp
  from assms(1) show ?thesis
  proof cases
    case (Conn i cn' sh')
    have "queue_mode_pc (pc (conns s ! i))" "broker_mode (sb (shr s)) = Queue"
      using mode Conn(3) by (auto simp: sys_queue_mode_def)
    from conn_step_fifo [OF Conn(4) this q c [OF Conn(3)]] obtain f' where
      f': "fifo_answer i f sh' cn' f'" by blast
    then have "conn_sim f' j ((conns s)[i := cn'] ! j)" if "j < length (conns s)" for j
      using c [OF that] that by (cases "j = i") (auto simp: fifo_answer_def intro: conn_sim_other)
    with f' Conn mode' state none conn_step_queue_state [OF Conn(4)] show ?thesis
      by (auto simp: simulates_def fifo_answer_def)
  next
    case Close
    then show ?thesis
    proof cases
      case (CloseQueue ch ch')
      with state q have "f_open f" by (simp add: queue_sim_def)
      from Stop [OF this, of 10000] CloseQueue q c none mode' show ?thesis
        by (intro exI [of _ "f\<lparr>f_open := False\<rparr>"])
          (auto simp: simulates_def queue_sim_def set_queue_def mq_contents_def queue_state_def
            close_chan_def conn_sim_def split: if_splits)
    next
      case ClearQueue
      with state q have closed: "\<not> f_open f" by (simp add: queue_sim_def)
      from Discard [OF this, of 10000] closed ClearQueue q c none mode' show ?thesis
        by (intro exI [of _ "f\<lparr>f_queue := []\<rparr>"])
          (auto simp: simulates_def queue_sim_def sh_defs mq_contents_def queue_state_def conn_sim_def)
    qed (use q c none mode' state in \<open>auto simp: simulates_def queue_sim_def queue_state_def sh_defs
        intro!: exI [of _ f]\<close>)
  qed
qed

lemma sys_runs_fifo_runs:
  assumes "sys_runs env s s'" and "simulates s f"
  shows "\<exists>f'. fifo_runs 10000 f f' \<and> simulates s' f'"
  using assms(1)
proof (induction rule: rtranclp_induct)
  case (step s1 s2)
  then obtain f1 where "fifo_runs 10000 f f1" "simulates s1 f1" by blast
  with sys_step_fifo [OF step(2)] show ?case by (metis rtranclp.rtrancl_into_rtrancl)
qed (use assms(2) in blast)

definition scripts :: "conn list \<Rightarrow> nat \<Rightarrow> bytes list" where
  "scripts cns i = (if i < length cns then todo (cns ! i) else [])"

lemma sys_start_simulates:
  assumes "sys_start Queue s"
  shows "simulates s (fifo_start (scripts (conns s)))"
proof -
  have cn: "wire cn = [] \<and> pc cn \<in> {Reading, Producer_done, Dequeueing}" if "cn \<in> set (conns s)" for cn
    using assms that by (auto simp: sys_start_def)
  have "offered p = [] \<and> unwritten p []" if "p \<in> {Reading, Producer_done, Dequeueing}" for p
    using that by auto
  then have "conn_sim (fifo_start (scripts (conns s))) i (conns s ! i)" if "i < length (conns s)" for i
    using cn [OF nth_mem [OF that]] that
    by (simp add: conn_sim_def fifo_start_def scripts_def served_to_def)
  with assms sys_start_messages(1) [OF assms] show ?thesis
    by (auto simp: simulates_def fifo_start_def scripts_def queue_sim_def served_to_def sys_start_def
        NewBroker_def NewMemoryMessageQueue_def make_chan_def queue_state_def mq_contents_def)
qed

section \<open>Properties\<close>

text \<open>C5: In queue mode the running broker refines the bounded queue. Whatever the producers, the
  competing consumers and the shutdown do and however their steps interleave, the state reached is
  that of a run of the machine, whose steps are five: a message arrives, is refused because the
  queue is full or closed, is served to one consumer, the queue stops, the queue is discarded. What
  a consumer was served is what it has written, but for the message it is about to write or, when it
  stopped, for at most one it could not write.\<close>

theorem queue_system_refines:
  assumes "sys_start Queue s0" and "sys_runs env s0 s"
  shows "\<exists>f. fifo_runs 10000 (fifo_start (scripts (conns s0))) f \<and> simulates s f"
  by (rule sys_runs_fifo_runs [OF assms(2) sys_start_simulates [OF assms(1)]])

theorem queue_system_refines_witness:
  "\<exists>f. fifo_runs 10000 (fifo_start (scripts [duo_conn Reading [[1]] [], duo_conn Dequeueing [] []])) f \<and>
     served_to 1 f = [[1 :: byte]] \<and> f_queue f = []"
proof -
  from queue_system_refines [OF queue_start queue_run [of "\<lambda>_. []" "[1]"]] obtain f where
    f: "fifo_runs 10000 (fifo_start (scripts [duo_conn Reading [[1]] [], duo_conn Dequeueing [] []])) f"
      "simulates (duo (duo_conn Reading [] [[1]]) (WritingQ [1]) (queue_sh [] [(0, [1])] [(1, [1])])) f"
    by (auto simp: duo_def)
  then have "served_to 1 f = [[1]] \<and> f_queue f = []"
    by (simp add: simulates_def duo_def All_less_Suc conn_sim_def duo_conn_def queue_sim_def queue_sh_def
        mq_contents_def)
  with f(1) show ?thesis by blast
qed

text \<open>C6: The order of delivery in queue mode, under every interleaving. \<open>entered\<close> records each
  \<open>Enqueue\<close> that returned nil and \<open>handed\<close> each message \<open>Dequeue\<close> returned, in the order in which it
  happened. The messages that entered are those that were handed out, in the same order, then those in the
  queue, then (only once the shutdown has begun) those discarded with it: none that entered is lost,
  doubled or overtaken. Of every producer a subsequence of its messages entered. And every consumer has
  written what it was handed, in that order, but for the message it is about to write or, when it
  stopped, for at most one it could not write.\<close>

theorem queue_delivery_order:
  assumes "sys_start Queue s0" and "sys_runs env s0 s"
  shows "(\<exists>discarded. map snd (entered (shr s)) =
       map snd (handed (shr s)) @ mq_contents (queue (sb (shr s))) @ discarded \<and>
       (closing s = 0 \<longrightarrow> discarded = [])) \<and>
    length (mq_contents (queue (sb (shr s)))) \<le> 10000 \<and>
    (\<forall>j < length (conns s0). subseq (from_conn j (entered (shr s))) (todo (conns s0 ! j))) \<and>
    (\<forall>i < length (conns s). \<exists>l. from_conn i (handed (shr s)) = wire (conns s ! i) @ l \<and>
       unwritten (pc (conns s ! i)) l) \<and>
    (\<forall>x \<in> set (entered (shr s)). fst x < length (conns s0)) \<and>
    (\<forall>x \<in> set (handed (shr s)). fst x < length (conns s))"
proof -
  from sys_runs_fifo_runs [OF assms(2) sys_start_simulates [OF assms(1)]] obtain f where
    run: "fifo_runs 10000 (fifo_start (scripts (conns s0))) f" and sim: "simulates s f" by blast
  from fifo_inv_runs [OF run fifo_inv_start] obtain d where
    d: "f_arrived f = map snd (f_served f) @ f_queue f @ d" "f_open f \<longrightarrow> d = []" "length (f_queue f) \<le> 10000"
    and sent: "\<And>j. \<exists>tried. scripts (conns s0) j = tried @ f_pending f j \<and> subseq (from_conn j (f_arrived f)) tried"
    by (auto simp: fifo_inv_def)
  have logs: "f_arrived f = entered (shr s)" "handed (shr s) = map (\<lambda>x. (fst x, snd (snd x))) (f_served f)"
    "map snd (f_queue f) = mq_contents (queue (sb (shr s)))" "f_open f \<longleftrightarrow> closing s = 0"
    using sim by (auto simp: simulates_def queue_sim_def)
  have "map snd (map snd (f_served f)) = map snd (handed (shr s))" by (simp add: logs(2))
  then have "map snd (entered (shr s)) = map snd (handed (shr s)) @ mq_contents (queue (sb (shr s))) @ map snd d"
    using d(1) by (simp add: logs(1,3) [symmetric])
  moreover have "length (mq_contents (queue (sb (shr s)))) \<le> 10000"
    using d(3) logs(3) by (metis length_map)
  moreover have "subseq (from_conn j (f_arrived f)) (todo (conns s0 ! j))" if "j < length (conns s0)" for j
    using sent [of j] that by (auto simp: scripts_def list_emb_prefix)
  moreover have "fst x < length (conns s0)" if "x \<in> set (f_arrived f)" for x
    using sent [of "fst x"] from_conn_empty [OF _ that, of "fst x"]
    by (auto simp: scripts_def split: if_splits)
  moreover have "fst x < length (conns s)" if "x \<in> set (f_served f)" for x
  proof (rule ccontr)
    assume "\<not> fst x < length (conns s)"
    with sim have "served_to (fst x) f = []" by (simp add: simulates_def)
    with that show False by (auto simp: served_to_def filter_empty_conv)
  qed
  moreover have "\<exists>l. from_conn i (handed (shr s)) = wire (conns s ! i) @ l \<and> unwritten (pc (conns s ! i)) l"
    if "i < length (conns s)" for i
    using sim that by (simp add: simulates_def conn_sim_def served_to_log logs(2))
  ultimately show ?thesis
    using d(2) logs by (intro conjI exI [of _ "map snd d"]) auto
qed

theorem queue_delivery_order_witness:
  "\<exists>s. sys_runs (\<lambda>_. []) (duo (duo_conn Reading [[1 :: byte]] []) Dequeueing (queue_sh [] [] [])) s \<and>
     map snd (entered (shr s)) = [[1]] \<and> from_conn 1 (handed (shr s)) = [[1]] \<and>
     subseq (from_conn 0 (entered (shr s))) [[1]]"
proof -
  let ?s = "duo (duo_conn Reading [] [[1 :: byte]]) (WritingQ [1]) (queue_sh [] [(0, [1])] [(1, [1])])"
  from queue_delivery_order [OF queue_start queue_run [of "\<lambda>_. []" "[1]"]]
  have "subseq (from_conn 0 (entered (shr ?s))) [[1]]" and "from_conn 1 (handed (shr ?s)) = [[1]]"
    by (simp_all add: duo_def duo_conn_def All_less_Suc)
  with queue_run [of "\<lambda>_. []" "[1]"] show ?thesis
    by (intro exI [of _ ?s]) (simp add: duo_def queue_sh_def)
qed

end
