(* ===== verification/BrokerProgress.thy ===== *)
theory BrokerProgress
  imports BrokerFifo
begin

text \<open>
  What a handler of the running broker waits for: its own connection, and nothing else but, for a broadcast
  consumer, a message in its channel. All other work is done in a bounded number of its own steps, in
  any reachable state, whatever the other handlers do. And a consumer that
  registers after the shutdown waits at its channel for ever.
\<close>

section \<open>Fresh channels\<close>

definition finite_heap :: "shared \<Rightarrow> bool" where
  "finite_heap sh \<longleftrightarrow> finite (dom (broker_heap (sb sh)))"

lemma same_bufs_dom:
  assumes "same_bufs h h'"
  shows "dom h' = dom h"
proof -
  have "map_option chan_buf (h' c) = map_option chan_buf (h c)" for c using assms by (simp add: same_bufs_def)
  then have "h' c = None \<longleftrightarrow> h c = None" for c by (metis map_option_is_None)
  then show ?thesis by (simp add: dom_def)
qed

lemma conn_step_finite_heap:
  assumes "conn_step env i (cn, sh) (cn', sh')" and "reg_ok sh" and "finite_heap sh"
  shows "finite_heap sh'"
  using assms(1)
proof cases
  case (Start cid c b')
  with assms(3) consumer_start_state [OF Start(6) Start(4)] show ?thesis by (simp add: finite_heap_def)
next
  case (Unregister cid c ms r' h')
  with assms(2) UnregisterConsumer_keeps [of "registry (sb sh)" "broker_heap (sb sh)" cid]
  have "same_bufs (broker_heap (sb sh)) h'" by (auto simp: reg_ok_def)
  from same_bufs_dom [OF this] assms(3) Unregister(1) Unregister(2) show ?thesis
    by (simp add: finite_heap_def sh_defs)
qed (use assms(3) in \<open>simp_all add: finite_heap_def sh_defs\<close>)

lemma sys_step_finite_heap:
  assumes "sys_step env s s'" and "sys_safe s" and "finite_heap (shr s)"
  shows "finite_heap (shr s')"
  using assms(1)
proof cases
  case (Conn i cn' sh')
  with conn_step_finite_heap [OF Conn(4) _ assms(3)] assms(2) show ?thesis by (simp add: sys_safe_def)
next
  case Close
  then show ?thesis
  proof cases
    case (CloseRegistry order r' h')
    with assms(2) Registry_Close_keeps [of "registry (sb (shr s))" "broker_heap (sb (shr s))" order]
    have "same_bufs (broker_heap (sb (shr s))) h'" by (auto simp: sys_safe_def reg_ok_def)
    from same_bufs_dom [OF this] assms(3) CloseRegistry(1) show ?thesis
      by (simp add: finite_heap_def sh_defs)
  qed (use assms(3) in \<open>simp_all add: finite_heap_def sh_defs\<close>)
qed

lemma sys_runs_finite_heap:
  assumes "sys_runs env s0 s" and "sys_start mode s0"
    and "0 < GetEnvInt env ''CONSUMER_CHANNEL_BUFFER_SIZE'' 10000"
  shows "finite_heap (shr s)"
  using assms(1)
proof (induction rule: rtranclp_induct)
  case base
  show ?case using assms(2)
    by (auto simp: sys_start_def finite_heap_def NewBroker_def NewMemoryMessageQueue_def make_chan_def)
next
  case (step s1 s2)
  then show ?case using sys_step_finite_heap sys_runs_safe [OF step(1) sys_start_safe [OF assms(2)] assms(3)] by blast
qed

section \<open>Progress\<close>

text \<open>The handler has returned, or it is a consumer in its loop with nothing to receive.\<close>

definition at_rest :: "shared \<Rightarrow> conn \<Rightarrow> bool" where
  "at_rest sh cn \<longleftrightarrow>
     (case pc cn of
        Producer_done \<Rightarrow> True
      | Left c ms \<Rightarrow> True
      | Queue_done \<Rightarrow> True
      | Ranging cid c \<Rightarrow> (\<exists>ch. chan_at sh c = Some ch \<and> chan_buf ch = [] \<and> \<not> chan_closed ch)
      | _ \<Rightarrow> False)"

lemma conn_progress:
  assumes "reg_ok sh" and "consumer_ok sh cn" and "producer_ok sh i cn" and "finite_heap sh"
    and "0 < GetEnvInt env ''CONSUMER_CHANNEL_BUFFER_SIZE'' 10000"
  shows "at_rest sh cn \<or> (\<exists>cn' sh'. conn_step env i (cn, sh) (cn', sh'))"
proof (cases "pc cn")
  case Reading
  then show ?thesis using ReadEnd by blast
next
  case (Sending m cs)
  show ?thesis
  proof (cases cs)
    case Nil
    with Sending show ?thesis using SendDone by blast
  next
    case (Cons c cs')
    with assms(3) Sending have "chan_at sh c \<noteq> None" by (simp add: producer_ok_def)
    then obtain ch where ch: "chan_at sh c = Some ch" by auto
    note at = Sending [unfolded Cons]
    show ?thesis
    proof (cases "try_send m ch")
      case (Inl p)
      from SendPanic [OF at ch this] show ?thesis by blast
    next
      case (Inr r)
      obtain b ch' where r: "r = (b, ch')" by (cases r)
      show ?thesis
      proof (cases b)
        case True
        with Inr r have "try_send m ch = Inr (True, ch')" by simp
        from SendTaken [OF at ch this] show ?thesis by blast
      next
        case False
        with Inr r have "try_send m ch = Inr (False, ch')" by simp
        from SendFull [OF at ch this] show ?thesis by blast
      qed
    qed
  qed
next
  case (Selecting m)
  show ?thesis
  proof (cases "Enqueue_select m (queue (sb sh))")
    case (Inl p)
    from SelectPanic [OF Selecting this] show ?thesis by blast
  next
    case (Inr r)
    obtain e q' where r: "r = (e, q')" by (cases r)
    show ?thesis
    proof (cases e)
      case None
      with SelectTaken [OF Selecting] Inr r show ?thesis by blast
    next
      case (Some err)
      with SelectFull [OF Selecting] Inr r show ?thesis by blast
    qed
  qed
next
  case Starting
  have "finite (fst ` set (consumers (registry (sb sh))))" by simp
  then obtain cid where cid: "cid \<notin> fst ` set (consumers (registry (sb sh)))"
    using ex_new_if_finite [of _ ] infinite_UNIV_listI by blast
  obtain c where c: "chan_at sh c = None"
    using assms(4) ex_new_if_finite [of "dom (broker_heap (sb sh))"] by (auto simp: finite_heap_def)
  show ?thesis
  proof (cases "consumer_start env cid c (sb sh)")
    case (Inl p)
    from StartPanic [OF Starting this] show ?thesis by blast
  next
    case (Inr b')
    from Start [OF Starting cid c this] show ?thesis by blast
  qed
next
  case (Ranging cid c)
  with assms(2) obtain ch where ch: "chan_at sh c = Some ch" by (auto simp: consumer_ok_def)
  show ?thesis
  proof (cases "chan_buf ch")
    case (Cons m ms)
    then have "recv ch = (Received m, ch\<lparr>chan_buf := ms\<rparr>)" by (simp add: recv_def)
    from RangeReceive [OF Ranging ch this] show ?thesis by blast
  next
    case Nil
    show ?thesis
    proof (cases "chan_closed ch")
      case True
      with Nil have "recv ch = (RecvClosed, ch)" by (simp add: recv_def)
      from RangeClosed [OF Ranging ch this] show ?thesis by blast
    next
      case False
      with Nil ch Ranging show ?thesis by (simp add: at_rest_def)
    qed
  qed
next
  case (Writing cid c m)
  from WriteOk [OF this] show ?thesis by blast
next
  case (Leaving cid c ms)
  from assms(1) UnregisterConsumer_keeps [of "registry (sb sh)" "broker_heap (sb sh)" cid] obtain r' h' where
    "UnregisterConsumer cid (registry (sb sh), broker_heap (sb sh)) = Inr (r', h')" by (auto simp: reg_ok_def)
  from Unregister [OF Leaving this] show ?thesis by blast
next
  case Dequeueing
  show ?thesis
  proof (cases "Dequeue (queue (sb sh))")
    case (Pair r q')
    then show ?thesis
      using DequeueOk [OF Dequeueing] DequeueError [OF Dequeueing] by (cases r) blast+
  qed
next
  case (WritingQ m)
  from WriteQOk [OF this] show ?thesis by blast
qed (simp_all add: at_rest_def)

text \<open>The handler is in a read or a write on its own connection. The source sets no deadline, so how long
  that takes is up to the peer; the steps of the model are what may come of it.\<close>

fun at_peer :: "control \<Rightarrow> bool" where
  "at_peer Reading = True"
| "at_peer (Writing cid c m) = True"
| "at_peer (WritingQ m) = True"
| "at_peer _ = False"

text \<open>How many steps of its own the handler needs at most until it waits or has returned.\<close>

fun own_work :: "shared \<Rightarrow> control \<Rightarrow> nat" where
  "own_work sh (Sending m cs) = Suc (length cs)"
| "own_work sh (Selecting m) = 1"
| "own_work sh Starting = 1"
| "own_work sh (Ranging cid c) =
     (case chan_at sh c of
        None \<Rightarrow> 0
      | Some ch \<Rightarrow> if chan_buf ch \<noteq> [] then 1 else if chan_closed ch then 2 else 0)"
| "own_work sh (Leaving cid c ms) = 1"
| "own_work sh Dequeueing = 1"
| "own_work sh _ = 0"

lemma consumer_start_channel:
  assumes "consumer_start env cid c b = Inr b'" and "cid \<notin> fst ` set (consumers (registry b))"
  shows "\<exists>ch. broker_heap b' c = Some ch \<and> chan_buf ch = [] \<and> \<not> chan_closed ch"
  using consumer_start_state [OF assms] by auto

lemma conn_step_works:
  assumes "conn_step env i (cn, sh) (cn', sh')" and "\<not> at_peer (pc cn)"
  shows "crash sh' \<noteq> None \<or> own_work sh' (pc cn') < own_work sh (pc cn)"
  using assms(1)
proof cases
  case (Start cid c b')
  with consumer_start_channel [OF Start(6) Start(4)] show ?thesis by auto
next
  case (RangeReceive cid c ch m ch')
  then show ?thesis by (auto simp: recv_def split: list.splits if_splits)
next
  case (RangeClosed cid c ch ch')
  then show ?thesis by (auto simp: recv_def split: list.splits if_splits)
qed (use assms(2) in simp_all)

lemma close_step_closing_less: "close_step s s' \<Longrightarrow> closing s < 3"
  by (erule close_step.cases) auto

section \<open>A consumer that comes too late\<close>

text \<open>\<open>RegisterConsumer\<close> does not look whether the registry has been closed: a consumer that registers
  after \<open>Broker.Close\<close> gets an open channel that nothing will ever close, and its handler waits at it.\<close>

definition solo :: "control \<Rightarrow> shared \<Rightarrow> nat \<Rightarrow> system" where
  "solo c sh n = \<lparr>conns = [duo_conn c [] []], shr = sh, closing = n\<rparr>"

definition closed_sh :: "(string \<times> nat) list \<Rightarrow> heap \<Rightarrow> bytes chan option \<Rightarrow> shared" where
  "closed_sh regs h q = (duo_sh regs h [] None)\<lparr>sb := (sb (duo_sh regs h [] None))
     \<lparr>queue := \<lparr>mq_queue = q, mq_size = 10000\<rparr>\<rparr>\<rparr>"

lemma solo_close:
  "sys_runs env (solo Starting (closed_sh [] Map.empty (Some \<lparr>chan_buf = [], chan_cap = 10000, chan_closed = False\<rparr>)) 0)
     (solo Starting (closed_sh [] Map.empty None) 3)"
proof -
  let ?q = "\<lambda>b. Some \<lparr>chan_buf = [], chan_cap = 10000, chan_closed = b\<rparr> :: bytes chan option"
  have "close_step (solo Starting (closed_sh [] Map.empty (?q False)) 0) (solo Starting (closed_sh [] Map.empty (?q True)) 1)"
    by (simp add: close_step.simps solo_def closed_sh_def duo_sh_def close_chan_def set_queue_def)
  note s1 = Close [OF this]
  have "close_step (solo Starting (closed_sh [] Map.empty (?q True)) 1) (solo Starting (closed_sh [] Map.empty None) 2)"
    by (simp add: close_step.simps solo_def closed_sh_def duo_sh_def sh_defs mq_contents_def)
  note s2 = Close [OF this]
  have "close_step (solo Starting (closed_sh [] Map.empty None) 2) (solo Starting (closed_sh [] Map.empty None) 3)"
    by (simp add: close_step.simps solo_def closed_sh_def duo_sh_def set_registry_def)
  note s3 = Close [OF this]
  show ?thesis
    by (rule sys_runs_step, rule s1, rule sys_runs_step, rule s2, rule sys_runs_step, rule s3,
        rule rtranclp.rtrancl_refl)
qed

lemma late_consumer_waits:
  "\<exists>s0 s. sys_start Broadcast s0 \<and> sys_runs (\<lambda>_. []) s0 s \<and> closing s = 3 \<and> crash (shr s) = None \<and>
     pc (conns s ! 0) = Ranging cid 0 \<and> (\<forall>s'. \<not> sys_step (\<lambda>_. []) s s')"
proof -
  let ?e = "\<lambda>_. [] :: string"
  let ?start = "solo Starting (closed_sh [] Map.empty (Some \<lparr>chan_buf = [], chan_cap = 10000, chan_closed = False\<rparr>)) 0"
  let ?late = "solo (Ranging cid 0) (closed_sh [(cid, 0)] (chan0 [] False) None) 3"
  have "closed_sh [] Map.empty (Some \<lparr>chan_buf = [], chan_cap = 10000, chan_closed = False\<rparr>) =
      duo_sh [] Map.empty [] None"
    by (simp add: closed_sh_def duo_sh_def)
  with duo_start [of "[]"] have start: "sys_start Broadcast ?start"
    by (simp add: sys_start_def solo_def duo_def)
  have "conn_step ?e 0 (duo_conn Starting [] [], closed_sh [] Map.empty None)
      (duo_conn (Ranging cid 0) [] [], closed_sh [(cid, 0)] (chan0 [] False) None)"
    by (simp add: conn_step.simps closed_sh_def duo_defs consumer_start_def GetEnvInt_def make_chan_def
        RegisterConsumer_def)
  then have "sys_step ?e (solo Starting (closed_sh [] Map.empty None) 3) ?late"
    using Conn [of "solo Starting (closed_sh [] Map.empty None) 3" 0 ?e]
    by (simp add: solo_def closed_sh_def duo_sh_def)
  with solo_close have run: "sys_runs ?e ?start ?late" by (rule rtranclp.rtrancl_into_rtrancl)
  have "\<not> close_step ?late s'" for s' using close_step_closing_less [of ?late s'] by (auto simp: solo_def)
  moreover have "\<not> conn_step ?e 0 (duo_conn (Ranging cid 0) [] [], closed_sh [(cid, 0)] (chan0 [] False) None) (cn', sh')"
    for cn' sh'
    by (auto elim!: conn_stepE simp: duo_defs closed_sh_def recv_def)
  ultimately have "\<not> sys_step ?e ?late s'" for s'
    by (auto elim!: sys_stepE simp: solo_def)
  with start run show ?thesis
    by (intro exI [of _ ?start] exI [of _ ?late]) (simp add: solo_def duo_conn_def closed_sh_def duo_sh_def)
qed

section \<open>Properties\<close>

text \<open>C10: What the handlers wait for, with a positive channel buffer. In every reachable state that has
  not panicked, the handler of a connection has returned, or is in a read or write on its own connection
  (without a deadline: its peer decides how long), or is a broadcast consumer at its empty channel, which is
  open; or else it has a step it can take now, whatever the other connections and the shutdown do, and each
  step it takes brings it nearer to one of these, or panics. So handling one message takes a producer's
  handler at most one step more than there are consumers in its snapshot: a slow consumer or a peer that
  does not read holds up its own handler only, and a full queue or channel none.\<close>

theorem handlers_never_block:
  assumes "sys_start mode s0" and "0 < GetEnvInt env ''CONSUMER_CHANNEL_BUFFER_SIZE'' 10000"
    and "sys_runs env s0 s" and "crash (shr s) = None" and "i < length (conns s)"
  shows "at_rest (shr s) (conns s ! i) \<or> at_peer (pc (conns s ! i)) \<or>
    (\<exists>cn' sh'. conn_step env i (conns s ! i, shr s) (cn', sh') \<and>
       sys_step env s (s\<lparr>conns := (conns s)[i := cn'], shr := sh'\<rparr>)) \<and>
    (\<forall>cn' sh'. conn_step env i (conns s ! i, shr s) (cn', sh') \<longrightarrow>
       crash sh' \<noteq> None \<or> own_work sh' (pc cn') < own_work (shr s) (pc (conns s ! i)))"
proof -
  have safe: "reg_ok (shr s)"
    using sys_runs_safe [OF assms(3) sys_start_safe [OF assms(1)] assms(2)] by (simp add: sys_safe_def)
  have "consumer_ok (shr s) (conns s ! i)" "producer_ok (shr s) i (conns s ! i)"
    using sys_runs_fifo [OF assms(3) sys_start_fifo [OF assms(1)] sys_start_safe [OF assms(1)] assms(2)] assms(5)
    by (simp_all add: sys_fifo_def)
  from conn_progress [OF safe this sys_runs_finite_heap [OF assms(3,1,2)] assms(2)] show ?thesis
    using Conn [OF assms(4,5)] conn_step_works by blast
qed

theorem handlers_never_block_witness:
  "\<exists>s'. sys_step (\<lambda>_. []) (duo (duo_conn Reading [[2]] [[1]]) (Ranging ''a'' 0)
     (duo_sh [(''a'', 0)] (chan0 [[1]] False) [(0, [1])] None)) s' \<and> conns s' ! 0 = duo_conn Reading [[2]] [[1]]"
proof -
  let ?s = "duo (duo_conn Reading [[2]] [[1]]) (Ranging ''a'' 0) (duo_sh [(''a'', 0)] (chan0 [[1]] False) [(0, [1])] None)"
  have "\<not> at_rest (shr ?s) (conns ?s ! 1)" "\<not> at_peer (pc (conns ?s ! 1))"
    by (simp_all add: at_rest_def duo_def duo_conn_def duo_sh_def chan0_def)
  with handlers_never_block [OF duo_start _ duo_run_1 [of "[1]" "[2]" "''a''"], of 1] obtain cn' sh' where
    "sys_step (\<lambda>_. []) ?s (?s\<lparr>conns := (conns ?s)[1 := cn'], shr := sh'\<rparr>)"
    by (auto simp: GetEnvInt_def duo_def duo_sh_def)
  moreover have "conns (?s\<lparr>conns := (conns ?s)[1 := cn'], shr := sh'\<rparr>) ! 0 = duo_conn Reading [[2]] [[1]]"
    by (simp add: duo_def)
  ultimately show ?thesis by blast
qed

end
