(* ===== verification/HttpServer.thy ===== *)
theory HttpServer
  imports Prelude
begin

text \<open>
  A \<open>net/http\<close> server as the two server programs use it: a goroutine that calls \<open>ListenAndServe\<close>,
  which returns an error always, the connections it has accepted, and a main goroutine that calls
  \<open>Shutdown\<close>. The documented behaviour: listening can fail, serving can fail, and once \<open>Shutdown\<close> has
  been called serving ends with \<open>ErrServerClosed\<close>. \<open>Shutdown\<close> closes the listener, not the connections in
  use: a connection accepted before can still bring a request, and the one being answered is; a server in
  shutdown does not reuse a connection after an answer. It returns when all connections are gone or when
  its context is over, and then they are still served, until the process ends. What it returns is only
  logged by both programs.
\<close>

definition ErrServerClosed :: go_error where
  "ErrServerClosed = OtherError ''http: Server closed''"

datatype serving = Calling | Listening | Served go_error

text \<open>\<open>waiting\<close> counts the connections on which no request is being answered, new ones and those kept
  alive; \<open>inflight\<close> are the requests being answered, each on a connection of its own.\<close>

record 'r http_server =
  serving :: serving
  in_shutdown :: bool
  waiting :: nat
  inflight :: "'r list"

definition new_server :: "'r http_server" where
  "new_server = \<lparr>serving = Calling, in_shutdown = False, waiting = 0, inflight = []\<rparr>"

inductive serve_step :: "'r http_server \<Rightarrow> 'r http_server \<Rightarrow> bool" where
  Bind: "serving h = Calling \<Longrightarrow> \<not> in_shutdown h \<Longrightarrow> serve_step h (h\<lparr>serving := Listening\<rparr>)"
| BindError: "serving h = Calling \<Longrightarrow> err \<noteq> ErrServerClosed \<Longrightarrow> serve_step h (h\<lparr>serving := Served err\<rparr>)"
| ServeError: "serving h = Listening \<Longrightarrow> \<not> in_shutdown h \<Longrightarrow> err \<noteq> ErrServerClosed \<Longrightarrow>
    serve_step h (h\<lparr>serving := Served err\<rparr>)"
| ServeClosed: "serving h \<in> {Calling, Listening} \<Longrightarrow> in_shutdown h \<Longrightarrow>
    serve_step h (h\<lparr>serving := Served ErrServerClosed\<rparr>)"
| Connect: "serving h = Listening \<Longrightarrow> \<not> in_shutdown h \<Longrightarrow> serve_step h (h\<lparr>waiting := Suc (waiting h)\<rparr>)"
| Begin: "waiting h = Suc n \<Longrightarrow> serve_step h (h\<lparr>waiting := n, inflight := inflight h @ [r]\<rparr>)"
| Hangup: "waiting h = Suc n \<Longrightarrow> serve_step h (h\<lparr>waiting := n\<rparr>)"

text \<open>A request has been answered; its connection is kept alive or closed.\<close>

inductive answer_step :: "'r http_server \<Rightarrow> 'r \<Rightarrow> 'r http_server \<Rightarrow> bool" where
  KeepAlive: "inflight h = xs @ r # ys \<Longrightarrow> \<not> in_shutdown h \<Longrightarrow>
    answer_step h r (h\<lparr>waiting := Suc (waiting h), inflight := xs @ ys\<rparr>)"
| LastAnswer: "inflight h = xs @ r # ys \<Longrightarrow> answer_step h r (h\<lparr>inflight := xs @ ys\<rparr>)"

definition http_Shutdown :: "'r http_server \<Rightarrow> 'r http_server" where
  "http_Shutdown h = h\<lparr>in_shutdown := True\<rparr>"

text \<open>No connection is left: \<open>Shutdown\<close> returns nil.\<close>

definition drained :: "'r http_server \<Rightarrow> bool" where
  "drained h \<longleftrightarrow> waiting h = 0 \<and> inflight h = []"

text \<open>The condition both programs put on the error of \<open>ListenAndServe\<close>.\<close>

definition serve_failed :: "'r http_server \<Rightarrow> bool" where
  "serve_failed h \<longleftrightarrow> (case serving h of Served err \<Rightarrow> err \<noteq> ErrServerClosed | _ \<Rightarrow> False)"

definition open_connections :: "'r http_server \<Rightarrow> nat" where
  "open_connections h = waiting h + length (inflight h)"

lemma serve_step_shutdown [simp]: "serve_step h h' \<Longrightarrow> in_shutdown h' = in_shutdown h"
  by (auto elim: serve_step.cases)

lemma answer_step_server [simp]:
  "answer_step h r h' \<Longrightarrow> in_shutdown h' = in_shutdown h" "answer_step h r h' \<Longrightarrow> serving h' = serving h"
  by (auto elim: answer_step.cases)

lemma http_Shutdown_simps [simp]:
  "in_shutdown (http_Shutdown h)" "serving (http_Shutdown h) = serving h"
  "open_connections (http_Shutdown h) = open_connections h"
  by (simp_all add: http_Shutdown_def open_connections_def)

lemma open_connections_new [simp]: "open_connections new_server = 0"
  by (simp add: open_connections_def new_server_def)

text \<open>Once the shutdown has begun no connection comes, and every answer is the last on its own.\<close>

lemma serve_step_connections:
  "serve_step h h' \<Longrightarrow> in_shutdown h \<Longrightarrow> open_connections h' \<le> open_connections h"
  by (erule serve_step.cases) (auto simp: open_connections_def)

lemma answer_step_connections:
  "answer_step h r h' \<Longrightarrow> in_shutdown h \<Longrightarrow> Suc (open_connections h') = open_connections h"
  by (erule answer_step.cases) (auto simp: open_connections_def)

lemma serve_step_inflight:
  assumes "serve_step h h'" and "r \<in> set (inflight h)"
  shows "r \<in> set (inflight h')"
  using assms by (auto elim: serve_step.cases)

lemma answer_step_exists: "r \<in> set (inflight h) \<Longrightarrow> \<exists>h'. answer_step h r h'"
  by (auto dest!: split_list intro: LastAnswer)

end
