(* ===== verification/GoStrings.thy ===== *)
theory GoStrings
  imports Common "HOL-Library.List_Lexorder" "HOL-Library.Char_ord"
begin

text \<open>
  The functions of Go's package \<open>strings\<close> that the repository uses, on strings as lists of
  bytes. White space and letter case outside ASCII are given by their UTF-8 encodings; the first
  byte of each is never a continuation byte, so scanning bytes finds exactly the runes.
\<close>

section \<open>White space\<close>

definition byte_at :: "nat \<Rightarrow> string \<Rightarrow> nat" where
  "byte_at i s = (if i < length s then of_char (s ! i) else 0)"

text \<open>\<open>unicode.IsSpace\<close> of the first rune: its length in bytes, 0 if it is not white space.\<close>

definition space_len :: "string \<Rightarrow> nat" where
  "space_len s =
     (let a = byte_at 0 s; b = byte_at 1 s; c = byte_at 2 s in
      if a \<in> {9, 10, 11, 12, 13, 32} then 1
      else if a = 0xC2 \<and> b \<in> {0x85, 0xA0} then 2
      else if a = 0xE1 \<and> b = 0x9A \<and> c = 0x80 then 3
      else if a = 0xE2 \<and> b = 0x80 \<and> (0x80 \<le> c \<and> c \<le> 0x8A \<or> c \<in> {0xA8, 0xA9, 0xAF}) then 3
      else if a = 0xE2 \<and> b = 0x81 \<and> c = 0x9F then 3
      else if a = 0xE3 \<and> b = 0x80 \<and> c = 0x80 then 3
      else 0)"

lemma byte_at_0 [simp]: "byte_at 0 [] = 0" "byte_at 0 (c # s) = of_char c"
  by (simp_all add: byte_at_def)

lemma space_len_Nil [simp]: "space_len [] = 0"
  by (simp add: space_len_def)

text \<open>\<open>strings.Fields\<close>: the maximal runs without white space. \<open>cur\<close> is the field being read.\<close>

function Fields_loop :: "string \<Rightarrow> string \<Rightarrow> string list" where
  "Fields_loop cur s =
     (if s = [] then (if cur = [] then [] else [cur])
      else if 0 < space_len s
        then (if cur = [] then [] else [cur]) @ Fields_loop [] (drop (space_len s) s)
      else Fields_loop (cur @ [hd s]) (tl s))"
  by pat_completeness auto
termination
  by (relation "measure (\<lambda>(cur, s). length s)") auto

declare Fields_loop.simps [simp del]

definition Fields :: "string \<Rightarrow> string list" where
  "Fields s = Fields_loop [] s"

text \<open>\<open>strings.TrimSpace\<close>.\<close>

function TrimLeft :: "string \<Rightarrow> string" where
  "TrimLeft s = (if 0 < space_len s then TrimLeft (drop (space_len s) s) else s)"
  by pat_completeness auto
termination
proof (relation "measure length", goal_cases)
  case (2 s)
  then show ?case by (cases s) simp_all
qed simp

declare TrimLeft.simps [simp del]

text \<open>A suffix that is one white space rune; the rune starts with a byte that is no continuation
  byte, so it cannot begin inside another rune.\<close>

definition space_suffix :: "string \<Rightarrow> nat" where
  "space_suffix s =
     (if s \<noteq> [] \<and> space_len (drop (length s - 1) s) = 1 then 1
      else if 2 \<le> length s \<and> space_len (drop (length s - 2) s) = 2 then 2
      else if 3 \<le> length s \<and> space_len (drop (length s - 3) s) = 3 then 3
      else 0)"

function TrimRight :: "string \<Rightarrow> string" where
  "TrimRight s = (if 0 < space_suffix s then TrimRight (take (length s - space_suffix s) s) else s)"
  by pat_completeness auto
termination
  by (relation "measure length") (auto simp: space_suffix_def split: if_splits)

declare TrimRight.simps [simp del]

definition TrimSpace :: "string \<Rightarrow> string" where
  "TrimSpace s = TrimRight (TrimLeft s)"

section \<open>Letter case\<close>

definition ascii_lower :: "char \<Rightarrow> char" where
  "ascii_lower c =
     (if 65 \<le> (of_char c :: nat) \<and> (of_char c :: nat) \<le> 90 then char_of (of_char c + 32 :: nat) else c)"

text \<open>\<open>strings.ToLower\<close>, as far as a comparison with an ASCII string can tell: the two runes
  outside ASCII whose lower case is an ASCII letter are U+0130 and U+212A, all others stay outside
  ASCII.\<close>

fun ToLower :: "string \<Rightarrow> string" where
  "ToLower [] = []"
| "ToLower (a # s) =
     (if of_char a = (0xC4 :: nat) \<and> byte_at 0 s = 0xB0 then CHR ''i'' # ToLower (tl s)
      else if of_char a = (0xE2 :: nat) \<and> byte_at 0 s = 0x84 \<and> byte_at 1 s = 0xAA
        then CHR ''k'' # ToLower (drop 2 s)
      else ascii_lower a # ToLower s)"

text \<open>Simple case folding, as far as a comparison with an ASCII string can tell: the runes outside
  ASCII that fold with an ASCII letter are U+017F (with s) and U+212A (with k).\<close>

fun fold_ascii :: "string \<Rightarrow> string" where
  "fold_ascii [] = []"
| "fold_ascii (a # s) =
     (if of_char a = (0xC5 :: nat) \<and> byte_at 0 s = 0xBF then CHR ''s'' # fold_ascii (tl s)
      else if of_char a = (0xE2 :: nat) \<and> byte_at 0 s = 0x84 \<and> byte_at 1 s = 0xAA
        then CHR ''k'' # fold_ascii (drop 2 s)
      else ascii_lower a # fold_ascii s)"

text \<open>\<open>strings.EqualFold(s, t)\<close> for an ASCII \<open>t\<close>.\<close>

definition EqualFold :: "string \<Rightarrow> string \<Rightarrow> bool" where
  "EqualFold s t \<longleftrightarrow> fold_ascii s = fold_ascii t"

section \<open>Split and Index\<close>

text \<open>\<open>strings.Split(s, sep)\<close> for a separator of one byte: there is always a first part.\<close>

fun Split :: "char \<Rightarrow> string \<Rightarrow> string list" where
  "Split sep [] = [[]]"
| "Split sep (c # s) =
     (if c = sep then [] # Split sep s
      else (case Split sep s of p # ps \<Rightarrow> (c # p) # ps | [] \<Rightarrow> [[c]]))"

lemma Split_not_Nil [simp]: "Split sep s \<noteq> []"
  by (cases s) (auto split: list.splits)

lemma Split_no_sep: "p \<in> set (Split sep s) \<Longrightarrow> sep \<notin> set p"
proof (induction s arbitrary: p)
  case (Cons c s)
  then show ?case by (cases "Split sep s") (auto split: if_splits)
qed simp

text \<open>Joining the parts gives the string back.\<close>

fun join :: "char \<Rightarrow> string list \<Rightarrow> string" where
  "join sep [] = []"
| "join sep [p] = p"
| "join sep (p # ps) = p @ sep # join sep ps"

lemma join_Cons: "ps \<noteq> [] \<Longrightarrow> join sep (p # ps) = p @ sep # join sep ps"
  by (cases ps) auto

lemma join_Split: "join sep (Split sep s) = s"
proof (induction s)
  case (Cons c s)
  obtain p ps where "Split sep s = p # ps" by (cases "Split sep s") auto
  with Cons show ?case
    by (cases ps) (auto simp: join_Cons)
qed simp

lemma Split_segment: "sep \<notin> set p \<Longrightarrow> Split sep (p @ sep # s) = p # Split sep s"
  by (induction p) auto

lemma Split_last: "sep \<notin> set p \<Longrightarrow> Split sep p = [p]"
  by (induction p) auto

lemma Split_join:
  "ps \<noteq> [] \<Longrightarrow> \<forall>p \<in> set ps. sep \<notin> set p \<Longrightarrow> Split sep (join sep ps) = ps"
proof (induction ps)
  case (Cons p ps)
  then show ?case
    by (cases ps) (auto simp: Split_last Split_segment)
qed simp

text \<open>The bytes before and after the first occurrence of a byte.\<close>

definition Cut :: "char \<Rightarrow> string \<Rightarrow> (string \<times> string) option" where
  "Cut c s = (if c \<in> set s then Some (takeWhile (\<lambda>x. x \<noteq> c) s, tl (dropWhile (\<lambda>x. x \<noteq> c) s)) else None)"

lemma Cut_append: "c \<notin> set p \<Longrightarrow> Cut c (p @ c # s) = Some (p, s)"
  by (induction p) (auto simp: Cut_def)

section \<open>Facts\<close>

lemma Fields_loop_word:
  "\<forall>i < length w. space_len (drop i w @ s) = 0 \<Longrightarrow> Fields_loop cur (w @ s) = Fields_loop (cur @ w) s"
proof (induction w arbitrary: cur)
  case (Cons c w)
  have "space_len ((c # w) @ s) = 0" using Cons.prems by force
  moreover have "\<forall>i < length w. space_len (drop i w @ s) = 0"
    using Cons.prems by force
  ultimately show ?case
    by (subst Fields_loop.simps) (simp add: Cons.IH)
qed simp

definition plain :: "char \<Rightarrow> bool" where
  "plain c \<longleftrightarrow> 32 < (of_char c :: nat) \<and> (of_char c :: nat) < 128"

lemma space_len_plain: "plain c \<Longrightarrow> space_len (c # s) = 0"
  by (auto simp: space_len_def plain_def Let_def)

lemma space_len_blank: "space_len (CHR '' '' # s) = 1"
  by (simp add: space_len_def)

lemma Fields_two:
  assumes "a \<noteq> []" and "b \<noteq> []" and "\<forall>c \<in> set a. plain c" and "\<forall>c \<in> set b. plain c"
  shows "Fields (a @ CHR '' '' # b) = [a, b]"
proof -
  have w: "\<forall>i < length x. space_len (drop i x @ s) = 0" if "\<forall>c \<in> set x. plain c" for x s
  proof (intro allI impI)
    fix i
    assume "i < length x"
    then have "drop i x = x ! i # drop (Suc i) x" by (simp add: Cons_nth_drop_Suc)
    with that \<open>i < length x\<close> show "space_len (drop i x @ s) = 0"
      by (simp add: space_len_plain)
  qed
  have "Fields_loop [] (a @ CHR '' '' # b) = Fields_loop a (CHR '' '' # b)"
    using Fields_loop_word [OF w [OF assms(3)], of "[]"] by simp
  also have "\<dots> = a # Fields_loop [] b"
    using assms(1) by (subst Fields_loop.simps) (simp add: space_len_blank)
  also have "Fields_loop [] (b @ []) = Fields_loop b []"
    using Fields_loop_word [OF w [OF assms(4)], of "[]" "[]"] by simp
  then have "Fields_loop [] b = [b]"
    using assms(2) by (simp add: Fields_loop.simps)
  finally show ?thesis by (simp add: Fields_def)
qed

end
