(* ===== verification/GoCsv.thy ===== *)
theory GoCsv
  imports GoStrings
begin

text \<open>
  \<open>encoding/csv\<close>: the reader with the settings of \<open>csv.NewReader\<close> (comma, no comments, no lazy
  quotes, every record as long as the first). The input is the text still to be read and the error
  that ends it. Positions in error messages are left out.
\<close>

section \<open>Lines\<close>

definition nl :: char where "nl = CHR 0x0A"
definition cr :: char where "cr = CHR 0x0D"
definition dquote :: char where "dquote = CHR 0x22"
definition comma :: char where "comma = CHR '',''"

lemma csv_chars [simp]:
  "nl \<noteq> cr" "cr \<noteq> nl" "nl \<noteq> dquote" "dquote \<noteq> nl" "nl \<noteq> comma" "comma \<noteq> nl" "cr \<noteq> dquote" "dquote \<noteq> cr"
  "cr \<noteq> comma" "comma \<noteq> cr" "dquote \<noteq> comma" "comma \<noteq> dquote"
  by (simp_all add: nl_def cr_def dquote_def comma_def)

text \<open>\<open>readLine\<close>: a line with its line feed; at the end of the file one without it, less a carriage
  return at its end. A carriage return before a line feed is dropped.\<close>

definition end_crlf :: "string \<Rightarrow> string" where
  "end_crlf l =
     (if 2 \<le> length l \<and> l ! (length l - 2) = cr \<and> last l = nl then take (length l - 2) l @ [nl] else l)"

definition readLine :: "string \<Rightarrow> go_error \<Rightarrow> (string \<times> go_error option) \<times> string" where
  "readLine s fin =
     (if nl \<in> set s
      then ((end_crlf (takeWhile (\<lambda>c. c \<noteq> nl) s @ [nl]), None), tl (dropWhile (\<lambda>c. c \<noteq> nl) s))
      else if s \<noteq> [] \<and> fin = EOF
        then ((end_crlf (if last s = cr then butlast s else s), None), [])
      else ((end_crlf s, Some fin), []))"

lemma length_split:
  assumes "x \<in> set s"
  shows "length (takeWhile (\<lambda>c. c \<noteq> x) s) + Suc (length (tl (dropWhile (\<lambda>c. c \<noteq> x) s))) = length s"
proof -
  have "dropWhile (\<lambda>c. c \<noteq> x) s \<noteq> []" using assms by (simp add: dropWhile_eq_Nil_conv)
  then have "Suc (length (tl (dropWhile (\<lambda>c. c \<noteq> x) s))) = length (dropWhile (\<lambda>c. c \<noteq> x) s)" by simp
  moreover have "length (takeWhile (\<lambda>c. c \<noteq> x) s) + length (dropWhile (\<lambda>c. c \<noteq> x) s) = length s"
    by (metis length_append takeWhile_dropWhile_id)
  ultimately show ?thesis by linarith
qed

lemma length_end_crlf: "length (end_crlf l) \<le> length l"
  by (auto simp: end_crlf_def)

lemma readLine_length:
  assumes "readLine s fin = ((line, err), s')"
  shows "length line + length s' \<le> length s" and "err = None \<Longrightarrow> length s' < length s"
proof -
  have "length line + length s' \<le> length s \<and> (err = None \<longrightarrow> length s' < length s)"
  proof (cases "nl \<in> set s")
    case True
    with assms length_end_crlf [of "takeWhile (\<lambda>c. c \<noteq> nl) s @ [nl]"] length_split [OF True] show ?thesis
      by (auto simp: readLine_def)
  next
    case False
    have "length (end_crlf (butlast s)) \<le> length s" "length (end_crlf s) \<le> length s"
      using length_end_crlf [of "butlast s"] length_end_crlf [of s] by simp_all
    with False assms show ?thesis by (auto simp: readLine_def split: if_splits)
  qed
  then show "length line + length s' \<le> length s" "err = None \<Longrightarrow> length s' < length s" by simp_all
qed

text \<open>Empty lines are skipped.\<close>

function next_line :: "string \<Rightarrow> go_error \<Rightarrow> (string \<times> go_error option) \<times> string" where
  "next_line s fin =
     (case readLine s fin of
        ((line, err), s') \<Rightarrow>
          if err = None then (if line = [] \<or> line = [nl] then next_line s' fin else ((line, err), s'))
          else ((line, err), s'))"
  by pat_completeness auto
termination
  by (relation "measure (\<lambda>(s, fin). length s)") (auto dest: readLine_length(2) [OF sym])

declare next_line.simps [simp del]

lemma readLine_step: "((line', er'), s') = readLine s fin \<Longrightarrow> line \<noteq> [] \<Longrightarrow> length line' + length s' < length line + length s"
  using readLine_length(1) [of s fin line' er' s'] by (cases line) auto

section \<open>Fields\<close>

definition ErrBareQuote :: go_error where "ErrBareQuote = OtherError ''bare quote in non-quoted field''"
definition ErrQuote :: go_error where "ErrQuote = OtherError ''extraneous or missing quote in quoted field''"
definition ErrFieldCount :: go_error where "ErrFieldCount = OtherError ''wrong number of fields''"

definition strip_nl :: "string \<Rightarrow> string" where
  "strip_nl l = (if l \<noteq> [] \<and> last l = nl then butlast l else l)"

type_synonym csv_result = "(string list \<times> go_error option) \<times> string"

text \<open>The fields of a record: \<open>line\<close> is what is left of the current line, \<open>s\<close> the text after it,
  \<open>er\<close> the error met while reading the line, \<open>fs\<close> the fields so far, \<open>cur\<close> the contents so far of a
  quoted field, which may go on over several lines.\<close>

function parse_fields :: "go_error \<Rightarrow> string \<Rightarrow> string \<Rightarrow> go_error option \<Rightarrow> string list \<Rightarrow> csv_result"
  and parse_quoted :: "go_error \<Rightarrow> string \<Rightarrow> string \<Rightarrow> go_error option \<Rightarrow> string \<Rightarrow> string list \<Rightarrow> csv_result"
  where
  "parse_fields fin line s er fs =
     (if line = [] \<or> hd line \<noteq> dquote then
        (let field = (if comma \<in> set line then takeWhile (\<lambda>c. c \<noteq> comma) line else strip_nl line) in
         if dquote \<in> set field then ((fs, Some ErrBareQuote), s)
         else if comma \<in> set line
           then parse_fields fin (tl (dropWhile (\<lambda>c. c \<noteq> comma) line)) s er (fs @ [field])
         else ((fs @ [field], er), s))
      else parse_quoted fin (tl line) s er [] fs)"
| "parse_quoted fin line s er cur fs =
     (if dquote \<in> set line then
        (let pre = takeWhile (\<lambda>c. c \<noteq> dquote) line; l = tl (dropWhile (\<lambda>c. c \<noteq> dquote) line) in
         if l \<noteq> [] \<and> hd l = dquote then parse_quoted fin (tl l) s er (cur @ pre @ [dquote]) fs
         else if l \<noteq> [] \<and> hd l = comma then parse_fields fin (tl l) s er (fs @ [cur @ pre])
         else if l = [] \<or> l = [nl] then ((fs @ [cur @ pre], er), s)
         else ((fs, Some ErrQuote), s))
      else if line \<noteq> [] then
        (if er \<noteq> None then ((fs, er), s)
         else (case readLine s fin of
                 ((line', er'), s') \<Rightarrow>
                   parse_quoted fin line' s' (if er' = Some EOF then None else er') (cur @ line) fs))
      else (if er = None then ((fs, Some ErrQuote), s) else ((fs @ [cur], er), s)))"
  by pat_completeness auto
termination
proof (relation "measure (\<lambda>x. case x of
    Inl (fin, line, s, er, fs) \<Rightarrow> length line + length s
  | Inr (fin, line, s, er, cur, fs) \<Rightarrow> length line + length s)", goal_cases)
  case (2 fin line s er fs x)
  then have "comma \<in> set line" by auto
  from length_split [OF this] show ?case by simp
next
  case (4 fin line s er cur fs x xa)
  then have "dquote \<in> set line" by auto
  from length_split [OF this] 4(3) have "length (tl xa) < length line" by simp
  then show ?case by simp
next
  case (5 fin line s er cur fs x xa)
  then have "dquote \<in> set line" by auto
  from length_split [OF this] 5(3) have "length (tl xa) < length line" by simp
  then show ?case by simp
next
  case 6
  then show ?case by (auto dest: readLine_step)
qed auto

declare parse_fields.simps [simp del] parse_quoted.simps [simp del]

section \<open>Records\<close>

record csv_reader =
  cr_rest :: string
  cr_fin :: go_error
  cr_fields :: nat

definition NewReader :: "string \<Rightarrow> go_error \<Rightarrow> csv_reader" where
  "NewReader s fin = \<lparr>cr_rest = s, cr_fin = fin, cr_fields = 0\<rparr>"

definition csv_Read :: "csv_reader \<Rightarrow> (go_error + string list) \<times> csv_reader" where
  "csv_Read r =
     (case next_line (cr_rest r) (cr_fin r) of
        ((line, er), s) \<Rightarrow>
          if er = Some EOF then (Inl EOF, r\<lparr>cr_rest := s\<rparr>)
          else
           (case parse_fields (cr_fin r) line s er [] of
              ((fs, err), s') \<Rightarrow>
                (let n = cr_fields r;
                     err' = (if 0 < n \<and> length fs \<noteq> n \<and> err = None then Some ErrFieldCount else err);
                     r' = r\<lparr>cr_rest := s', cr_fields := (if 0 < n then n else length fs)\<rparr>
                 in case err' of None \<Rightarrow> (Inr fs, r') | Some e \<Rightarrow> (Inl e, r'))))"

end
