(* ===== verification/GoCsvProps.thy ===== *)
theory GoCsvProps
  imports GoCsv
begin

text \<open>
  The CSV reader makes progress with every record, and reads back what a CSV writer writes: lines
  of fields that are quoted where they have to be.
\<close>

section \<open>Progress\<close>

lemma parse_rest:
  "parse_fields fin line s er fs = (res, s') \<Longrightarrow> length s' \<le> length s \<and> (er \<noteq> None \<longrightarrow> snd res \<noteq> None)"
  "parse_quoted fin line s er cur fs = (res, s') \<Longrightarrow> length s' \<le> length s \<and> (er \<noteq> None \<longrightarrow> snd res \<noteq> None)"
proof (induction fin line s er fs and fin line s er cur fs arbitrary: res s' and res s'
    rule: parse_fields_parse_quoted.induct)
  case (1 fin line s er fs)
  let ?field = "if comma \<in> set line then takeWhile (\<lambda>c. c \<noteq> comma) line else strip_nl line"
  consider (quoted) "\<not> (line = [] \<or> hd line \<noteq> dquote)"
    | (more) "line = [] \<or> hd line \<noteq> dquote" "dquote \<notin> set ?field" "comma \<in> set line"
    | (stop) "line = [] \<or> hd line \<noteq> dquote" "dquote \<in> set ?field \<or> comma \<notin> set line"
    by blast
  then show ?case
  proof cases
    case quoted
    with "1.prems" have "parse_quoted fin (tl line) s er [] fs = (res, s')"
      by (simp add: parse_fields.simps [of fin line])
    from "1.IH"(2) [OF quoted this] show ?thesis .
  next
    case more
    with "1.prems" have "parse_fields fin (tl (dropWhile (\<lambda>c. c \<noteq> comma) line)) s er (fs @ [?field]) = (res, s')"
      by (simp add: parse_fields.simps [of fin line] Let_def)
    from "1.IH"(1) [OF more(1) refl more(2,3) this] show ?thesis .
  next
    case stop
    with "1.prems" show ?thesis by (auto simp: parse_fields.simps [of fin line] Let_def split: if_splits)
  qed
next
  case (2 fin line s er cur fs)
  let ?pre = "takeWhile (\<lambda>c. c \<noteq> dquote) line" and ?l = "tl (dropWhile (\<lambda>c. c \<noteq> dquote) line)"
  consider (again) "dquote \<in> set line" "?l \<noteq> [] \<and> hd ?l = dquote"
    | (field) "dquote \<in> set line" "\<not> (?l \<noteq> [] \<and> hd ?l = dquote)" "?l \<noteq> [] \<and> hd ?l = comma"
    | (stop) "dquote \<in> set line" "\<not> (?l \<noteq> [] \<and> hd ?l = dquote)" "\<not> (?l \<noteq> [] \<and> hd ?l = comma)"
    | (line) "dquote \<notin> set line" "line \<noteq> []" "er = None"
    | (last) "dquote \<notin> set line" "line = [] \<or> er \<noteq> None"
    by blast
  then show ?case
  proof cases
    case again
    with "2.prems" have "parse_quoted fin (tl ?l) s er (cur @ ?pre @ [dquote]) fs = (res, s')"
      by (simp add: parse_quoted.simps [of fin line] Let_def)
    from "2.IH"(1) [OF again(1) refl refl again(2) this] show ?thesis .
  next
    case field
    have "parse_fields fin (tl ?l) s er (fs @ [cur @ ?pre]) = (res, s')"
      using "2.prems" field(1,3) by (simp add: parse_quoted.simps [of fin line] Let_def)
    from "2.IH"(2) [OF field(1) refl refl field(2,3) this] show ?thesis .
  next
    case stop
    have "(if ?l = [] \<or> ?l = [nl] then ((fs @ [cur @ ?pre], er), s) else ((fs, Some ErrQuote), s)) = (res, s')"
      using "2.prems" unfolding parse_quoted.simps [of fin line] Let_def if_P [OF stop(1)] if_not_P [OF stop(2)]
        if_not_P [OF stop(3)] .
    then show ?thesis by (auto split: if_splits)
  next
    case line
    obtain line' er' s1 where rl: "readLine s fin = ((line', er'), s1)" by (metis prod.exhaust)
    with "2.prems" line have "parse_quoted fin line' s1 (if er' = Some EOF then None else er') (cur @ line) fs = (res, s')"
      by (simp add: parse_quoted.simps [of fin line])
    moreover have "\<not> er \<noteq> None" using line(3) by simp
    ultimately have "length s' \<le> length s1" using "2.IH"(3) [OF line(1,2) _ rl [symmetric] refl] by blast
    with readLine_length(1) [OF rl] line(3) show ?thesis by simp
  next
    case last
    with "2.prems" show ?thesis by (auto simp: parse_quoted.simps [of fin line] split: if_splits)
  qed
qed

lemma next_line_rest: "next_line s fin = ((line, err), s') \<Longrightarrow> length s' \<le> length s \<and> (err = None \<longrightarrow> length s' < length s)"
proof (induction s fin rule: next_line.induct)
  case (1 s fin)
  obtain l e s1 where rl: "readLine s fin = ((l, e), s1)" by (metis prod.exhaust)
  show ?case
  proof (cases "e = None \<and> (l = [] \<or> l = [nl])")
    case True
    with "1.prems" rl have "next_line s1 fin = ((line, err), s')" by (simp add: next_line.simps [of s])
    with "1.IH" [OF rl [symmetric] refl] True readLine_length(2) [OF rl] show ?thesis by auto
  next
    case False
    with "1.prems" rl readLine_length [OF rl] show ?thesis
      by (auto simp: next_line.simps [of s] split: if_splits)
  qed
qed

lemma csv_Read_progress:
  assumes "csv_Read r = (Inr fs, r')"
  shows "length (cr_rest r') < length (cr_rest r)"
proof -
  obtain line er s where nl: "next_line (cr_rest r) (cr_fin r) = ((line, er), s)" by (metis prod.exhaust)
  obtain gs err s' where pf: "parse_fields (cr_fin r) line s er [] = ((gs, err), s')" by (metis prod.exhaust)
  from assms nl pf have "err = None" "cr_rest r' = s'"
    by (auto simp: csv_Read_def Let_def split: if_splits option.splits)
  with next_line_rest [OF nl] parse_rest(1) [OF pf] show ?thesis by (cases er) auto
qed

section \<open>Written records\<close>

definition special :: "char \<Rightarrow> bool" where
  "special c \<longleftrightarrow> c = comma \<or> c = dquote \<or> c = nl"

definition double_quotes :: "string \<Rightarrow> string" where
  "double_quotes f = concat (map (\<lambda>c. if c = dquote then [dquote, dquote] else [c]) f)"

definition field_text :: "string \<Rightarrow> string" where
  "field_text f = (if \<exists>c \<in> set f. special c then dquote # double_quotes f @ [dquote] else f)"

definition csv_line :: "string list \<Rightarrow> string" where
  "csv_line fs = join comma (map field_text fs) @ [nl]"

text \<open>A record without fields cannot be written, and one with a single empty field is an empty line,
  which is skipped. Carriage returns are not for sure read back.\<close>

definition csv_ok :: "string list \<Rightarrow> bool" where
  "csv_ok fs \<longleftrightarrow> fs \<noteq> [] \<and> fs \<noteq> [[]] \<and> (\<forall>f \<in> set fs. cr \<notin> set f)"

text \<open>The first line of a text and what follows it.\<close>

definition fl :: "string \<Rightarrow> string" where "fl t = takeWhile (\<lambda>c. c \<noteq> nl) t @ [nl]"
definition rl :: "string \<Rightarrow> string" where "rl t = tl (dropWhile (\<lambda>c. c \<noteq> nl) t)"

lemma fl_simps [simp]: "fl (nl # t) = [nl]" "c \<noteq> nl \<Longrightarrow> fl (c # t) = c # fl t" "fl t \<noteq> []"
  by (simp_all add: fl_def)

lemma rl_simps [simp]: "rl (nl # t) = t" "c \<noteq> nl \<Longrightarrow> rl (c # t) = rl t"
  by (simp_all add: rl_def)

lemma fl_append: "nl \<notin> set p \<Longrightarrow> fl (p @ t) = p @ fl t" "nl \<notin> set p \<Longrightarrow> rl (p @ t) = rl t"
  by (induction p) auto

lemma readLine_fl:
  assumes "nl \<in> set t" and "cr \<notin> set t"
  shows "readLine t fin = ((fl t, None), rl t)"
proof -
  have "\<forall>i < length (fl t). fl t ! i \<noteq> cr"
    using assms(2) set_takeWhileD by (fastforce simp: fl_def dest: nth_mem)
  then have "end_crlf (fl t) = fl t" by (simp add: end_crlf_def)
  with assms(1) show ?thesis by (simp add: readLine_def fl_def rl_def)
qed

lemma parse_quoted_Cons:
  assumes "c \<noteq> dquote" and "line \<noteq> []"
  shows "parse_quoted fin (c # line) s None cur fs = parse_quoted fin line s None (cur @ [c]) fs"
  using assms by (simp add: parse_quoted.simps [of fin "c # line"] parse_quoted.simps [of fin line] Let_def)

lemma double_quotes_simps [simp]:
  "double_quotes [] = []" "double_quotes (dquote # f) = dquote # dquote # double_quotes f"
  "c \<noteq> dquote \<Longrightarrow> double_quotes (c # f) = c # double_quotes f"
  by (simp_all add: double_quotes_def)

lemma set_double_quotes [simp]: "set (double_quotes f) = set f"
  by (induction f) (auto simp: double_quotes_def)

text \<open>\<open>after fin t u gs\<close>: what is read after a field: the next field, or the record is complete.\<close>

definition after :: "go_error \<Rightarrow> char \<Rightarrow> string \<Rightarrow> string list \<Rightarrow> csv_result" where
  "after fin t u gs = (if t = comma then parse_fields fin (fl u) (rl u) None gs else ((gs, None), u))"

lemma parse_quoted_reads:
  assumes "t = comma \<and> nl \<in> set u \<or> t = nl"
  shows "cr \<notin> set f \<Longrightarrow> cr \<notin> set u \<Longrightarrow> w = double_quotes f @ dquote # t # u \<Longrightarrow>
    parse_quoted fin (fl w) (rl w) None cur fs = after fin t u (fs @ [cur @ f])"
proof (induction f arbitrary: w cur)
  case Nil
  then have w: "w = dquote # t # u" by simp
  from assms show ?case
    by (elim disjE) (auto simp: w parse_quoted.simps [of _ "dquote # _"] after_def)
next
  case (Cons c f)
  let ?v = "double_quotes f @ dquote # t # u"
  have nlv: "nl \<in> set ?v" "cr \<notin> set ?v" using assms Cons.prems(1,2) by auto
  have IH: "parse_quoted fin (fl ?v) (rl ?v) None (cur @ [c]) fs = after fin t u (fs @ [cur @ c # f])"
    using Cons.IH [OF _ Cons.prems(2) refl, of "cur @ [c]"] Cons.prems(1) by simp
  consider "c = dquote" | "c = nl" | "c \<noteq> dquote" "c \<noteq> nl" by blast
  then show ?case
  proof cases
    case 1
    with Cons.prems(3) have "w = dquote # dquote # ?v" by simp
    with IH 1 show ?thesis by (simp add: parse_quoted.simps [of _ "dquote # _"])
  next
    case 2
    with Cons.prems(3) have "w = nl # ?v" by simp
    with IH 2 readLine_fl [OF nlv, of fin] show ?thesis by (simp add: parse_quoted.simps [of _ "[nl]"])
  next
    case 3
    with Cons.prems(3) have "w = c # ?v" by simp
    with IH 3 show ?thesis by (simp add: parse_quoted_Cons)
  qed
qed

lemma parse_field_reads:
  assumes "t = comma \<and> nl \<in> set u \<or> t = nl" and "cr \<notin> set f" and "cr \<notin> set u"
  shows "parse_fields fin (fl (field_text f @ t # u)) (rl (field_text f @ t # u)) None fs = after fin t u (fs @ [f])"
proof (cases "\<exists>c \<in> set f. special c")
  case True
  let ?w = "double_quotes f @ dquote # t # u"
  have "field_text f @ t # u = dquote # ?w" using True by (simp add: field_text_def)
  with parse_quoted_reads [OF assms refl, of fin "[]" fs] show ?thesis
    by (simp add: parse_fields.simps [of _ "dquote # _"])
next
  case False
  then have f: "field_text f = f" "comma \<notin> set f" "dquote \<notin> set f" "nl \<notin> set f"
    by (auto simp: field_text_def special_def)
  have hd: "hd (f @ x # y) \<noteq> dquote" if "x \<noteq> dquote" for x y using f(3) that by (cases f) auto
  from assms(1) show ?thesis
  proof (elim disjE conjE)
    assume t: "t = comma"
    have "takeWhile (\<lambda>c. c \<noteq> comma) (f @ comma # fl u) = f" "dropWhile (\<lambda>c. c \<noteq> comma) (f @ comma # fl u) = comma # fl u"
      using f(2) by (simp_all add: takeWhile_neq_append dropWhile_neq_append)
    with t hd f show ?thesis
      by (simp add: fl_append after_def parse_fields.simps [of _ "f @ comma # fl u"])
  next
    assume t: "t = nl"
    with hd f show ?thesis
      by (simp add: fl_append after_def parse_fields.simps [of _ "f @ [nl]"] strip_nl_def)
  qed
qed

lemma set_join: "set (join c xs) \<subseteq> insert c (\<Union> (set ` set xs))"
  by (induction c xs rule: join.induct) auto

lemma parse_record:
  "fs \<noteq> [] \<Longrightarrow> \<forall>f \<in> set fs. cr \<notin> set f \<Longrightarrow> cr \<notin> set u \<Longrightarrow> w = join comma (map field_text fs) @ nl # u \<Longrightarrow>
   parse_fields fin (fl w) (rl w) None gs = ((gs @ fs, None), u)"
proof (induction fs arbitrary: w gs)
  case (Cons f fs)
  have cf: "cr \<notin> set f" using Cons.prems(2) by simp
  show ?case
  proof (cases "fs = []")
    case True
    with Cons.prems(4) parse_field_reads [of nl u f fin gs] cf Cons.prems(3) show ?thesis
      by (simp add: after_def)
  next
    case False
    let ?v = "join comma (map field_text fs) @ nl # u"
    have w: "w = field_text f @ comma # ?v" using Cons.prems(4) False by (simp add: join_Cons)
    have "cr \<notin> set (join comma (map field_text fs))"
    proof -
      have "cr \<notin> set (field_text g)" if "g \<in> set fs" for g
        using Cons.prems(2) that by (auto simp: field_text_def)
      with set_join [of comma "map field_text fs"] show ?thesis by fastforce
    qed
    then have "cr \<notin> set ?v" using Cons.prems(3) by simp
    from parse_field_reads [OF _ cf this, of comma fin gs] have
      "parse_fields fin (fl w) (rl w) None gs = parse_fields fin (fl ?v) (rl ?v) None (gs @ [f])"
      by (simp add: w after_def)
    also have "\<dots> = ((gs @ [f] @ fs, None), u)"
      using Cons.IH [OF False _ Cons.prems(3) refl, of "gs @ [f]"] Cons.prems(2) by simp
    finally show ?thesis by simp
  qed
qed simp

lemma cr_csv_line: "csv_ok fs \<Longrightarrow> cr \<notin> set (csv_line fs)"
proof -
  assume ok: "csv_ok fs"
  have "cr \<notin> set (field_text g)" if "g \<in> set fs" for g
    using ok that by (auto simp: field_text_def csv_ok_def)
  with set_join [of comma "map field_text fs"] show ?thesis by (fastforce simp: csv_line_def)
qed

lemma next_line_record:
  assumes "csv_ok fs" and "cr \<notin> set u"
  shows "next_line (csv_line fs @ u) fin = ((fl (csv_line fs @ u), None), rl (csv_line fs @ u))"
proof -
  obtain f gs where fs: "fs = f # gs" using assms(1) by (cases fs) (auto simp: csv_ok_def)
  have "\<exists>c y. csv_line fs @ u = c # y \<and> c \<noteq> nl"
  proof (cases "f = []")
    case True
    then obtain g hs where "gs = g # hs" using assms(1) fs by (cases gs) (auto simp: csv_ok_def)
    with True show ?thesis by (simp add: fs csv_line_def field_text_def)
  next
    case False
    then obtain c y where "f = c # y" by (cases f) auto
    then show ?thesis by (cases gs) (auto simp: fs csv_line_def field_text_def special_def join_Cons)
  qed
  then obtain c y where c: "csv_line fs @ u = c # y" "c \<noteq> nl" by blast
  have "cr \<notin> set (csv_line fs @ u)" using cr_csv_line [OF assms(1)] assms(2) by simp
  moreover have "nl \<in> set (csv_line fs @ u)" by (simp add: csv_line_def)
  ultimately have "readLine (csv_line fs @ u) fin = ((fl (csv_line fs @ u), None), rl (csv_line fs @ u))"
    by (intro readLine_fl)
  then show ?thesis by (subst next_line.simps) (simp add: c)
qed

text \<open>One record, and the end of the file.\<close>

lemma csv_Read_line:
  assumes "csv_ok fs" and "cr \<notin> set u" and "cr_rest r = csv_line fs @ u" and "cr_fields r \<in> {0, length fs}"
  shows "csv_Read r = (Inr fs, r\<lparr>cr_rest := u, cr_fields := length fs\<rparr>)"
proof -
  have "parse_fields (cr_fin r) (fl (csv_line fs @ u)) (rl (csv_line fs @ u)) None [] = (([] @ fs, None), u)"
    using assms(1) by (intro parse_record assms(2)) (auto simp: csv_ok_def csv_line_def)
  with next_line_record [OF assms(1,2), of "cr_fin r"] assms(3,4) show ?thesis
    by (auto simp: csv_Read_def)
qed

lemma csv_Read_end:
  assumes "cr_rest r = []" and "cr_fin r = EOF"
  shows "csv_Read r = (Inl EOF, r)"
proof -
  have "next_line [] EOF = (([], Some EOF), [])"
    by (subst next_line.simps) (simp add: readLine_def end_crlf_def)
  with assms show ?thesis by (simp add: csv_Read_def)
qed

end
