(* ===== verification/GoTime.thy ===== *)
theory GoTime
  imports GoStrings "HOL-Library.Monad_Syntax"
begin

text \<open>
  Go's \<open>time.Time\<close> as the repository uses it: written and read in the layout
  \<open>time.RFC3339Nano\<close>, compared with the zero time, replaced by the current time. A time is its
  civil date and time of day together with the offset of its zone in seconds east of UTC, so that
  it is written back in the zone in which it was read.
\<close>

section \<open>Times\<close>

record time =
  year :: int
  month :: nat
  day :: nat
  hour :: nat
  minute :: nat
  second :: nat
  nsec :: nat
  offset :: int

definition is_leap :: "int \<Rightarrow> bool" where
  "is_leap y \<longleftrightarrow> y mod 4 = 0 \<and> (y mod 100 \<noteq> 0 \<or> y mod 400 = 0)"

definition daysIn :: "nat \<Rightarrow> int \<Rightarrow> nat" where
  "daysIn m y =
     (if m = 2 then (if is_leap y then 29 else 28) else if m \<in> {4, 6, 9, 11} then 30 else 31)"

definition time_wf :: "time \<Rightarrow> bool" where
  "time_wf t \<longleftrightarrow> 0 \<le> year t \<and> year t \<le> 9999 \<and> 1 \<le> month t \<and> month t \<le> 12 \<and>
     1 \<le> day t \<and> day t \<le> daysIn (month t) (year t) \<and> hour t < 24 \<and> minute t < 60 \<and>
     second t < 60 \<and> nsec t < 10 ^ 9 \<and> offset t mod 60 = 0 \<and> \<bar>offset t\<bar> \<le> 24 * 3600"

text \<open>\<open>time.Time{}\<close>: January 1 of year 1, 00:00 UTC.\<close>

definition zero_time :: time where
  "zero_time = \<lparr>year = 1, month = 1, day = 1, hour = 0, minute = 0, second = 0, nsec = 0, offset = 0\<rparr>"

text \<open>Days since January 1 of year 1, and the instant in seconds.\<close>

definition days_before_year :: "int \<Rightarrow> int" where
  "days_before_year y = 365 * (y - 1) + (y - 1) div 4 - (y - 1) div 100 + (y - 1) div 400"

definition days_before_month :: "nat \<Rightarrow> int \<Rightarrow> nat" where
  "days_before_month m y = (\<Sum>k \<leftarrow> [1..<m]. daysIn k y)"

definition abs_seconds :: "time \<Rightarrow> int" where
  "abs_seconds t =
     (days_before_year (year t) + int (days_before_month (month t) (year t)) + int (day t) - 1) * 86400 +
     int (hour t) * 3600 + int (minute t) * 60 + int (second t) - offset t"

definition IsZero :: "time \<Rightarrow> bool" where
  "IsZero t \<longleftrightarrow> abs_seconds t = 0 \<and> nsec t = 0"

text \<open>The order of instants.\<close>

definition time_le :: "time \<Rightarrow> time \<Rightarrow> bool" where
  "time_le s t \<longleftrightarrow> abs_seconds s < abs_seconds t \<or> abs_seconds s = abs_seconds t \<and> nsec s \<le> nsec t"

lemma zero_time_IsZero: "IsZero zero_time"
  by (simp add: IsZero_def zero_time_def abs_seconds_def days_before_year_def days_before_month_def)

section \<open>Digits\<close>

definition digit :: "nat \<Rightarrow> char" where
  "digit n = char_of (48 + n mod 10)"

fun digits :: "nat \<Rightarrow> nat \<Rightarrow> string" where
  "digits 0 n = []"
| "digits (Suc w) n = digits w (n div 10) @ [digit n]"

fun digits_nat :: "string \<Rightarrow> nat" where
  "digits_nat [] = 0"
| "digits_nat (c # cs) = digit_val c * 10 ^ length cs + digits_nat cs"

lemma of_char_digit [simp]: "(of_char (digit n) :: nat) = 48 + n mod 10"
  unfolding digit_def by (simp add: of_char_of take_bit_nat_eq_self)

lemma digit_simps [simp]: "is_digit (digit n)" "digit_val (digit n) = n mod 10"
  by (simp_all add: is_digit_def digit_val_def)

lemma length_digits [simp]: "length (digits w n) = w"
  by (induction w arbitrary: n) auto

lemma is_digit_digits: "c \<in> set (digits w n) \<Longrightarrow> is_digit c"
  by (induction w arbitrary: n) auto

lemma digits_nat_append: "digits_nat (xs @ [c]) = 10 * digits_nat xs + digit_val c"
  by (induction xs) (auto simp: algebra_simps)

lemma digits_nat_digits: "n < 10 ^ w \<Longrightarrow> digits_nat (digits w n) = n"
proof (induction w arbitrary: n)
  case (Suc w)
  then have "n div 10 < 10 ^ w" by (simp add: less_mult_imp_div_less mult.commute)
  with Suc.IH show ?case by (simp add: digits_nat_append)
qed simp

section \<open>Format\<close>

fun num_digits :: "nat \<Rightarrow> nat" where
  "num_digits n = (if n < 10 then 1 else Suc (num_digits (n div 10)))"

declare num_digits.simps [simp del]

text \<open>A number padded with zeros to a width.\<close>

definition appendInt :: "int \<Rightarrow> nat \<Rightarrow> string" where
  "appendInt x w =
     (let n = nat \<bar>x\<bar> in (if x < 0 then ''-'' else []) @ digits (max w (num_digits n)) n)"

text \<open>\<open>strconv.Itoa\<close>, and \<open>%d\<close>.\<close>

definition itoa :: "int \<Rightarrow> string" where
  "itoa n = appendInt n 0"

text \<open>The fraction of the second without its trailing zeros.\<close>

definition strip_zeros :: "string \<Rightarrow> string" where
  "strip_zeros s = rev (dropWhile (\<lambda>c. c = CHR ''0'') (rev s))"

definition format_nano :: "nat \<Rightarrow> string" where
  "format_nano n = (let ds = strip_zeros (digits 9 n) in if ds = [] then [] else CHR ''.'' # ds)"

definition format_zone :: "int \<Rightarrow> string" where
  "format_zone off =
     (if off = 0 then ''Z''
      else (let z = nat (\<bar>off\<bar> div 60) in
        (if off < 0 then CHR ''-'' else CHR ''+'') # digits 2 (z div 60) @ CHR '':'' # digits 2 (z mod 60)))"

definition FormatRFC3339Nano :: "time \<Rightarrow> string" where
  "FormatRFC3339Nano t =
     appendInt (year t) 4 @ CHR ''-'' # digits 2 (month t) @ CHR ''-'' # digits 2 (day t) @
     CHR ''T'' # digits 2 (hour t) @ CHR '':'' # digits 2 (minute t) @ CHR '':'' # digits 2 (second t) @
     format_nano (nsec t) @ format_zone (offset t)"

section \<open>Parse\<close>

definition expect :: "char \<Rightarrow> string \<Rightarrow> string option" where
  "expect c s = (case s of x # r \<Rightarrow> if x = c then Some r else None | [] \<Rightarrow> None)"

text \<open>A number of two digits, or of one if that is allowed.\<close>

fun getnum :: "bool \<Rightarrow> string \<Rightarrow> (nat \<times> string) option" where
  "getnum fixed (a # b # r) =
     (if \<not> is_digit a then None
      else if is_digit b then Some (10 * digit_val a + digit_val b, r)
      else if fixed then None else Some (digit_val a, b # r))"
| "getnum fixed [a] = (if is_digit a \<and> \<not> fixed then Some (digit_val a, []) else None)"
| "getnum fixed [] = None"

definition getyear :: "string \<Rightarrow> (nat \<times> string) option" where
  "getyear s =
     (if 4 \<le> length s \<and> (\<forall>c \<in> set (take 4 s). is_digit c)
      then Some (digits_nat (take 4 s), drop 4 s) else None)"

text \<open>An optional fraction after a point or a comma; digits beyond the ninth are dropped.\<close>

definition frac_value :: "string \<Rightarrow> nat" where
  "frac_value ns = digits_nat ns * 10 ^ (9 - length ns)"

definition getfrac :: "string \<Rightarrow> nat \<times> string" where
  "getfrac s =
     (case s of
        p # c # r \<Rightarrow>
          if (p = CHR ''.'' \<or> p = CHR '','') \<and> is_digit c
          then (frac_value (take 9 (takeWhile is_digit (c # r))), dropWhile is_digit (c # r))
          else (0, s)
      | _ \<Rightarrow> (0, s))"

text \<open>The zone. Offsets of 24 hours or 60 minutes are let through.\<close>

definition getzone :: "string \<Rightarrow> (int \<times> string) option" where
  "getzone s =
     (case s of
        [] \<Rightarrow> None
      | c # r \<Rightarrow>
          if c = CHR ''Z'' then Some (0, r)
          else if length s < 6 \<or> s ! 3 \<noteq> CHR '':'' then None
          else do {
            (hr, _) \<leftarrow> getnum True (take 2 r);
            (mm, _) \<leftarrow> getnum True (take 2 (drop 3 r));
            (if hr \<le> 24 \<and> mm \<le> 60 \<and> (c = CHR ''+'' \<or> c = CHR ''-'')
             then Some ((if c = CHR ''-'' then -1 else 1) * (int hr * 60 + int mm) * 60, drop 5 r)
             else None)
          })"

definition ParseRFC3339Nano :: "string \<Rightarrow> time option" where
  "ParseRFC3339Nano s0 = do {
     (y, s1) \<leftarrow> getyear s0;
     s2 \<leftarrow> expect CHR ''-'' s1;
     (mo, s3) \<leftarrow> getnum True s2;
     s4 \<leftarrow> expect CHR ''-'' s3;
     (d, s5) \<leftarrow> getnum True s4;
     s6 \<leftarrow> expect CHR ''T'' s5;
     (h, s7) \<leftarrow> getnum False s6;
     s8 \<leftarrow> expect CHR '':'' s7;
     (mi, s9) \<leftarrow> getnum True s8;
     s10 \<leftarrow> expect CHR '':'' s9;
     (se, s11) \<leftarrow> getnum True s10;
     let (ns, s12) = getfrac s11;
     (off, s13) \<leftarrow> getzone s12;
     (if s13 = [] \<and> 1 \<le> mo \<and> mo \<le> 12 \<and> 1 \<le> d \<and> d \<le> daysIn mo (int y) \<and>
         h < 24 \<and> mi < 60 \<and> se < 60
      then Some \<lparr>year = int y, month = mo, day = d, hour = h, minute = mi, second = se,
                 nsec = ns, offset = off\<rparr>
      else None)
   }"

section \<open>Round trip\<close>

lemma expect_Cons [simp]: "expect c (c # r) = Some r"
  by (simp add: expect_def)

lemma digits_2: "digits 2 n = [digit (n div 10), digit n]"
  by (simp add: numeral_2_eq_2)

lemma getnum_digits [simp]: "n < 100 \<Longrightarrow> getnum fixed (digits 2 n @ r) = Some (n, r)"
  by (simp add: digits_2)

lemma num_digits_le: "n < 10 ^ Suc w \<Longrightarrow> num_digits n \<le> Suc w"
proof (induction w arbitrary: n)
  case 0
  then show ?case by (simp add: num_digits.simps)
next
  case (Suc w)
  then have "n div 10 < 10 ^ Suc w" by (simp add: less_mult_imp_div_less mult.commute)
  with Suc.IH [of "n div 10"] show ?case by (subst num_digits.simps) simp
qed

lemma getyear_appendInt:
  assumes "0 \<le> y" and "y \<le> 9999"
  shows "getyear (appendInt y 4 @ r) = Some (nat y, r)"
proof -
  have n: "nat y < 10 ^ Suc 3" using assms by simp
  from num_digits_le [OF this] have "max 4 (num_digits (nat y)) = 4" by simp
  then have "appendInt y 4 = digits 4 (nat y)" using assms by (simp add: appendInt_def)
  moreover have "digits_nat (digits 4 (nat y)) = nat y"
    using n by (intro digits_nat_digits) simp
  ultimately show ?thesis
    by (auto simp: getyear_def dest: is_digit_digits)
qed

text \<open>Stripped zeros do not change the value.\<close>

lemma digits_nat_zeros: "digits_nat (ds @ replicate k CHR ''0'') = digits_nat ds * 10 ^ k"
proof (induction k)
  case (Suc k)
  have "ds @ replicate (Suc k) CHR ''0'' = (ds @ replicate k CHR ''0'') @ [CHR ''0'']"
    by (simp add: replicate_append_same)
  then have "digits_nat (ds @ replicate (Suc k) CHR ''0'') = 10 * digits_nat (ds @ replicate k CHR ''0'')"
    by (simp only: digits_nat_append) (simp add: digit_val_def)
  with Suc.IH show ?case by simp
qed simp

lemma strip_zeros_split: "\<exists>k. s = strip_zeros s @ replicate k CHR ''0''"
proof -
  have "rev s = takeWhile (\<lambda>c. c = CHR ''0'') (rev s) @ dropWhile (\<lambda>c. c = CHR ''0'') (rev s)" by simp
  moreover have "takeWhile (\<lambda>c. c = CHR ''0'') (rev s) =
      replicate (length (takeWhile (\<lambda>c. c = CHR ''0'') (rev s))) CHR ''0''"
    by (intro replicate_eqI) (auto dest: set_takeWhileD)
  ultimately have "s = strip_zeros s @ replicate (length (takeWhile (\<lambda>c. c = CHR ''0'') (rev s))) CHR ''0''"
    unfolding strip_zeros_def by (metis rev_append rev_replicate rev_rev_ident)
  then show ?thesis ..
qed

lemma getfrac_format_nano:
  assumes "n < 10 ^ 9" and "r \<noteq> []" and "\<not> is_digit (hd r)" and "hd r \<noteq> CHR ''.''" and "hd r \<noteq> CHR '',''"
  shows "getfrac (format_nano n @ r) = (n, r)"
proof -
  obtain k where k: "digits 9 n = strip_zeros (digits 9 n) @ replicate k CHR ''0''"
    using strip_zeros_split by blast
  let ?ds = "strip_zeros (digits 9 n)"
  have len: "length ?ds + k = 9"
    using arg_cong [OF k, of length] by simp
  have val: "digits_nat ?ds * 10 ^ k = n"
    using digits_nat_digits [OF assms(1)] k digits_nat_zeros by metis
  obtain c r' where r: "r = c # r'" using assms(2) by (cases r) auto
  show ?thesis
  proof (cases "?ds = []")
    case True
    with val assms(4,5) r show ?thesis
      by (auto simp: format_nano_def getfrac_def split: list.splits)
  next
    case False
    have dig: "\<forall>d \<in> set ?ds. is_digit d"
      using k is_digit_digits by (metis UnCI set_append)
    from False obtain d ds where ds: "?ds = d # ds" by (cases ?ds) auto
    have "takeWhile is_digit (?ds @ r) = ?ds" "dropWhile is_digit (?ds @ r) = r"
      using dig assms(3) r by simp_all
    moreover have "take 9 ?ds = ?ds" "9 - length ?ds = k" using len by simp_all
    ultimately show ?thesis
      using False dig ds val by (simp add: format_nano_def getfrac_def frac_value_def Let_def)
  qed
qed

lemma getzone_digits:
  assumes "h \<le> 24" and "m < 60" and "c = CHR ''+'' \<or> c = CHR ''-''"
  shows "getzone (c # digits 2 h @ CHR '':'' # digits 2 m) =
    Some ((if c = CHR ''-'' then -1 else 1) * (int h * 60 + int m) * 60, [])"
proof -
  have "getnum True [digit (h div 10), digit h] = Some (h, [])"
    "getnum True [digit (m div 10), digit m] = Some (m, [])"
    using getnum_digits [of h True "[]"] getnum_digits [of m True "[]"] assms(1,2)
    by (simp_all add: digits_2 del: getnum_digits)
  with assms show ?thesis
    by (auto simp: getzone_def digits_2 simp del: getnum.simps)
qed

lemma getzone_format_zone:
  assumes "off mod 60 = 0" and "\<bar>off\<bar> \<le> 24 * 3600"
  shows "getzone (format_zone off) = Some (off, [])"
proof (cases "off = 0")
  case False
  define z where "z = nat (\<bar>off\<bar> div 60)"
  have "\<bar>off\<bar> mod 60 = 0" using assms(1) by (simp flip: dvd_eq_mod_eq_0)
  then have "\<bar>off\<bar> div 60 * 60 = \<bar>off\<bar>" using div_mult_mod_eq [of "\<bar>off\<bar>" 60] by simp
  moreover have "int z = \<bar>off\<bar> div 60" by (simp add: z_def)
  ultimately have "int z * 60 = \<bar>off\<bar>" by simp
  moreover have "int (z div 60) * 60 + int (z mod 60) = int z"
    by (metis div_mult_mod_eq of_nat_add of_nat_mult of_nat_numeral)
  ultimately have val: "(int (z div 60) * 60 + int (z mod 60)) * 60 = \<bar>off\<bar>" by simp
  have "\<bar>off\<bar> div 60 \<le> 24 * 60" using assms(2) by linarith
  then have z: "z div 60 \<le> 24" "z mod 60 < 60" by (simp_all add: z_def)
  have "format_zone off = (if off < 0 then CHR ''-'' else CHR ''+'') # digits 2 (z div 60) @
      CHR '':'' # digits 2 (z mod 60)"
    using False by (simp add: format_zone_def Let_def z_def)
  with getzone_digits [OF z, of "if off < 0 then CHR ''-'' else CHR ''+''"] val show ?thesis
    by (simp split: if_splits)
qed (simp add: format_zone_def getzone_def)

lemma format_zone_hd:
  "format_zone off \<noteq> [] \<and> \<not> is_digit (hd (format_zone off)) \<and> hd (format_zone off) \<noteq> CHR ''.'' \<and>
   hd (format_zone off) \<noteq> CHR '',''"
  by (simp add: format_zone_def Let_def is_digit_def)

lemma daysIn_less_100: "daysIn m y < 100"
  by (simp add: daysIn_def)

lemma Parse_Format:
  assumes "time_wf t"
  shows "ParseRFC3339Nano (FormatRFC3339Nano t) = Some t"
proof -
  have b: "month t < 100" "day t < 100" "hour t < 100" "minute t < 100" "second t < 100"
    using assms daysIn_less_100 [of "month t" "year t"] by (auto simp: time_wf_def)
  have y: "0 \<le> year t" "year t \<le> 9999" and n: "nsec t < 10 ^ 9"
    and z: "offset t mod 60 = 0" "\<bar>offset t\<bar> \<le> 24 * 3600"
    using assms by (auto simp: time_wf_def)
  have "getfrac (format_nano (nsec t) @ format_zone (offset t)) = (nsec t, format_zone (offset t))"
    using getfrac_format_nano [OF n] format_zone_hd by blast
  with assms b show ?thesis
    unfolding ParseRFC3339Nano_def FormatRFC3339Nano_def
    by (simp add: getyear_appendInt [OF y] getzone_format_zone [OF z] time_wf_def)
qed

lemma Format_not_Nil: "FormatRFC3339Nano t \<noteq> []"
  by (simp add: FormatRFC3339Nano_def)

lemma bind_some_elim: "Option.bind x f = Some y \<Longrightarrow> (\<And>a. x = Some a \<Longrightarrow> f a = Some y \<Longrightarrow> P) \<Longrightarrow> P"
  by (cases x) auto

lemma getzone_range: "getzone s = Some (off, r) \<Longrightarrow> off mod 60 = 0 \<and> \<bar>off\<bar> \<le> 25 * 3600"
  by (auto simp: getzone_def elim!: bind_some_elim split: list.splits if_splits prod.splits)

lemma digits_nat_less: "\<forall>c \<in> set xs. is_digit c \<Longrightarrow> digits_nat xs < 10 ^ length xs"
proof (induction xs)
  case (Cons c xs)
  then have "is_digit c" by simp
  then have "digit_val c \<le> 9" unfolding is_digit_def digit_val_def by linarith
  then have "digit_val c * 10 ^ length xs \<le> 9 * 10 ^ length xs" by (rule mult_le_mono1)
  moreover have "digits_nat xs < 10 ^ length xs" using Cons by simp
  ultimately have "digit_val c * 10 ^ length xs + digits_nat xs < 10 * 10 ^ length xs" by linarith
  then show ?case by simp
qed simp

lemma frac_value_less:
  assumes "length ns \<le> 9" and "\<forall>c \<in> set ns. is_digit c"
  shows "frac_value ns < 10 ^ 9"
proof -
  have "frac_value ns < 10 ^ length ns * 10 ^ (9 - length ns)"
    unfolding frac_value_def using digits_nat_less [OF assms(2)] by simp
  also have "\<dots> = 10 ^ 9" using assms(1) by (simp flip: power_add)
  finally show ?thesis .
qed

lemma getfrac_range: "fst (getfrac s) < 10 ^ 9"
proof -
  have "frac_value (take 9 (takeWhile is_digit ds)) < 10 ^ 9" for ds
    by (rule frac_value_less) (auto dest: in_set_takeD set_takeWhileD)
  then show ?thesis
    by (simp add: getfrac_def del: takeWhile.simps take_Suc_Cons power_one_right split: list.split)
qed

text \<open>Every time that was read is a proper one, except that the zone may be off by up to 25
  hours.\<close>

lemma Parse_valid:
  assumes "ParseRFC3339Nano s = Some t"
  shows "0 \<le> year t \<and> 1 \<le> month t \<and> month t \<le> 12 \<and> 1 \<le> day t \<and>
    day t \<le> daysIn (month t) (year t) \<and> hour t < 24 \<and> minute t < 60 \<and> second t < 60 \<and>
    nsec t < 10 ^ 9 \<and> \<bar>offset t\<bar> \<le> 25 * 3600"
  using assms getzone_range getfrac_range unfolding ParseRFC3339Nano_def
  by (auto elim!: bind_some_elim split: if_splits prod.splits) (metis fst_conv)+

section \<open>Length of the text\<close>

lemma format_nano_length: "length (format_nano n) \<le> 10"
  using length_dropWhile_le [of "\<lambda>c. c = CHR ''0''" "rev (digits 9 n)"]
  by (simp add: format_nano_def strip_zeros_def Let_def)

lemma num_digits_4: "n \<le> 9999 \<Longrightarrow> num_digits n \<le> 4"
  by (simp add: num_digits.simps [of n] num_digits.simps [of "n div 10"] num_digits.simps [of "n div 100"]
      num_digits.simps [of "n div 1000"] div_mult2_eq [symmetric])

lemma time_length:
  assumes "time_wf t"
  shows "length (FormatRFC3339Nano t) \<le> 36"
proof -
  have "nat \<bar>year t\<bar> \<le> 9999" using assms by (auto simp: time_wf_def)
  then have "num_digits (nat \<bar>year t\<bar>) \<le> 4" by (rule num_digits_4)
  then have "length (appendInt (year t) 4) = 4" using assms by (simp add: appendInt_def time_wf_def)
  moreover have "length (format_zone (offset t)) \<le> 6" by (simp add: format_zone_def Let_def)
  ultimately show ?thesis using format_nano_length [of "nsec t"] by (simp add: FormatRFC3339Nano_def)
qed

end
