(* ===== verification/CsvReader.thy ===== *)
theory CsvReader
  imports GoCsvProps GoTime "HOL-Library.AList"
begin

text \<open>
  \<open>internal/producer/csv_reader.go\<close>: the file of metrics, read row by row. Opening the file is an
  argument; an open file is its text, the error that ends the text, and what closing it returns. The
  reader of a \<open>MetricsCSVReader\<close> is never nil. A Go map is an association list with distinct keys.
\<close>

section \<open>The reader\<close>

record os_file =
  file_text :: string
  file_fin :: go_error
  file_close :: "go_error option"

record MetricsCSVReader =
  rd_file :: "os_file option"
  rd_reader :: csv_reader
  rd_header :: "string list"
  rd_rowNum :: int64
  rd_hasError :: bool
  rd_lastError :: "go_error option"

definition NewMetricsCSVReader :: "(string \<Rightarrow> go_error + os_file) \<Rightarrow> string \<Rightarrow> go_error + MetricsCSVReader" where
  "NewMetricsCSVReader open_file path =
     (case open_file path of
        Inl err \<Rightarrow> Inl err
      | Inr f \<Rightarrow>
          (case csv_Read (NewReader (file_text f) (file_fin f)) of
             (Inl err, _) \<Rightarrow> Inl (Errorf_v ''failed to read CSV header'' err)
           | (Inr header, csvReader) \<Rightarrow>
               if length header = 0 then Inl (OtherError ''CSV file has no columns'')
               else Inr \<lparr>rd_file = Some f, rd_reader = csvReader, rd_header = header, rd_rowNum = 0,
                         rd_hasError = False, rd_lastError = None\<rparr>))"

definition GetHeader :: "MetricsCSVReader \<Rightarrow> string list" where
  "GetHeader r = rd_header r"

definition HasNextRow :: "MetricsCSVReader \<Rightarrow> bool" where
  "HasNextRow r = (if rd_hasError r then False else True)"

section \<open>Rows\<close>

type_synonym row = "(string \<times> string) list"

text \<open>The map of a record: the columns one after the other, a missing cell is empty. A column that is
  there twice has its last cell.\<close>

definition row_of :: "string list \<Rightarrow> string list \<Rightarrow> row" where
  "row_of header rec =
     fold (\<lambda>(i, col) row. AList.update col (if i < length rec then rec ! i else []) row)
       (enumerate 0 header) []"

text \<open>\<open>%v\<close> of an error that may be nil.\<close>

definition error_value :: "go_error option \<Rightarrow> string" where
  "error_value e = (case e of None \<Rightarrow> ''<nil>'' | Some err \<Rightarrow> error_text err)"

definition GetNextRow :: "MetricsCSVReader \<Rightarrow> (go_error + row) \<times> MetricsCSVReader" where
  "GetNextRow r =
     (if rd_hasError r then (Inl (OtherError (''reader is in error state: '' @ error_value (rd_lastError r))), r)
      else
       (case csv_Read (rd_reader r) of
          (Inl err, csv) \<Rightarrow>
            if err = EOF then (Inl err, r\<lparr>rd_reader := csv, rd_hasError := True\<rparr>)
            else (Inl (Errorf_v (''failed to read CSV row '' @ itoa (sint (rd_rowNum r))) err),
                  r\<lparr>rd_reader := csv, rd_hasError := True, rd_lastError := Some err\<rparr>)
        | (Inr rec, csv) \<Rightarrow>
            (Inr (row_of (rd_header r) rec), r\<lparr>rd_reader := csv, rd_rowNum := rd_rowNum r + 1\<rparr>)))"

definition GetRawRow :: "MetricsCSVReader \<Rightarrow> (go_error + string list) \<times> MetricsCSVReader" where
  "GetRawRow r =
     (if rd_hasError r then (Inl (OtherError (''reader is in error state: '' @ error_value (rd_lastError r))), r)
      else
       (case csv_Read (rd_reader r) of
          (Inl err, csv) \<Rightarrow>
            if err = EOF then (Inl err, r\<lparr>rd_reader := csv, rd_hasError := True\<rparr>)
            else (Inl (Errorf_v (''failed to read CSV row '' @ itoa (sint (rd_rowNum r))) err),
                  r\<lparr>rd_reader := csv, rd_hasError := True, rd_lastError := Some err\<rparr>)
        | (Inr rec, csv) \<Rightarrow> (Inr rec, r\<lparr>rd_reader := csv, rd_rowNum := rd_rowNum r + 1\<rparr>)))"

definition RowCount :: "MetricsCSVReader \<Rightarrow> int64" where
  "RowCount r = rd_rowNum r"

definition IsValid :: "MetricsCSVReader \<Rightarrow> bool" where
  "IsValid r \<longleftrightarrow> \<not> rd_hasError r \<and> rd_file r \<noteq> None"

text \<open>The index of the first column of that name, letter case ignored, for an ASCII name.\<close>

fun column_index :: "int \<Rightarrow> string list \<Rightarrow> string \<Rightarrow> int" where
  "column_index i [] colName = -1"
| "column_index i (col # cols) colName =
     (if EqualFold col colName then i else column_index (i + 1) cols colName)"

definition FindColumnIndex :: "MetricsCSVReader \<Rightarrow> string \<Rightarrow> int" where
  "FindColumnIndex r colName = column_index 0 (rd_header r) colName"

definition CsvReader_Close :: "MetricsCSVReader \<Rightarrow> go_error option" where
  "CsvReader_Close r = (case rd_file r of Some f \<Rightarrow> file_close f | None \<Rightarrow> None)"

section \<open>Facts\<close>

text \<open>The two ways to read a row differ in the map only.\<close>

lemma GetNextRow_raw:
  "GetNextRow r =
     (case GetRawRow r of (Inl err, r') \<Rightarrow> (Inl err, r') | (Inr rec, r') \<Rightarrow> (Inr (row_of (rd_header r) rec), r'))"
  by (auto simp: GetNextRow_def GetRawRow_def split: sum.splits prod.splits)

lemma column_index_range: "column_index i cs n = j \<Longrightarrow> j = -1 \<or> i \<le> j \<and> j < i + int (length cs)"
  by (induction i cs n rule: column_index.induct) (auto split: if_splits)

lemma row_of_snoc:
  "row_of (header @ [col]) rec =
     AList.update col (if length header < length rec then rec ! length header else []) (row_of header rec)"
  by (simp add: row_of_def enumerate_append_eq)

lemma row_of_distinct: "distinct (map fst (row_of header rec))"
  by (induction header rule: rev_induct) (simp_all add: row_of_snoc distinct_update, simp add: row_of_def)

lemma row_of_keys: "fst ` set (row_of header rec) = set header"
  by (induction header rule: rev_induct) (simp_all add: row_of_snoc dom_update, simp_all add: row_of_def)

lemma row_of_cell:
  assumes "distinct header" and "i < length header"
  shows "map_of (row_of header rec) (header ! i) = Some (if i < length rec then rec ! i else [])"
  using assms
proof (induction header rule: rev_induct)
  case (snoc col header)
  then show ?case
    by (auto simp: row_of_snoc update_conv' nth_append nth_eq_iff_index_eq less_Suc_eq)
qed simp

text \<open>Every row that is read makes the rest of the file shorter.\<close>

lemma GetRawRow_progress:
  "GetRawRow r = (Inr rec, r') \<Longrightarrow> length (cr_rest (rd_reader r')) < length (cr_rest (rd_reader r))"
  by (auto simp: GetRawRow_def dest!: csv_Read_progress split: if_splits sum.splits prod.splits)

lemma GetNextRow_progress:
  "GetNextRow r = (Inr row, r') \<Longrightarrow> length (cr_rest (rd_reader r')) < length (cr_rest (rd_reader r))"
  by (auto simp: GetNextRow_raw dest: GetRawRow_progress split: sum.splits prod.splits)

lemma GetNextRow_stop: "GetNextRow r = (Inl err, r') \<Longrightarrow> rd_hasError r'"
  by (auto simp: GetNextRow_def split: if_splits sum.splits prod.splits)

lemma GetNextRow_stopped: "rd_hasError r \<Longrightarrow> snd (GetNextRow r) = r"
  by (simp add: GetNextRow_def)

section \<open>The interface\<close>

text \<open>What a loop over a \<open>CSVReader\<close> relies on: a row that is read leaves less to read, after an error
  there is no next row, and then nothing changes any more.\<close>

locale row_reader =
  fixes next_row :: "'r \<Rightarrow> (go_error + 'a) \<times> 'r"
    and has_next :: "'r \<Rightarrow> bool"
    and left :: "'r \<Rightarrow> nat"
  assumes row_shortens: "next_row r = (Inr row, r') \<Longrightarrow> left r' < left r"
    and error_stops: "next_row r = (Inl err, r') \<Longrightarrow> \<not> has_next r'"
    and stopped_stays: "\<not> has_next r \<Longrightarrow> snd (next_row r) = r"
begin

lemma stopped_forever: "\<not> has_next r \<Longrightarrow> ((\<lambda>r. snd (next_row r)) ^^ m) r = r"
  by (induction m) (simp_all add: stopped_stays)

lemma reading_stops: "\<exists>n \<le> Suc (left r). \<not> has_next (((\<lambda>r. snd (next_row r)) ^^ n) r)"
proof (induction "left r" arbitrary: r rule: less_induct)
  case less
  obtain res r' where read: "next_row r = (res, r')" by (metis prod.exhaust)
  show ?case
  proof (cases res)
    case (Inl err)
    with read error_stops show ?thesis by (intro exI [of _ 1]) simp
  next
    case (Inr row)
    from row_shortens [OF read [unfolded Inr]] have lt: "left r' < left r" .
    from less [OF lt] obtain n where
      "n \<le> Suc (left r')" "\<not> has_next (((\<lambda>r. snd (next_row r)) ^^ n) r')" by blast
    with lt read show ?thesis
      by (intro exI [of _ "Suc n"]) (simp del: funpow.simps add: funpow_Suc_right)
  qed
qed

lemma reading_stops_for_good:
  "\<exists>n \<le> Suc (left r). \<not> has_next (((\<lambda>r. snd (next_row r)) ^^ n) r) \<and>
     (\<forall>m. ((\<lambda>r. snd (next_row r)) ^^ (m + n)) r = ((\<lambda>r. snd (next_row r)) ^^ n) r)"
  using reading_stops [of r] by (auto simp: funpow_add stopped_forever)

end

abbreviation unread :: "MetricsCSVReader \<Rightarrow> nat" where
  "unread r \<equiv> length (cr_rest (rd_reader r))"

interpretation csv_rows: row_reader GetNextRow HasNextRow unread
  by unfold_locales (auto simp: HasNextRow_def GetNextRow_progress GetNextRow_stop GetNextRow_stopped split: if_splits)

interpretation csv_raw_rows: row_reader GetRawRow HasNextRow unread
  by unfold_locales
    (auto simp: HasNextRow_def GetRawRow_progress, auto simp: GetRawRow_def split: if_splits sum.splits prod.splits)

text \<open>C38: Reading terminates, by maps as well as by raw rows: whatever the file holds and however it
  ends, after at most one call more than there are bytes left \<open>HasNextRow\<close> is false, and then no
  further call changes the reader. (So the loop over \<open>HasNextRow\<close> would end even if it ignored every
  error.)\<close>

theorem csv_reader_stops:
  "(\<exists>n \<le> Suc (unread r). \<not> HasNextRow (((\<lambda>r. snd (GetNextRow r)) ^^ n) r) \<and>
     (\<forall>m. ((\<lambda>r. snd (GetNextRow r)) ^^ (m + n)) r = ((\<lambda>r. snd (GetNextRow r)) ^^ n) r)) \<and>
   (\<exists>n \<le> Suc (unread r). \<not> HasNextRow (((\<lambda>r. snd (GetRawRow r)) ^^ n) r) \<and>
     (\<forall>m. ((\<lambda>r. snd (GetRawRow r)) ^^ (m + n)) r = ((\<lambda>r. snd (GetRawRow r)) ^^ n) r))"
  using csv_rows.reading_stops_for_good csv_raw_rows.reading_stops_for_good by blast

end
