(* ===== verification/GoUtf8.thy ===== *)
theory GoUtf8
  imports GoStrings
begin

text \<open>
  UTF-8 as \<open>unicode/utf8\<close> reads it: how many bytes the first rune of a string takes, the runes of
  a string as \<open>for range\<close> visits them, and the encoding of a code point. A byte that does not
  start a valid rune counts as U+FFFD.
\<close>

section \<open>Decoding\<close>

definition cont :: "nat \<Rightarrow> bool" where
  "cont b \<longleftrightarrow> 0x80 \<le> b \<and> b \<le> 0xBF"

text \<open>The first two bytes of a rune of two, three and four bytes.\<close>

definition lead2 :: "nat \<Rightarrow> nat \<Rightarrow> bool" where
  "lead2 a b \<longleftrightarrow> 0xC2 \<le> a \<and> a \<le> 0xDF \<and> cont b"

definition lead3 :: "nat \<Rightarrow> nat \<Rightarrow> bool" where
  "lead3 a b \<longleftrightarrow> a = 0xE0 \<and> 0xA0 \<le> b \<and> b \<le> 0xBF \<or>
     (0xE1 \<le> a \<and> a \<le> 0xEC \<or> 0xEE \<le> a \<and> a \<le> 0xEF) \<and> cont b \<or>
     a = 0xED \<and> 0x80 \<le> b \<and> b \<le> 0x9F"

definition lead4 :: "nat \<Rightarrow> nat \<Rightarrow> bool" where
  "lead4 a b \<longleftrightarrow> a = 0xF0 \<and> 0x90 \<le> b \<and> b \<le> 0xBF \<or> 0xF1 \<le> a \<and> a \<le> 0xF3 \<and> cont b \<or>
     a = 0xF4 \<and> 0x80 \<le> b \<and> b \<le> 0x8F"

text \<open>The size of the valid rune at the head, 0 if there is none.\<close>

definition rune_size :: "string \<Rightarrow> nat" where
  "rune_size s =
     (if s = [] then 0
      else if byte_at 0 s < 0x80 then 1
      else if lead2 (byte_at 0 s) (byte_at 1 s) then 2
      else if lead3 (byte_at 0 s) (byte_at 1 s) \<and> cont (byte_at 2 s) then 3
      else if lead4 (byte_at 0 s) (byte_at 1 s) \<and> cont (byte_at 2 s) \<and> cont (byte_at 3 s) then 4
      else 0)"

lemma lead_high:
  "cont b \<Longrightarrow> 0x80 \<le> b" "lead2 a b \<Longrightarrow> 0x80 \<le> a \<and> 0x80 \<le> b"
  "lead3 a b \<Longrightarrow> 0x80 \<le> a \<and> 0x80 \<le> b" "lead4 a b \<Longrightarrow> 0x80 \<le> a \<and> 0x80 \<le> b"
  by (auto simp: cont_def lead2_def lead3_def lead4_def)

definition replacement :: string where
  "replacement = [char_of (0xEF :: nat), char_of (0xBF :: nat), char_of (0xBD :: nat)]"

lemma rune_size_Nil [simp]: "rune_size [] = 0"
  by (simp add: rune_size_def)

text \<open>The runes of a string, each in its encoding.\<close>

function runes :: "string \<Rightarrow> string list" where
  "runes s =
     (if s = [] then []
      else if 0 < rune_size s then take (rune_size s) s # runes (drop (rune_size s) s)
      else replacement # runes (tl s))"
  by pat_completeness auto
termination
  by (relation "measure length") simp_all

declare runes.simps [simp del]

function valid_utf8 :: "string \<Rightarrow> bool" where
  "valid_utf8 s =
     (if s = [] then True
      else if 0 < rune_size s then valid_utf8 (drop (rune_size s) s)
      else False)"
  by pat_completeness auto
termination
  by (relation "measure length") simp_all

declare valid_utf8.simps [simp del]

lemma valid_utf8_Nil [simp]: "valid_utf8 []"
  by (simp add: valid_utf8.simps)

lemma runes_Nil [simp]: "runes [] = []"
  by (simp add: runes.simps)

lemma runes_valid: "valid_utf8 s \<Longrightarrow> concat (runes s) = s"
proof (induction s rule: runes.induct)
  case (1 s)
  show ?case
  proof (cases "s = []")
    case False
    with "1.prems" have "0 < rune_size s" "valid_utf8 (drop (rune_size s) s)"
      by (simp_all add: valid_utf8.simps [of s] split: if_splits)
    with 1 False show ?thesis by (subst runes.simps) simp
  qed simp
qed

lemma rune_size_ascii: "(of_char c :: nat) < 0x80 \<Longrightarrow> rune_size (c # s) = 1"
  by (simp add: rune_size_def Let_def)

lemma runes_ascii: "\<forall>c \<in> set s. (of_char c :: nat) < 0x80 \<Longrightarrow> runes s = map (\<lambda>c. [c]) s"
proof (induction s)
  case (Cons c s)
  then show ?case by (subst runes.simps) (simp add: rune_size_ascii)
qed simp

lemma valid_utf8_ascii: "\<forall>c \<in> set s. (of_char c :: nat) < 0x80 \<Longrightarrow> valid_utf8 s"
proof (induction s)
  case (Cons c s)
  then show ?case by (subst valid_utf8.simps) (simp add: rune_size_ascii)
qed simp

section \<open>Encoding\<close>

text \<open>\<open>utf8.EncodeRune\<close>; surrogates and values out of range are written as U+FFFD.\<close>

definition encode_rune :: "nat \<Rightarrow> string" where
  "encode_rune r =
     (if r < 0x80 then [char_of r]
      else if r < 0x800 then [char_of (0xC0 + r div 64), char_of (0x80 + r mod 64)]
      else if 0xD800 \<le> r \<and> r \<le> 0xDFFF \<or> 0x10FFFF < r then replacement
      else if r < 0x10000
        then [char_of (0xE0 + r div 4096), char_of (0x80 + r div 64 mod 64), char_of (0x80 + r mod 64)]
      else [char_of (0xF0 + r div 262144), char_of (0x80 + r div 4096 mod 64),
            char_of (0x80 + r div 64 mod 64), char_of (0x80 + r mod 64)])"

text \<open>More than one byte means that none of them is ASCII.\<close>

lemma byte_at_high: "0x80 \<le> byte_at j s \<Longrightarrow> j < length s"
  by (simp add: byte_at_def split: if_splits)

lemma rune_size_high:
  assumes "1 < rune_size s" and "i < rune_size s"
  shows "i < length s \<and> 0x80 \<le> byte_at i s"
proof -
  consider "rune_size s = 2" "lead2 (byte_at 0 s) (byte_at 1 s)"
    | "rune_size s = 3" "lead3 (byte_at 0 s) (byte_at 1 s)" "cont (byte_at 2 s)"
    | "rune_size s = 4" "lead4 (byte_at 0 s) (byte_at 1 s)" "cont (byte_at 2 s)" "cont (byte_at 3 s)"
    using assms(1) by (simp add: rune_size_def split: if_splits)
  then have "0x80 \<le> byte_at i s"
  proof cases
    case 1
    with assms(2) lead_high(2) [OF 1(2)] show ?thesis by (auto simp: numeral_2_eq_2 less_Suc_eq)
  next
    case 2
    with assms(2) have "i = 0 \<or> i = 1 \<or> i = 2" by auto
    with 2 lead_high(3) [OF 2(2)] lead_high(1) [OF 2(3)] show ?thesis by auto
  next
    case 3
    with assms(2) have "i = 0 \<or> i = 1 \<or> i = 2 \<or> i = 3" by auto
    with 3 lead_high(4) [OF 3(2)] lead_high(1) [OF 3(3)] lead_high(1) [OF 3(4)] show ?thesis by auto
  qed
  with byte_at_high show ?thesis by blast
qed

lemma rune_size_length: "rune_size s \<le> length s"
proof (cases "1 < rune_size s")
  case True
  then have "rune_size s - 1 < length s" using rune_size_high [OF True, of "rune_size s - 1"] by simp
  then show ?thesis by simp
next
  case False
  then show ?thesis by (cases s) (simp_all add: Suc_leI)
qed

text \<open>The size of a rune only depends on its own bytes.\<close>

lemma byte_at_append: "i < length s \<Longrightarrow> byte_at i (s @ t) = byte_at i s"
  by (simp add: byte_at_def nth_append)

lemma byte_at_cong: "take n s = take n t \<Longrightarrow> i < n \<Longrightarrow> n \<le> length s \<Longrightarrow> n \<le> length t \<Longrightarrow> byte_at i s = byte_at i t"
  by (metis byte_at_append byte_at_def append_take_drop_id length_take min.absorb2)

lemma byte_at_take_append: "i < n \<Longrightarrow> n \<le> length s \<Longrightarrow> byte_at i (take n s @ x) = byte_at i s"
  by (simp add: byte_at_def nth_append)

lemma rune_size_cases:
  obtains "rune_size s = 0"
    | "rune_size s = 1" "byte_at 0 s < 0x80" "s \<noteq> []"
    | "rune_size s = 2" "lead2 (byte_at 0 s) (byte_at 1 s)"
    | "rune_size s = 3" "lead3 (byte_at 0 s) (byte_at 1 s)" "cont (byte_at 2 s)"
    | "rune_size s = 4" "lead4 (byte_at 0 s) (byte_at 1 s)" "cont (byte_at 2 s)" "cont (byte_at 3 s)"
proof -
  have "rune_size s = 0 \<or> rune_size s = 1 \<and> byte_at 0 s < 0x80 \<and> s \<noteq> [] \<or>
    rune_size s = 2 \<and> lead2 (byte_at 0 s) (byte_at 1 s) \<or>
    rune_size s = 3 \<and> lead3 (byte_at 0 s) (byte_at 1 s) \<and> cont (byte_at 2 s) \<or>
    rune_size s = 4 \<and> lead4 (byte_at 0 s) (byte_at 1 s) \<and> cont (byte_at 2 s) \<and> cont (byte_at 3 s)"
    by (simp add: rune_size_def)
  with that show thesis by metis
qed

lemma lead_disjoint:
  "lead2 a b \<Longrightarrow> 0xC2 \<le> a \<and> a \<le> 0xDF" "lead3 a b \<Longrightarrow> 0xE0 \<le> a \<and> a \<le> 0xEF" "lead4 a b \<Longrightarrow> 0xF0 \<le> a"
  by (auto simp: lead2_def lead3_def lead4_def)

lemma rune_size_eqs:
  "s \<noteq> [] \<Longrightarrow> byte_at 0 s < 0x80 \<Longrightarrow> rune_size s = 1"
  "lead2 (byte_at 0 s) (byte_at 1 s) \<Longrightarrow> rune_size s = 2"
  "lead3 (byte_at 0 s) (byte_at 1 s) \<Longrightarrow> cont (byte_at 2 s) \<Longrightarrow> rune_size s = 3"
  "lead4 (byte_at 0 s) (byte_at 1 s) \<Longrightarrow> cont (byte_at 2 s) \<Longrightarrow> cont (byte_at 3 s) \<Longrightarrow> rune_size s = 4"
proof -
  show "s \<noteq> [] \<Longrightarrow> byte_at 0 s < 0x80 \<Longrightarrow> rune_size s = 1" by (simp add: rune_size_def)
  show "lead2 (byte_at 0 s) (byte_at 1 s) \<Longrightarrow> rune_size s = 2"
    using lead_high(2) lead_disjoint(1) by (cases s) (fastforce simp: rune_size_def)+
  show "lead3 (byte_at 0 s) (byte_at 1 s) \<Longrightarrow> cont (byte_at 2 s) \<Longrightarrow> rune_size s = 3"
    using lead_disjoint(1,2) by (cases s) (fastforce simp: rune_size_def)+
  show "lead4 (byte_at 0 s) (byte_at 1 s) \<Longrightarrow> cont (byte_at 2 s) \<Longrightarrow> cont (byte_at 3 s) \<Longrightarrow> rune_size s = 4"
    using lead_disjoint by (cases s) (fastforce simp: rune_size_def)+
qed

lemma rune_size_take_append:
  assumes "0 < rune_size s"
  shows "rune_size (take (rune_size s) s @ x) = rune_size s"
proof -
  let ?t = "take (rune_size s) s @ x"
  have b: "byte_at i ?t = byte_at i s" if "i < rune_size s" for i
    by (rule byte_at_take_append [OF that rune_size_length])
  have "?t \<noteq> []" using assms by (cases s) auto
  then show ?thesis
    by (cases s rule: rune_size_cases)
      (use assms b [of 0] b [of 1] b [of 2] b [of 3] rune_size_eqs [of ?t] in simp_all)
qed

end
