(* ===== verification/GoJsonProps.thy ===== *)
theory GoJsonProps
  imports GoJson
begin

text \<open>
  What the JSON parser and writer of \<open>GoJson\<close> have to do with each other: the fuel is enough, a
  parsed tree is well formed, and a well-formed tree that is written is read back.
\<close>

section \<open>Strings\<close>

text \<open>The contents of a JSON string.\<close>

inductive wf_string :: "string \<Rightarrow> bool" where
  wf_Nil: "wf_string []"
| wf_plain: "wf_string x \<Longrightarrow> c \<noteq> quote_char \<Longrightarrow> c \<noteq> backslash \<Longrightarrow> \<not> (of_char c :: nat) < 32 \<Longrightarrow>
    wf_string (c # x)"
| wf_escape: "wf_string x \<Longrightarrow> e = quote_char \<or> e = backslash \<or> e \<in> set ''/bfnrt'' \<Longrightarrow>
    wf_string (backslash # e # x)"
| wf_unicode: "wf_string x \<Longrightarrow> length h = 4 \<Longrightarrow> \<forall>d \<in> set h. is_hex d \<Longrightarrow>
    wf_string (backslash # CHR ''u'' # h @ x)"

lemma quote_chars [simp]: "backslash \<noteq> quote_char" "quote_char \<noteq> backslash"
  "CHR ''u'' \<noteq> quote_char" "CHR ''u'' \<noteq> backslash" "quote_char \<noteq> CHR ''}''" "quote_char \<noteq> CHR '']''"
  by (simp_all add: quote_char_def backslash_def)

lemma scan_string_Nil [simp]: "scan_string [] = None"
  by (simp add: scan_string.simps)

lemmas scan_string_Cons = scan_string.simps [of "c # r" for c r, simplified list.case]

lemma wf_string_scan: "wf_string x \<Longrightarrow> scan_string (x @ quote_char # r) = Some (x, r)"
proof (induction rule: wf_string.induct)
  case (wf_unicode x h)
  then show ?case by (simp add: scan_string_Cons quote_char_def backslash_def)
qed (auto simp: scan_string_Cons)

lemma scan_string_wf: "scan_string s = Some (x, t) \<Longrightarrow> wf_string x \<and> s = x @ quote_char # t"
proof (induction "length s" arbitrary: s x t rule: less_induct)
  case less
  then obtain c r where s: "s = c # r" by (cases s) auto
  show ?case
  proof (cases "c = quote_char")
    case True
    with less.prems s show ?thesis by (auto simp: scan_string_Cons intro: wf_Nil)
  next
    case nq: False
    show ?thesis
    proof (cases "c = backslash")
      case True
      with less.prems s obtain e r' where r: "r = e # r'"
        by (cases r) (auto simp: scan_string_Cons)
      show ?thesis
      proof (cases "e = quote_char \<or> e = backslash \<or> e \<in> set ''/bfnrt''")
        case simple: True
        from less.prems s True r simple nq obtain y where y: "scan_string r' = Some (y, t)" "x = c # e # y"
          by (simp add: scan_string_Cons) auto
        with less.hyps [of r' y t] s r True simple show ?thesis
          by (auto intro: wf_escape)
      next
        case notsimple: False
        with less.prems s True r nq have u: "e = CHR ''u''" "4 \<le> length r'" "\<forall>h \<in> set (take 4 r'). is_hex h"
          by (simp_all add: scan_string_Cons split: if_splits)
        from less.prems s True r notsimple nq u obtain y where
          y: "scan_string (drop 4 r') = Some (y, t)" "x = c # e # take 4 r' @ y"
          by (simp add: scan_string_Cons) auto
        with less.hyps [of "drop 4 r'" y t] s r have "wf_string y" "drop 4 r' = y @ quote_char # t"
          by simp_all
        moreover from this(2) have "r' = take 4 r' @ y @ quote_char # t"
          by (metis append_take_drop_id)
        ultimately show ?thesis
          using wf_unicode [of y "take 4 r'"] u y(2) s r True by simp
      qed
    next
      case False
      with less.prems s nq obtain y where "scan_string r = Some (y, t)" "x = c # y" "\<not> (of_char c :: nat) < 32"
        by (simp add: scan_string_Cons split: if_splits) auto
      with less.hyps [of r y t] s nq False show ?thesis
        by (auto intro: wf_plain)
    qed
  qed
qed

section \<open>Numbers\<close>

text \<open>Where a number may end.\<close>

definition num_end :: "string \<Rightarrow> bool" where
  "num_end r \<longleftrightarrow> r = [] \<or> \<not> is_digit (hd r) \<and> hd r \<notin> {CHR ''.'', CHR ''e'', CHR ''E''}"

definition nodigit :: "string \<Rightarrow> bool" where
  "nodigit r \<longleftrightarrow> r = [] \<or> \<not> is_digit (hd r)"

lemma not_digits [simp]:
  "\<not> is_digit CHR ''.''" "\<not> is_digit CHR ''e''" "\<not> is_digit CHR ''E''" "\<not> is_digit CHR ''+''"
  "\<not> is_digit CHR ''-''"
  by (simp_all add: is_digit_def)

lemma nodigit_takeWhile: "nodigit r \<Longrightarrow> takeWhile is_digit r = [] \<and> dropWhile is_digit r = r"
  by (cases r) (auto simp: nodigit_def)

lemma takeWhile_nodigit [simp]:
  "nodigit r \<Longrightarrow> takeWhile is_digit (takeWhile is_digit s @ r) = takeWhile is_digit s"
  "nodigit r \<Longrightarrow> dropWhile is_digit (takeWhile is_digit s @ r) = r"
  by (induction s) (auto simp: nodigit_takeWhile)

lemma scan_int_extends:
  "scan_int s = Some (i, t) \<Longrightarrow> nodigit r \<Longrightarrow>
   scan_int (i @ r) = Some (i, r) \<and> i \<noteq> [] \<and> is_digit (hd i) \<and> s = i @ t"
  by (cases s) (auto simp: scan_int_def is_digit_def split: if_splits)

lemma scan_frac_extends:
  "scan_frac s = Some (f, t) \<Longrightarrow> nodigit r \<Longrightarrow> (r \<noteq> [] \<longrightarrow> hd r \<noteq> CHR ''.'') \<Longrightarrow>
   scan_frac (f @ r) = Some (f, r) \<and> s = f @ t \<and> (f = [] \<or> hd f = CHR ''.'')"
  by (cases s; cases r) (auto simp: scan_frac_def split: if_splits dest: set_takeWhileD)

lemma exp_sign_extends:
  assumes "exp_sign s = (sg, t)" and "takeWhile is_digit t \<noteq> []"
  shows "exp_sign (sg @ takeWhile is_digit t @ r) = (sg, takeWhile is_digit t @ r) \<and> s = sg @ t"
proof (cases s)
  case Nil
  with assms show ?thesis by (simp add: exp_sign_def)
next
  case (Cons c s')
  show ?thesis
  proof (cases "c = CHR ''+'' \<or> c = CHR ''-''")
    case True
    with assms(1) Cons show ?thesis by (auto simp: exp_sign_def)
  next
    case False
    with assms Cons show ?thesis by (auto simp: exp_sign_def split: if_splits)
  qed
qed

lemma scan_exp_extends:
  assumes "scan_exp s = Some (e, t)" and "num_end r"
  shows "scan_exp (e @ r) = Some (e, r) \<and> s = e @ t \<and> (e = [] \<or> hd e = CHR ''e'' \<or> hd e = CHR ''E'')"
proof (cases "s \<noteq> [] \<and> (hd s = CHR ''e'' \<or> hd s = CHR ''E'')")
  case True
  then obtain c s' where s: "s = c # s'" "c = CHR ''e'' \<or> c = CHR ''E''" by (cases s) auto
  obtain sg u where sg: "exp_sign s' = (sg, u)" by (cases "exp_sign s'")
  from assms(1) s sg have tw: "takeWhile is_digit u \<noteq> []" "e = c # sg @ takeWhile is_digit u"
    "t = dropWhile is_digit u"
    by (auto simp: scan_exp_def split: if_splits)
  from exp_sign_extends [OF sg tw(1), of r] assms(2) s tw show ?thesis
    by (auto simp: scan_exp_def num_end_def nodigit_def dest: set_takeWhileD)
next
  case False
  with assms show ?thesis
    by (cases s; cases r) (auto simp: scan_exp_def num_end_def)
qed

lemma scan_number_extends:
  assumes "scan_number s = Some (x, t)" and "num_end r"
  shows "scan_number (x @ r) = Some (x, r) \<and> s = x @ t \<and> x \<noteq> [] \<and> (is_digit (hd x) \<or> hd x = CHR ''-'')"
proof -
  obtain sg s0 where sg: "scan_sign s = (sg, s0)" by (cases "scan_sign s")
  with assms(1) obtain i s1 f s2 e where p: "scan_int s0 = Some (i, s1)" "scan_frac s1 = Some (f, s2)"
    "scan_exp s2 = Some (e, t)" "x = sg @ i @ f @ e"
    by (auto simp: scan_number_def split: bind_splits)
  from scan_exp_extends [OF p(3) assms(2)] have e: "scan_exp (e @ r) = Some (e, r)" "s2 = e @ t"
    "e = [] \<or> hd e = CHR ''e'' \<or> hd e = CHR ''E''" by auto
  then have er: "nodigit (e @ r)" "e @ r \<noteq> [] \<longrightarrow> hd (e @ r) \<noteq> CHR ''.''"
    using assms(2) by (cases e; auto simp: nodigit_def num_end_def)+
  from scan_frac_extends [OF p(2) er] have f: "scan_frac (f @ e @ r) = Some (f, e @ r)" "s1 = f @ s2"
    "f = [] \<or> hd f = CHR ''.''" by auto
  then have "nodigit (f @ e @ r)" using er(1) by (cases f) (auto simp: nodigit_def)
  from scan_int_extends [OF p(1) this] have i: "scan_int (i @ f @ e @ r) = Some (i, f @ e @ r)" "i \<noteq> []"
    "is_digit (hd i)" "s0 = i @ s1" by auto
  then have "scan_sign (sg @ i @ f @ e @ r) = (sg, i @ f @ e @ r)" "s = sg @ s0" "sg = [] \<or> sg = ''-''"
    using sg by (cases s; cases i; auto simp: scan_sign_def split: if_splits)+
  with i f e p(4) show ?thesis
    by (auto simp: scan_number_def)
qed

section \<open>Fuel\<close>

lemma skip_ws_length: "length (skip_ws s) \<le> length s"
  by (simp add: skip_ws_def length_dropWhile_le)

lemma skip_ws_Cons_length: "skip_ws s = c # r \<Longrightarrow> length r < length s"
  using skip_ws_length [of s] by simp

lemma scan_literal_length: "scan_literal s = Some (v, t) \<Longrightarrow> length t < length s"
  by (cases s) (auto simp: scan_literal_def literals_def split: if_splits)

lemma scalar_length: "scalar c r = Some (v, t) \<Longrightarrow> length t \<le> length r"
proof -
  assume a: "scalar c r = Some (v, t)"
  have "num_end []" by (simp add: num_end_def)
  with scan_number_extends [of "c # r"] have "length y \<le> length r" if "scan_number (c # r) = Some (x, y)" for x y
    using that by (cases x) force+
  moreover have "length y \<le> length r" if "scan_string r = Some (x, y)" for x y
    using scan_string_wf [OF that] by simp
  ultimately show ?thesis
    using a scan_literal_length [of "c # r" v t]
    by (auto simp: scalar_def split: if_splits)
qed

lemmas parser_splits = list.splits if_splits option.splits prod.splits

text \<open>A result stays with more fuel, and twice the length of what is consumed is enough.\<close>

definition enough :: "(nat \<Rightarrow> string \<Rightarrow> ('a \<times> string) option) \<Rightarrow> nat \<Rightarrow> string \<Rightarrow> 'a \<Rightarrow> string \<Rightarrow> bool" where
  "enough p k s v t \<longleftrightarrow> length t < length s \<and> (\<forall>m. 2 * (length s - length t) \<le> m + k \<longrightarrow> p m s = Some (v, t))"

lemma enoughI:
  assumes "length t < length s"
    and "\<And>m. 2 * (length s - length t) \<le> Suc m + k \<Longrightarrow> p (Suc m) s = Some (v, t)"
    and "2 * (length s - length t) > k"
  shows "enough p k s v t"
  unfolding enough_def
proof (intro conjI allI impI)
  fix m
  assume "2 * (length s - length t) \<le> m + k"
  with assms(3) obtain m' where "m = Suc m'" by (cases m) auto
  with assms(2) \<open>2 * (length s - length t) \<le> m + k\<close> show "p m s = Some (v, t)" by simp
qed (rule assms(1))

lemma enoughD: "enough p k s v t \<Longrightarrow> 2 * (length s - length t) \<le> m + k \<Longrightarrow> p m s = Some (v, t)"
  and enough_length: "enough p k s v t \<Longrightarrow> length t < length s"
  by (auto simp: enough_def)

lemma fuel_enough:
  "pvalue n d s = Some (v, t) \<Longrightarrow> enough (\<lambda>m. pvalue m d) 1 s v t"
  "pelems n d s = Some (vs, t) \<Longrightarrow> enough (\<lambda>m. pelems m d) 2 s vs t"
  "pmembers n d s = Some (ms, t) \<Longrightarrow> enough (\<lambda>m. pmembers m d) 2 s ms t"
proof (induction n d s and n d s and n d s arbitrary: v t and vs t and ms t
    rule: pvalue_pelems_pmembers.induct)
  case (2 n d s)
  then obtain c r where s: "skip_ws s = c # r" by (auto split: list.splits)
  note len = skip_ws_Cons_length [OF s]
  have lsk: "length (tl (skip_ws r)) < length r" if "skip_ws r \<noteq> []"
    using that skip_ws_length [of r] by (cases "skip_ws r") auto
  consider (arr) vs where "c = CHR ''[''" "d \<noteq> 0" "\<not> (skip_ws r \<noteq> [] \<and> hd (skip_ws r) = CHR '']'')"
      "pelems n (d - 1) r = Some (vs, t)" "v = RArr vs"
    | (obj) ms where "c = CHR ''{''" "d \<noteq> 0" "\<not> (skip_ws r \<noteq> [] \<and> hd (skip_ws r) = CHR ''}'')"
      "pmembers n (d - 1) r = Some (ms, t)" "v = RObj ms"
    | (flat) "length t \<le> length r" "\<And>m. pvalue (Suc m) d s = Some (v, t)"
    using "2.prems" s lsk scalar_length [of c r v t]
    by (cases "c = CHR ''[''"; cases "c = CHR ''{''") (auto split: if_splits)
  then show ?case
  proof cases
    case arr
    from "2.IH"(1) [OF s arr(1,2,3,4)] have e: "enough (\<lambda>m. pelems m (d - 1)) 2 r vs t" .
    show ?thesis
    proof (rule enoughI)
      fix m
      assume "2 * (length s - length t) \<le> Suc m + 1"
      with len enough_length [OF e] have "2 * (length r - length t) \<le> m + 2" by linarith
      from enoughD [OF e this] arr s show "pvalue (Suc m) d s = Some (v, t)" by auto
    qed (use len enough_length [OF e] in auto)
  next
    case obj
    from "2.IH"(2) [OF s _ obj(1,2,3,4)] obj(1) have e: "enough (\<lambda>m. pmembers m (d - 1)) 2 r ms t" by simp
    show ?thesis
    proof (rule enoughI)
      fix m
      assume "2 * (length s - length t) \<le> Suc m + 1"
      with len enough_length [OF e] have "2 * (length r - length t) \<le> m + 2" by linarith
      from enoughD [OF e this] obj s show "pvalue (Suc m) d s = Some (v, t)" by auto
    qed (use len enough_length [OF e] in auto)
  next
    case flat
    with len show ?thesis by (intro enoughI) auto
  qed
next
  case (4 n d s)
  then obtain v r c r' where p: "pvalue n d s = Some (v, r)" "skip_ws r = c # r'"
    by (auto split: parser_splits)
  from "4.IH"(1) [OF p(1)] have ev: "enough (\<lambda>m. pvalue m d) 1 s v r" .
  note len = skip_ws_Cons_length [OF p(2)] enough_length [OF ev]
  show ?case
  proof (cases "c = CHR '',''")
    case True
    with "4.prems" p obtain ws where ws: "pelems n d r' = Some (ws, t)" "vs = v # ws" by auto
    from "4.IH"(2) [OF p(1) refl p(2) True ws(1)] have ew: "enough (\<lambda>m. pelems m d) 2 r' ws t" .
    show ?thesis
    proof (rule enoughI)
      fix m
      assume m: "2 * (length s - length t) \<le> Suc m + 2"
      with len enough_length [OF ew] have "2 * (length s - length r) \<le> m + 1"
        "2 * (length r' - length t) \<le> m + 2" by linarith+
      with enoughD [OF ev] enoughD [OF ew] p(2) True ws(2)
      show "pelems (Suc m) d s = Some (vs, t)" by simp
    qed (use len enough_length [OF ew] in auto)
  next
    case False
    with "4.prems" p have c: "c = CHR '']''" "vs = [v]" "t = r'" by (auto split: if_splits)
    show ?thesis
    proof (rule enoughI)
      fix m
      assume m: "2 * (length s - length t) \<le> Suc m + 2"
      with len have "2 * (length s - length r) \<le> m + 1" unfolding c(3) by linarith
      with enoughD [OF ev] p(2) c show "pelems (Suc m) d s = Some (vs, t)" by simp
    qed (use len c in auto)
  qed
next
  case (6 n d s)
  then obtain s1 k s2 s3 v r c r' where p: "skip_ws s = quote_char # s1" "scan_string s1 = Some (k, s2)"
    "skip_ws s2 = CHR '':'' # s3" "pvalue n d s3 = Some (v, r)" "skip_ws r = c # r'"
    by (auto split: parser_splits)
  have "enough (\<lambda>m. pvalue m d) 1 s3 v r"
    using "6.IH"(1) p by auto
  note ev = this
  have "length s2 < length s1" using scan_string_wf [OF p(2)] by auto
  note len = skip_ws_Cons_length [OF p(1)] this skip_ws_Cons_length [OF p(3)] enough_length [OF ev]
    skip_ws_Cons_length [OF p(5)]
  show ?case
  proof (cases "c = CHR '',''")
    case True
    with "6.prems" p obtain ws where ws: "pmembers n d r' = Some (ws, t)" "ms = (k, v) # ws" by auto
    have ew: "enough (\<lambda>m. pmembers m d) 2 r' ws t"
      using "6.IH"(2) p True ws(1) by auto
    show ?thesis
    proof (rule enoughI)
      fix m
      assume m: "2 * (length s - length t) \<le> Suc m + 2"
      with len enough_length [OF ew] have "2 * (length s3 - length r) \<le> m + 1"
        "2 * (length r' - length t) \<le> m + 2" by linarith+
      with enoughD [OF ev] enoughD [OF ew] p(1-3,5) True ws(2)
      show "pmembers (Suc m) d s = Some (ms, t)" by simp
    qed (use len enough_length [OF ew] in auto)
  next
    case False
    with "6.prems" p have c: "c = CHR ''}''" "ms = [(k, v)]" "t = r'" by (auto split: if_splits)
    show ?thesis
    proof (rule enoughI)
      fix m
      assume m: "2 * (length s - length t) \<le> Suc m + 2"
      with len have "2 * (length s3 - length r) \<le> m + 1" unfolding c(3) by linarith
      with enoughD [OF ev] p(1-3,5) c show "pmembers (Suc m) d s = Some (ms, t)" by simp
    qed (use len c in auto)
  qed
qed auto

text \<open>So a text that parses with any fuel parses with the fuel of \<open>parse_json\<close>.\<close>

lemma parse_json_any_fuel:
  assumes "pvalue n max_depth s = Some (v, t)" and "skip_ws t = []"
  shows "parse_json s = Some v"
proof -
  have "pvalue (2 * length s + 1) max_depth s = Some (v, t)"
    by (rule enoughD [OF fuel_enough(1) [OF assms(1)]]) simp
  with assms(2) show ?thesis by (simp add: parse_json_def)
qed

lemma pvalue_more:
  assumes "pvalue n d s = Some (v, t)" and "n \<le> m"
  shows "pvalue (max m (2 * length s)) d s = Some (v, t)"
  by (rule enoughD [OF fuel_enough(1) [OF assms(1)]]) simp

section \<open>Reading what was written\<close>

fun wf_json :: "rjson \<Rightarrow> bool" where
  "wf_json (RLit s) \<longleftrightarrow> s \<in> set literals"
| "wf_json (RNum s) \<longleftrightarrow> scan_number s = Some (s, [])"
| "wf_json (RStr s) \<longleftrightarrow> wf_string s"
| "wf_json (RArr vs) \<longleftrightarrow> (\<forall>v \<in> set vs. wf_json v)"
| "wf_json (RObj ms) \<longleftrightarrow> (\<forall>m \<in> set ms. wf_string (fst m) \<and> wf_json (snd m))"

fun depth :: "rjson \<Rightarrow> nat" where
  "depth (RArr vs) = Suc (foldr max (map depth vs) 0)"
| "depth (RObj ms) = Suc (foldr max (map (depth \<circ> snd) ms) 0)"
| "depth _ = 0"

text \<open>What may follow a value.\<close>

definition val_end :: "string \<Rightarrow> bool" where
  "val_end r \<longleftrightarrow> r = [] \<or> hd r \<in> {CHR '','', CHR '']'', CHR ''}'', CHR 0x0A}"

lemma val_end_num: "val_end r \<Longrightarrow> num_end r"
  by (auto simp: val_end_def num_end_def is_digit_def)

lemma skip_ws_Cons: "\<not> is_ws c \<Longrightarrow> skip_ws (c # r) = c # r"
  by (simp add: skip_ws_def)

lemma not_ws [simp]:
  "\<not> is_ws quote_char" "\<not> is_ws CHR ''[''" "\<not> is_ws CHR '']''" "\<not> is_ws CHR ''{''" "\<not> is_ws CHR ''}''"
  "\<not> is_ws CHR '',''" "\<not> is_ws CHR '':''" "\<not> is_ws CHR ''-''" "\<not> is_ws CHR ''n''" "\<not> is_ws CHR ''t''"
  "\<not> is_ws CHR ''f''"
  by (simp_all add: is_ws_def quote_char_def)

lemma digit_not_ws: "is_digit c \<Longrightarrow> \<not> is_ws c \<and> c \<notin> {CHR '']'', CHR ''}'', CHR ''['', CHR ''{'', quote_char}"
  by (auto simp: is_digit_def is_ws_def quote_char_def)

text \<open>The first character of a written value.\<close>

lemma render_head:
  assumes "wf_json v"
  shows "\<exists>c r. render v = c # r \<and> \<not> is_ws c \<and> c \<noteq> CHR '']'' \<and> c \<noteq> CHR ''}''"
proof (cases v)
  case (RLit s)
  with assms have "s = ''null'' \<or> s = ''true'' \<or> s = ''false''" by (simp add: literals_def)
  with RLit show ?thesis by (elim disjE) simp_all
next
  case (RNum s)
  with assms have "scan_number s = Some (s, [])" by simp
  from scan_number_extends [OF this, of "[]"] RNum digit_not_ws show ?thesis
    by (cases s) (auto simp: num_end_def)
qed (auto simp: quote_char_def is_ws_def)

lemma scalar_render:
  assumes "wf_json v" and "val_end rest" and "render v = c # r" and "\<forall>vs. v \<noteq> RArr vs" and "\<forall>ms. v \<noteq> RObj ms"
  shows "scalar c (r @ rest) = Some (v, rest) \<and> c \<noteq> CHR ''['' \<and> c \<noteq> CHR ''{''"
proof (cases v)
  case (RLit s)
  with assms(1,3) show ?thesis
    by (auto simp: literals_def scalar_def scan_literal_def quote_char_def is_digit_def)
next
  case (RNum s)
  with assms(1) have "scan_number s = Some (s, [])" by simp
  from scan_number_extends [OF this val_end_num [OF assms(2)]] RNum assms(3) digit_not_ws show ?thesis
    by (auto simp: scalar_def quote_char_def)
next
  case (RStr s)
  with assms(1,3) wf_string_scan [of s rest] show ?thesis
    by (auto simp: scalar_def quote_char_def)
qed (use assms in auto)

lemma depth_elem:
  "v \<in> set vs \<Longrightarrow> depth v \<le> foldr max (map depth vs) 0"
  "m \<in> set ms \<Longrightarrow> depth (snd m) \<le> foldr max (map (depth \<circ> snd) ms) 0"
  by (induction vs, auto) (induction ms, auto)

lemma big_fuel:
  "pvalue n d s = Some (v, t) \<Longrightarrow> 2 * length s \<le> m \<Longrightarrow> pvalue m d s = Some (v, t)"
  "pelems n d s = Some (vs, t) \<Longrightarrow> 2 * length s \<le> m \<Longrightarrow> pelems m d s = Some (vs, t)"
  "pmembers n d s = Some (ms, t) \<Longrightarrow> 2 * length s \<le> m \<Longrightarrow> pmembers m d s = Some (ms, t)"
  by (rule enoughD [OF fuel_enough(1)], assumption, linarith)
     (rule enoughD [OF fuel_enough(2)], assumption, linarith,
      rule enoughD [OF fuel_enough(3)], assumption, linarith)

lemma render_elems_head:
  "vs \<noteq> [] \<Longrightarrow> \<forall>v \<in> set vs. wf_json v \<Longrightarrow>
   \<exists>c r. render_elems vs = c # r \<and> \<not> is_ws c \<and> c \<noteq> CHR '']''"
  using render_head [of "hd vs"] by (cases vs) auto

lemma val_end_simps [simp]: "val_end (CHR '','' # r)" "val_end (CHR '']'' # r)" "val_end (CHR ''}'' # r)"
  "val_end (CHR 0x0A # r)" "val_end []"
  by (simp_all add: val_end_def)

lemma pelems_step:
  assumes "pvalue n1 d (s @ CHR '','' # s') = Some (v, CHR '','' # s')" and "pelems n2 d s' = Some (vs, t)"
  shows "\<exists>n. pelems n d (s @ CHR '','' # s') = Some (v # vs, t)"
proof -
  let ?m = "2 * length (s @ CHR '','' # s')"
  have "pvalue ?m d (s @ CHR '','' # s') = Some (v, CHR '','' # s')"
    by (rule big_fuel(1) [OF assms(1)]) simp
  moreover have "pelems ?m d s' = Some (vs, t)"
    by (rule big_fuel(2) [OF assms(2)]) simp
  ultimately have "pelems (Suc ?m) d (s @ CHR '','' # s') = Some (v # vs, t)"
    by (simp add: skip_ws_Cons)
  then show ?thesis ..
qed

lemma pmembers_value:
  assumes "wf_string k" and "pvalue n d (s @ c # s') = Some (v, c # s')" and "c = CHR '','' \<or> c = CHR ''}''"
  shows "pmembers (Suc n) d (quote_char # k @ quote_char # CHR '':'' # s @ c # s') =
    (if c = CHR ''}'' then Some ([(k, v)], s')
     else map_option (\<lambda>(ms, t). ((k, v) # ms, t)) (pmembers n d s'))"
  using wf_string_scan [OF assms(1), of "CHR '':'' # s @ c # s'"] assms(2,3)
  by (auto simp: skip_ws_Cons)

lemma pmembers_step:
  assumes "wf_string k" and "pvalue n1 d (s @ CHR '','' # s') = Some (v, CHR '','' # s')"
    and "pmembers n2 d s' = Some (ms, t)"
  shows "\<exists>n. pmembers n d (quote_char # k @ quote_char # CHR '':'' # s @ CHR '','' # s') = Some ((k, v) # ms, t)"
proof -
  let ?m = "2 * length (s @ CHR '','' # s')"
  have "pvalue ?m d (s @ CHR '','' # s') = Some (v, CHR '','' # s')"
    by (rule big_fuel(1) [OF assms(2)]) simp
  from pmembers_value [OF assms(1) this] have
    "pmembers (Suc ?m) d (quote_char # k @ quote_char # CHR '':'' # s @ CHR '','' # s') =
      map_option (\<lambda>(ms, t). ((k, v) # ms, t)) (pmembers ?m d s')" by simp
  moreover have "pmembers ?m d s' = Some (ms, t)"
    by (rule big_fuel(3) [OF assms(3)]) simp
  ultimately show ?thesis by (intro exI [of _ "Suc ?m"]) simp
qed

lemma pvalue_scalar:
  assumes "wf_json v" and "val_end rest" and "\<forall>vs. v \<noteq> RArr vs" and "\<forall>ms. v \<noteq> RObj ms"
  shows "\<exists>n. pvalue n d (render v @ rest) = Some (v, rest)"
proof -
  obtain c r where c: "render v = c # r" "\<not> is_ws c"
    using render_head [OF assms(1)] by blast
  from scalar_render [OF assms(1,2) c(1) assms(3,4)] c have "pvalue (Suc 0) d (render v @ rest) = Some (v, rest)"
    by (simp add: skip_ws_Cons)
  then show ?thesis ..
qed

lemma pvalue_render:
  "wf_json v \<Longrightarrow> depth v \<le> d \<Longrightarrow> val_end rest \<Longrightarrow> \<exists>n. pvalue n d (render v @ rest) = Some (v, rest)"
  "vs \<noteq> [] \<Longrightarrow> \<forall>v \<in> set vs. wf_json v \<and> depth v \<le> d \<Longrightarrow>
     \<exists>n. pelems n d (render_elems vs @ CHR '']'' # rest) = Some (vs, rest)"
  "ms \<noteq> [] \<Longrightarrow> \<forall>m \<in> set ms. wf_string (fst m) \<and> wf_json (snd m) \<and> depth (snd m) \<le> d \<Longrightarrow>
     \<exists>n. pmembers n d (render_members ms @ CHR ''}'' # rest) = Some (ms, rest)"
proof (induction v and vs and ms arbitrary: d rest and d rest and d rest rule: render_render_elems_render_members.induct)
  case (4 vs)
  then obtain e where d: "d = Suc e" by (cases d) auto
  show ?case
  proof (cases "vs = []")
    case True
    then have "pvalue 1 d (render (RArr vs) @ rest) = Some (RArr vs, rest)"
      by (simp add: d skip_ws_Cons)
    then show ?thesis ..
  next
    case False
    have "\<forall>v \<in> set vs. wf_json v \<and> depth v \<le> e"
      using "4.prems"(1,2) d depth_elem(1) [of _ vs] by fastforce
    from "4.IH" [OF False this] obtain n where
      "pelems n e (render_elems vs @ CHR '']'' # rest) = Some (vs, rest)" by blast
    moreover from render_elems_head [OF False] "4.prems"(1) obtain c r where
      "render_elems vs = c # r" "\<not> is_ws c" "c \<noteq> CHR '']''" by auto
    ultimately have "pvalue (Suc n) d (render (RArr vs) @ rest) = Some (RArr vs, rest)"
      by (simp add: d skip_ws_Cons)
    then show ?thesis ..
  qed
next
  case (5 ms)
  then obtain e where d: "d = Suc e" by (cases d) auto
  show ?case
  proof (cases "ms = []")
    case True
    then have "pvalue 1 d (render (RObj ms) @ rest) = Some (RObj ms, rest)"
      by (simp add: d skip_ws_Cons)
    then show ?thesis ..
  next
    case False
    have "\<forall>m \<in> set ms. wf_string (fst m) \<and> wf_json (snd m) \<and> depth (snd m) \<le> e"
      using "5.prems"(1,2) d depth_elem(2) [of _ ms] by fastforce
    from "5.IH" [OF False this] obtain n where
      "pmembers n e (render_members ms @ CHR ''}'' # rest) = Some (ms, rest)" by blast
    moreover obtain r where "render_members ms = quote_char # r" using False by (cases ms) auto
    ultimately have "pvalue (Suc n) d (render (RObj ms) @ rest) = Some (RObj ms, rest)"
      by (simp add: d skip_ws_Cons)
    then show ?thesis ..
  qed
next
  case (7 v vs)
  show ?case
  proof (cases "vs = []")
    case True
    from "7.IH"(1) [of d "CHR '']'' # rest"] "7.prems" True obtain n where
      "pvalue n d (render v @ CHR '']'' # rest) = Some (v, CHR '']'' # rest)" by auto
    then have "pelems (Suc n) d (render_elems (v # vs) @ CHR '']'' # rest) = Some (v # vs, rest)"
      using True by (simp add: skip_ws_Cons)
    then show ?thesis ..
  next
    case False
    let ?s' = "render_elems vs @ CHR '']'' # rest"
    from "7.IH"(2) [of d "CHR '','' # ?s'"] "7.prems" False obtain n1 where
      n1: "pvalue n1 d (render v @ CHR '','' # ?s') = Some (v, CHR '','' # ?s')" by auto
    from "7.IH"(3) [OF False False, of d rest] "7.prems" obtain n2 where n2: "pelems n2 d ?s' = Some (vs, rest)"
      by auto
    from pelems_step [OF n1 n2] False show ?thesis by simp
  qed
next
  case (9 k v ms)
  have k: "wf_string k" using "9.prems" by simp
  show ?case
  proof (cases "ms = []")
    case True
    from "9.IH"(1) [of d "CHR ''}'' # rest"] "9.prems" True obtain n where
      "pvalue n d (render v @ CHR ''}'' # rest) = Some (v, CHR ''}'' # rest)" by auto
    from pmembers_value [OF k this] have "pmembers (Suc n) d (render_members ((k, v) # ms) @ CHR ''}'' # rest) =
        Some ((k, v) # ms, rest)"
      using True by simp
    then show ?thesis ..
  next
    case False
    let ?s' = "render_members ms @ CHR ''}'' # rest"
    from "9.IH"(2) [of d "CHR '','' # ?s'"] "9.prems" False obtain n1 where
      n1: "pvalue n1 d (render v @ CHR '','' # ?s') = Some (v, CHR '','' # ?s')" by auto
    from "9.IH"(3) [OF False False, of d rest] "9.prems" obtain n2 where n2: "pmembers n2 d ?s' = Some (ms, rest)"
      by auto
    from pmembers_step [OF k n1 n2] False show ?thesis by simp
  qed
next
  case (1 s)
  then show ?case using pvalue_scalar [of "RLit s" rest d] by simp
next
  case (2 s)
  then show ?case using pvalue_scalar [of "RNum s" rest d] by simp
next
  case (3 s)
  then show ?case using pvalue_scalar [of "RStr s" rest d] by simp
qed simp_all

text \<open>A well-formed tree that is written is read back.\<close>

lemma parse_render:
  assumes "wf_json v" and "depth v \<le> max_depth"
  shows "parse_json (render v) = Some v"
proof -
  from pvalue_render(1) [OF assms, of "[]"] obtain n where "pvalue n max_depth (render v) = Some (v, [])"
    by auto
  from parse_json_any_fuel [OF this] show ?thesis by (simp add: skip_ws_def)
qed

end
