(* ===== verification/GoJsonStrings.thy ===== *)
theory GoJsonStrings
  imports GoJsonProps
begin

text \<open>
  The contents of JSON strings: how \<open>Marshal\<close> writes a Go string (HTML escaping on), how
  \<open>Unmarshal\<close> reads one, and the escaping that \<open>Marshal\<close> applies to the text a \<open>Marshaler\<close>
  returns. A Go string that is valid UTF-8 is read back as it was written, one that is not comes
  back with U+FFFD for the bytes that are not.
\<close>

section \<open>Hexadecimal escapes\<close>

definition hexdigit :: "nat \<Rightarrow> char" where
  "hexdigit n = ''0123456789abcdef'' ! n"

definition hexval :: "char \<Rightarrow> nat" where
  "hexval c =
     (let n = of_char c in
      if n < 58 then n - 48 else if n < 71 then n - 55 else n - 87)"

definition u_escape :: "nat \<Rightarrow> string" where
  "u_escape n =
     [backslash, CHR ''u'', hexdigit (n div 4096 mod 16), hexdigit (n div 256 mod 16),
      hexdigit (n div 16 mod 16), hexdigit (n mod 16)]"

text \<open>\<open>getu4\<close>: the code unit written by an escape at the head.\<close>

definition hex4 :: "string \<Rightarrow> nat" where
  "hex4 h = foldl (\<lambda>acc c. 16 * acc + hexval c) 0 h"

definition getu4 :: "string \<Rightarrow> nat option" where
  "getu4 s =
     (case s of
        b # u # h \<Rightarrow>
          if b = backslash \<and> u = CHR ''u'' \<and> 4 \<le> length h \<and> (\<forall>d \<in> set (take 4 h). is_hex d)
          then Some (hex4 (take 4 h)) else None
      | _ \<Rightarrow> None)"

text \<open>\<open>utf16.DecodeRune\<close>, \<open>None\<close> for U+FFFD.\<close>

definition DecodeSurrogates :: "nat \<Rightarrow> nat \<Rightarrow> nat option" where
  "DecodeSurrogates a b =
     (if 0xD800 \<le> a \<and> a < 0xDC00 \<and> 0xDC00 \<le> b \<and> b < 0xE000
      then Some ((a - 0xD800) * 1024 + (b - 0xDC00) + 0x10000) else None)"

section \<open>Writing and reading\<close>

text \<open>\<open>appendString\<close> on one rune.\<close>

definition esc_rune :: "string \<Rightarrow> string" where
  "esc_rune r =
     (if length r = 1 then
       (let c = hd r; n = of_char c in
        if c = quote_char \<or> c = backslash then [backslash, c]
        else if n = 8 then [backslash, CHR ''b'']
        else if n = 12 then [backslash, CHR ''f'']
        else if n = 10 then [backslash, CHR ''n'']
        else if n = 13 then [backslash, CHR ''r'']
        else if n = 9 then [backslash, CHR ''t'']
        else if n < 32 \<or> c \<in> set ''<>&'' then u_escape n
        else [c])
      else if byte_at 0 r = 0xE2 \<and> byte_at 1 r = 0x80 \<and> byte_at 2 r \<in> {0xA8, 0xA9}
        then u_escape (0x1F80 + byte_at 2 r)
      else r)"

function esc :: "string \<Rightarrow> string" where
  "esc s =
     (if s = [] then []
      else if 0 < rune_size s then esc_rune (take (rune_size s) s) @ esc (drop (rune_size s) s)
      else u_escape 0xFFFD @ esc (tl s))"
  by pat_completeness auto
termination
  by (relation "measure length") simp_all

declare esc.simps [simp del]

definition json_string :: "string \<Rightarrow> rjson" where
  "json_string s = RStr (esc s)"

text \<open>\<open>unquoteBytes\<close> on the contents of a string that was scanned.\<close>

definition unescape :: "char \<Rightarrow> char" where
  "unescape e =
     (if e = CHR ''b'' then char_of (8 :: nat) else if e = CHR ''f'' then char_of (12 :: nat)
      else if e = CHR ''n'' then char_of (10 :: nat) else if e = CHR ''r'' then char_of (13 :: nat)
      else if e = CHR ''t'' then char_of (9 :: nat) else e)"

function unquote :: "string \<Rightarrow> string" where
  "unquote s =
     (case s of
        [] \<Rightarrow> []
      | c # r \<Rightarrow>
          if c = backslash then
            (case r of
               [] \<Rightarrow> []
             | e # r' \<Rightarrow>
                 if e = CHR ''u'' then
                   (case getu4 s of
                      None \<Rightarrow> []
                    | Some a \<Rightarrow>
                        if 0xD800 \<le> a \<and> a < 0xE000 then
                          (case Option.bind (getu4 (drop 6 s)) (DecodeSurrogates a) of
                             Some dec \<Rightarrow> encode_rune dec @ unquote (drop 12 s)
                           | None \<Rightarrow> replacement @ unquote (drop 6 s))
                        else encode_rune a @ unquote (drop 6 s))
                 else unescape e # unquote r')
          else if 0 < rune_size s then take (rune_size s) s @ unquote (drop (rune_size s) s)
          else replacement @ unquote r)"
  by pat_completeness auto
termination
  by (relation "measure length") auto

declare unquote.simps [simp del]

section \<open>Compact\<close>

text \<open>What \<open>appendCompact\<close> escapes inside the text it copies.\<close>

fun html_str :: "string \<Rightarrow> string" where
  "html_str [] = []"
| "html_str (c # s) =
     (if c \<in> set ''<>&'' then u_escape (of_char c) @ html_str s
      else if of_char c = (0xE2 :: nat) \<and> byte_at 0 s = 0x80 \<and> byte_at 1 s \<in> {0xA8, 0xA9}
        then u_escape (0x1F80 + byte_at 1 s) @ html_str (drop 2 s)
      else c # html_str s)"

fun html_esc :: "rjson \<Rightarrow> rjson" where
  "html_esc (RLit s) = RLit s"
| "html_esc (RNum s) = RNum s"
| "html_esc (RStr s) = RStr (html_str s)"
| "html_esc (RArr vs) = RArr (map html_esc vs)"
| "html_esc (RObj ms) = RObj (map (\<lambda>(k, v). (html_str k, html_esc v)) ms)"

definition Compact :: "string \<Rightarrow> string option" where
  "Compact s = map_option (\<lambda>v. render (html_esc v)) (parse_json s)"

section \<open>Escapes are read back\<close>

lemma hex_table:
  assumes "n < 16"
  shows "is_hex (hexdigit n)" and "hexval (hexdigit n) = n" and "\<not> is_ws (hexdigit n)"
proof -
  have "list_all (\<lambda>n. is_hex (hexdigit n) \<and> hexval (hexdigit n) = n \<and> \<not> is_ws (hexdigit n)) [0..<16]"
    by (simp add: upt_conv_Cons hexdigit_def hexval_def is_hex_def is_digit_def is_ws_def)
  with assms show "is_hex (hexdigit n)" "hexval (hexdigit n) = n" "\<not> is_ws (hexdigit n)"
    by (simp_all add: list_all_iff)
qed

lemma hex4_value:
  "a < 16 \<Longrightarrow> b < 16 \<Longrightarrow> c < 16 \<Longrightarrow> d < 16 \<Longrightarrow>
   hex4 [hexdigit a, hexdigit b, hexdigit c, hexdigit d] = 16 * (16 * (16 * a + b) + c) + d"
  by (simp only: hex4_def foldl.simps hex_table mult_0_right add_0)

lemma hex_digits:
  assumes "n < 65536"
  shows "16 * (16 * (16 * (n div 4096 mod 16) + n div 256 mod 16) + n div 16 mod 16) + n mod 16 = (n::nat)"
proof -
  have "n div 256 = n div 16 div 16" "n div 4096 = n div 16 div 16 div 16"
    by (simp_all flip: div_mult2_eq)
  moreover have "n div 16 div 16 div 16 mod 16 = n div 16 div 16 div 16" using assms by simp
  ultimately show ?thesis by (simp only: mult_div_mod_eq)
qed

lemma getu4_u_escape [simp]:
  assumes "n < 65536"
  shows "getu4 (u_escape n @ x) = Some n"
proof -
  have "hex4 (take 4 (drop 2 (u_escape n @ x))) = n"
    using hex_digits [OF assms] by (simp add: u_escape_def hex4_value del: mod_less)
  then show ?thesis
    by (simp add: getu4_def u_escape_def hex_table)
qed

lemma drop_u_escape [simp]: "drop 6 (u_escape n @ x) = x" "length (u_escape n) = 6"
  by (simp_all add: u_escape_def)

lemma unquote_u_escape:
  assumes "n < 0xD800 \<or> 0xE000 \<le> n \<and> n < 65536"
  shows "unquote (u_escape n @ x) = encode_rune n @ unquote x"
proof -
  obtain h where h: "u_escape n @ x = backslash # CHR ''u'' # h"
    by (simp add: u_escape_def)
  have "getu4 (u_escape n @ x) = Some n" using assms by auto
  with assms h drop_u_escape(1) [of n x] show ?thesis
    by (subst unquote.simps) (auto simp del: getu4_u_escape drop_u_escape)
qed

lemma unquote_Nil [simp]: "unquote [] = []"
  by (simp add: unquote.simps)

lemma unquote_simple:
  "e \<noteq> CHR ''u'' \<Longrightarrow> unquote (backslash # e # x) = unescape e # unquote x"
  by (subst unquote.simps) simp

lemma unquote_ascii:
  "c \<noteq> backslash \<Longrightarrow> (of_char c :: nat) < 0x80 \<Longrightarrow> unquote (c # x) = c # unquote x"
  by (subst unquote.simps) (simp add: rune_size_ascii)

lemma esc_Nil [simp]: "esc [] = []"
  by (simp add: esc.simps)

text \<open>A single rune.\<close>

lemma is_rune_head:
  assumes "rune_size r = length r" and "1 < length r"
  obtains c y where "r = c # y" "0x80 \<le> (of_char c :: nat)"
proof -
  obtain c y where r: "r = c # y" using assms(2) by (cases r) auto
  with rune_size_high [of r 0] assms have "0x80 \<le> (of_char c :: nat)" by simp
  with r that show thesis by blast
qed

lemma rune_size_append:
  assumes "rune_size r = length r" and "r \<noteq> []"
  shows "rune_size (r @ x) = length r"
  using rune_size_take_append [of r x] assms by simp

lemma unquote_rune:
  assumes "rune_size r = length r" and "r \<noteq> []" and "hd r \<noteq> backslash"
  shows "unquote (r @ x) = r @ unquote x"
proof -
  obtain c y where r: "r = c # y" using assms(2) by (cases r) auto
  with rune_size_append [OF assms(1,2), of x] assms(3) show ?thesis
    by (subst unquote.simps) simp
qed

lemma of_char_nat_eq: "(of_char c :: nat) = n \<Longrightarrow> char_of n = c"
  by auto

lemma unquote_esc_ascii:
  assumes "(of_char c :: nat) < 0x80"
  shows "unquote (esc_rune [c] @ x) = c # unquote x"
proof -
  have "encode_rune (of_char c) = [c]" using assms by (simp add: encode_rune_def)
  then have u: "unquote (u_escape (of_char c) @ x) = c # unquote x"
    using assms by (simp add: unquote_u_escape)
  have letter: "unquote (esc_rune [c] @ x) = c # unquote x"
    if "esc_rune [c] = [backslash, e]" "e \<noteq> CHR ''u''" "unescape e = c" for e
    using that by (simp add: unquote_simple)
  have nq: "(of_char c :: nat) < 32 \<Longrightarrow> c \<noteq> quote_char \<and> c \<noteq> backslash"
    by (auto simp: quote_char_def backslash_def)
  have "(c = quote_char \<or> c = backslash) \<or> of_char c = (8::nat) \<or> of_char c = (12::nat) \<or> of_char c = (10::nat) \<or>
    of_char c = (13::nat) \<or> of_char c = (9::nat) \<or> esc_rune [c] = u_escape (of_char c) \<or>
    esc_rune [c] = [c] \<and> c \<noteq> backslash"
    by (simp add: esc_rune_def Let_def)
  then consider "c = quote_char \<or> c = backslash" | "of_char c = (8::nat)" | "of_char c = (12::nat)" | "of_char c = (10::nat)"
    | "of_char c = (13::nat)" | "of_char c = (9::nat)" | "esc_rune [c] = u_escape (of_char c)"
    | "esc_rune [c] = [c]" "c \<noteq> backslash"
    by metis
  then show ?thesis
  proof cases
    case 1
    then have "c \<noteq> CHR ''u''" "unescape c = c" by (auto simp: unescape_def quote_char_def backslash_def)
    with 1 show ?thesis by (simp add: esc_rune_def unquote_simple)
  next
    case 8
    with assms show ?thesis by (simp add: unquote_ascii)
  next
    case 2
    with nq of_char_nat_eq [of c 8] show ?thesis
      by (intro letter [of "CHR ''b''"]) (auto simp: esc_rune_def unescape_def)
  next
    case 3
    with nq of_char_nat_eq [of c 12] show ?thesis
      by (intro letter [of "CHR ''f''"]) (auto simp: esc_rune_def unescape_def)
  next
    case 4
    with nq of_char_nat_eq [of c 10] show ?thesis
      by (intro letter [of "CHR ''n''"]) (auto simp: esc_rune_def unescape_def)
  next
    case 5
    with nq of_char_nat_eq [of c 13] show ?thesis
      by (intro letter [of "CHR ''r''"]) (auto simp: esc_rune_def unescape_def)
  next
    case 6
    with nq of_char_nat_eq [of c 9] show ?thesis
      by (intro letter [of "CHR ''t''"]) (auto simp: esc_rune_def unescape_def)
  qed (use u in simp)
qed

lemma line_separator:
  assumes "length r = 3" and "byte_at 0 r = 0xE2" and "byte_at 1 r = 0x80" and "byte_at 2 r \<in> {0xA8, 0xA9}"
  shows "encode_rune (0x1F80 + byte_at 2 r) = r"
proof -
  obtain a b c where r: "r = [a, b, c]" using assms(1) by (auto simp: numeral_3_eq_3 length_Suc_conv)
  with assms(2-4) have "char_of (0xE2 :: nat) = a" "char_of (0x80 :: nat) = b"
    "of_char c = (0xA8::nat) \<or> of_char c = (0xA9::nat)"
    by (auto simp: byte_at_def intro: of_char_nat_eq)
  with r show ?thesis by (auto simp: encode_rune_def byte_at_def dest: of_char_nat_eq)
qed

lemma unquote_esc_rune:
  assumes "rune_size r = length r" and "r \<noteq> []"
  shows "unquote (esc_rune r @ x) = r @ unquote x"
proof (cases "length r = 1")
  case True
  then obtain c where r: "r = [c]" by (auto simp: length_Suc_conv)
  with assms have "(of_char c :: nat) < 0x80" by (cases r rule: rune_size_cases) simp_all
  with r show ?thesis by (simp add: unquote_esc_ascii)
next
  case False
  with assms have l: "1 < length r" by (cases r) auto
  from is_rune_head [OF assms(1) l] obtain c y where r: "r = c # y" "0x80 \<le> (of_char c :: nat)" .
  then have nb: "hd r \<noteq> backslash" by (auto simp: backslash_def)
  show ?thesis
  proof (cases "byte_at 0 r = 0xE2 \<and> byte_at 1 r = 0x80 \<and> byte_at 2 r \<in> {0xA8, 0xA9}")
    case True
    have "length r = 3"
      using assms True by (cases r rule: rune_size_cases) (auto simp: lead2_def lead4_def)
    with True have "encode_rune (0x1F80 + byte_at 2 r) = r" by (simp add: line_separator)
    moreover have "esc_rune r = u_escape (0x1F80 + byte_at 2 r)" using True False by (simp add: esc_rune_def)
    ultimately show ?thesis using True by (auto simp: unquote_u_escape)
  next
    case sep: False
    with False have "esc_rune r = r" by (auto simp: esc_rune_def)
    with unquote_rune [OF assms nb] show ?thesis by simp
  qed
qed

text \<open>A Go string is read back; bytes that are not UTF-8 come back as U+FFFD.\<close>

lemma unquote_esc: "unquote (esc s) = concat (runes s)"
proof (induction s rule: esc.induct)
  case (1 s)
  show ?case
  proof (cases "0 < rune_size s")
    case True
    then have ne: "s \<noteq> []" by auto
    let ?r = "take (rune_size s) s"
    have "rune_size ?r = length ?r" "?r \<noteq> []"
      using rune_size_take_append [OF True, of "[]"] rune_size_length [of s] True by auto
    from unquote_esc_rune [OF this] 1(1) [OF ne True] True ne show ?thesis
      by (simp add: esc.simps [of s] runes.simps [of s])
  next
    case False
    have "encode_rune 0xFFFD = replacement" by (simp add: encode_rune_def replacement_def)
    with False 1(2) show ?thesis
      by (cases "s = []") (simp_all add: esc.simps [of s] runes.simps [of s] unquote_u_escape)
  qed
qed

lemma unquote_esc_valid: "valid_utf8 s \<Longrightarrow> unquote (esc s) = s"
  by (simp add: unquote_esc runes_valid)

section \<open>What is written is well formed and escaped\<close>

lemma is_hex_plain: "is_hex d \<Longrightarrow> d \<noteq> quote_char \<and> d \<noteq> backslash \<and> d \<notin> set ''<>&'' \<and> (of_char d :: nat) < 0x80"
  by (auto simp: is_hex_def is_digit_def quote_char_def backslash_def)

lemma u_escape_hex: "\<exists>h. u_escape n = backslash # CHR ''u'' # h \<and> length h = 4 \<and> (\<forall>d \<in> set h. is_hex d)"
  by (simp add: u_escape_def hex_table)

lemma wf_u_escape: "wf_string x \<Longrightarrow> wf_string (u_escape n @ x)"
  using u_escape_hex [of n] by (auto intro: wf_unicode)

lemma wf_string_plainD:
  assumes "wf_string (c # x)" and "c \<noteq> backslash"
  shows "wf_string x"
  using assms by (cases rule: wf_string.cases) auto

lemma wf_high:
  "\<forall>c \<in> set r. 0x80 \<le> (of_char c :: nat) \<Longrightarrow> wf_string x \<Longrightarrow> wf_string (r @ x)"
  by (induction r) (auto simp: quote_char_def backslash_def intro!: wf_plain)

lemma rune_high:
  assumes "rune_size r = length r" and "1 < length r"
  shows "\<forall>c \<in> set r. 0x80 \<le> (of_char c :: nat)"
  using rune_size_high [of r] assms by (auto simp: in_set_conv_nth byte_at_def)

lemma wf_esc_rune:
  assumes "rune_size r = length r" and "r \<noteq> []" and "wf_string x"
  shows "wf_string (esc_rune r @ x)"
proof (cases "length r = 1")
  case True
  then obtain c where "r = [c]" by (auto simp: length_Suc_conv)
  with assms(3) show ?thesis
    by (auto simp: esc_rune_def Let_def wf_u_escape intro!: wf_escape wf_plain)
next
  case False
  with assms have "1 < length r" by (cases r) auto
  with rune_high [OF assms(1)] False assms(3) show ?thesis
    by (auto simp: esc_rune_def wf_u_escape wf_high)
qed

lemma rune_at_head:
  assumes "0 < rune_size s"
  shows "rune_size (take (rune_size s) s) = length (take (rune_size s) s)" and "take (rune_size s) s \<noteq> []"
  using rune_size_take_append [OF assms, of "[]"] rune_size_length [of s] assms by auto

lemma wf_esc: "wf_string (esc s)"
proof (induction s rule: esc.induct)
  case (1 s)
  then show ?case
    by (cases "s = []")
      (auto simp: esc.simps [of s] wf_u_escape intro!: wf_Nil wf_esc_rune rune_at_head)
qed

text \<open>Nothing is left to escape.\<close>

abbreviation separator_at :: "char \<Rightarrow> string \<Rightarrow> bool" where
  "separator_at c s \<equiv> of_char c = (0xE2 :: nat) \<and> byte_at 0 s = 0x80 \<and> byte_at 1 s \<in> {0xA8, 0xA9}"

lemma html_str_cases:
  "c \<in> set ''<>&'' \<Longrightarrow> html_str (c # s) = u_escape (of_char c) @ html_str s"
  "c \<notin> set ''<>&'' \<Longrightarrow> separator_at c s \<Longrightarrow> html_str (c # s) = u_escape (0x1F80 + byte_at 1 s) @ html_str (drop 2 s)"
  "c \<notin> set ''<>&'' \<Longrightarrow> \<not> separator_at c s \<Longrightarrow> html_str (c # s) = c # html_str s"
  by (simp_all only: html_str.simps if_True if_False simp_thms)

lemma html_str_pass: "\<forall>c \<in> set h. c \<notin> set ''<>&'' \<and> (of_char c :: nat) \<noteq> 0xE2 \<Longrightarrow> html_str (h @ x) = h @ html_str x"
  by (induction h) auto

lemma html_str_u_escape [simp]: "html_str (u_escape n @ x) = u_escape n @ html_str x"
proof (rule html_str_pass)
  have "\<forall>c \<in> set (u_escape n). c = backslash \<or> c = CHR ''u'' \<or> is_hex c"
    by (simp add: u_escape_def hex_table)
  moreover have "c \<notin> set ''<>&'' \<and> (of_char c :: nat) \<noteq> 0xE2" if "c = backslash \<or> c = CHR ''u'' \<or> is_hex c" for c
    using that is_hex_plain [of c] by (auto simp: backslash_def)
  ultimately show "\<forall>c \<in> set (u_escape n). c \<notin> set ''<>&'' \<and> (of_char c :: nat) \<noteq> 0xE2"
    by blast
qed

lemma html_str_cont:
  assumes "cont (byte_at 0 (html_str s))"
  shows "\<exists>c s'. s = c # s' \<and> cont (of_char c) \<and> html_str s = c # html_str s'"
proof (cases s)
  case (Cons c s')
  with assms show ?thesis
    by (auto simp: u_escape_def cont_def backslash_def split: if_splits)
qed (use assms in \<open>simp add: cont_def\<close>)

lemma html_str_separator:
  assumes "\<not> separator_at c s"
  shows "\<not> separator_at c (html_str s)"
proof
  assume h: "separator_at c (html_str s)"
  then obtain a s1 where a: "s = a # s1" "html_str s = a # html_str s1"
    using html_str_cont [of s] by (auto simp: cont_def)
  with h have "byte_at 0 (html_str s1) \<in> {0xA8, 0xA9}" by (auto simp: byte_at_def)
  then obtain b s2 where "s1 = b # s2" "html_str s1 = b # html_str s2"
    using html_str_cont [of s1] by (auto simp: cont_def)
  with a h assms show False by (auto simp: byte_at_def)
qed

lemma html_str_idem: "html_str (html_str s) = html_str s"
proof (induction s rule: html_str.induct)
  case (2 c s)
  consider "c \<in> set ''<>&''" | "c \<notin> set ''<>&''" "separator_at c s" | "c \<notin> set ''<>&''" "\<not> separator_at c s"
    by blast
  then show ?case
  proof cases
    case 2
    from 2(1,2) "2.IH"(2) have "html_str (html_str (drop 2 s)) = html_str (drop 2 s)" by blast
    then show ?thesis unfolding html_str_cases(2) [OF 2] html_str_u_escape by (rule arg_cong)
  next
    case 3
    with "2.IH"(3) html_str_separator [OF 3(2)] show ?thesis by (simp only: html_str_cases(3) simp_thms)
  qed (use "2.IH"(1) in \<open>simp only: html_str_cases(1) html_str_u_escape simp_thms\<close>)
qed simp

lemma html_str_rune:
  assumes "rune_size r = length r" and "1 < length r"
    and "\<not> (byte_at 0 r = 0xE2 \<and> byte_at 1 r = 0x80 \<and> byte_at 2 r \<in> {0xA8, 0xA9})"
  shows "html_str (r @ x) = r @ html_str x"
proof -
  obtain a y where r: "r = a # y" "0x80 \<le> (of_char a :: nat)" using is_rune_head [OF assms(1,2)] .
  have y: "\<forall>c \<in> set y. cont (of_char c)"
    using r(1) assms(1,2)
    by (cases r rule: rune_size_cases)
      (auto simp: byte_at_def lead2_def lead3_def lead4_def cont_def numeral_eq_Suc length_Suc_conv nth_Cons')
  have "html_str (y @ x) = y @ html_str x"
    using y by (intro html_str_pass) (auto simp: cont_def)
  moreover have "\<not> separator_at a (y @ x)"
  proof
    assume h: "separator_at a (y @ x)"
    then have "length y = 2" using r(1) assms(1,2)
      by (cases r rule: rune_size_cases) (auto simp: lead2_def lead4_def)
    with h r(1) assms(3) show False by (auto simp: byte_at_def nth_append nth_Cons' numeral_2_eq_2)
  qed
  moreover have "a \<notin> set ''<>&''" using r(2) by auto
  ultimately show ?thesis using r(1) by (simp only: append_Cons html_str_cases(3) simp_thms)
qed

lemma html_str_esc_rune:
  assumes "rune_size r = length r" and "r \<noteq> []"
  shows "html_str (esc_rune r @ x) = esc_rune r @ html_str x"
proof (cases "length r = 1")
  case True
  then obtain c where r: "r = [c]" by (auto simp: length_Suc_conv)
  with assms have "(of_char c :: nat) < 0x80" by (cases r rule: rune_size_cases) simp_all
  then have "c \<in> set ''<>&'' \<or> (c \<notin> set ''<>&'' \<and> (of_char c :: nat) \<noteq> 0xE2)" by auto
  with r show ?thesis
    by (auto simp: esc_rune_def Let_def backslash_def quote_char_def)
next
  case False
  with assms have "1 < length r" by (cases r) auto
  with html_str_rune [OF assms(1)] False show ?thesis
    by (auto simp: esc_rune_def)
qed

lemma html_str_esc: "html_str (esc s) = esc s"
proof (induction s rule: esc.induct)
  case (1 s)
  then show ?case
    using rune_at_head [of s] by (cases "s = []") (simp_all add: esc.simps [of s] html_str_esc_rune)
qed

lemma html_esc_idem: "html_esc (html_esc v) = html_esc v"
  by (induction v rule: html_esc.induct) (auto simp: html_str_idem)

end
