(* ===== verification/GoJsonHtml.thy ===== *)
theory GoJsonHtml
  imports GoJsonStrings
begin

text \<open>
  \<open>Compact\<close> with HTML escaping does not change what a JSON text means: every string has the same
  contents after it, and a text that was compacted is compacted. A parsed tree is well formed.
\<close>

section \<open>The contents of an escaped string\<close>

abbreviation conts :: "string \<Rightarrow> string" where
  "conts r \<equiv> takeWhile (\<lambda>c. cont (of_char c)) r"

lemma byte_at_Suc: "byte_at (Suc i) (c # r) = byte_at i r"
  by (simp add: byte_at_def)

lemma byte_at_1_2: "byte_at 1 (c # r) = byte_at 0 r" "byte_at 2 (c # r) = byte_at 1 r"
  by (simp_all add: byte_at_Suc numeral_2_eq_2)

lemma conts_byte:
  "conts r = conts r' \<Longrightarrow> (\<forall>j \<le> i. cont (byte_at j r)) \<Longrightarrow> byte_at i r' = byte_at i r"
proof (induction i arbitrary: r r')
  case 0
  then obtain c s where r: "r = c # s" "cont (of_char c)" by (cases r) (auto simp: cont_def)
  with 0(1) obtain s' where "r' = c # s'" by (cases r') (auto split: if_splits)
  with r show ?case by simp
next
  case (Suc i)
  have "cont (byte_at 0 r)" using Suc.prems(2) by blast
  then obtain c s where r: "r = c # s" "cont (of_char c)" by (cases r) (auto simp: cont_def)
  with Suc.prems(1) obtain s' where r': "r' = c # s'" by (cases r') (auto split: if_splits)
  have "conts s = conts s'" using Suc.prems(1) r r' by simp
  moreover have "\<forall>j \<le> i. cont (byte_at j s)"
  proof (intro allI impI)
    fix j
    assume "j \<le> i"
    then have "cont (byte_at (Suc j) r)" using Suc.prems(2) by blast
    with r show "cont (byte_at j s)" by (simp add: byte_at_Suc)
  qed
  ultimately have "byte_at i s' = byte_at i s" by (rule Suc.IH)
  with r r' show ?case by (simp add: byte_at_Suc)
qed

lemma lead_cont: "lead2 a b \<Longrightarrow> cont b" "lead3 a b \<Longrightarrow> cont b" "lead4 a b \<Longrightarrow> cont b"
  by (auto simp: lead2_def lead3_def lead4_def cont_def)

lemma rune_size_conts_pos:
  assumes "conts r = conts r'" and "0 < rune_size (c # r)"
  shows "rune_size (c # r') = rune_size (c # r)"
proof -
  have b: "byte_at (Suc i) (c # r') = byte_at (Suc i) (c # r)" if "\<forall>j \<le> i. cont (byte_at (Suc j) (c # r))" for i
    using conts_byte [OF assms(1), of i] that by (simp add: byte_at_Suc)
  have b1: "byte_at 1 (c # r') = byte_at 1 (c # r)" if "cont (byte_at 1 (c # r))"
    using b [of 0] that by simp
  have b2: "byte_at 2 (c # r') = byte_at 2 (c # r)" if "cont (byte_at 1 (c # r))" "cont (byte_at 2 (c # r))"
    using b [of 1] that by (simp add: le_Suc_eq numeral_2_eq_2)
  have b3: "byte_at 3 (c # r') = byte_at 3 (c # r)"
    if "cont (byte_at 1 (c # r))" "cont (byte_at 2 (c # r))" "cont (byte_at 3 (c # r))"
    using b [of 2] that by (simp add: le_Suc_eq numeral_2_eq_2 numeral_3_eq_3)
  show ?thesis
  proof (cases "c # r" rule: rune_size_cases)
    case 2
    then show ?thesis using rune_size_eqs(1) [of "c # r'"] by simp
  next
    case 3
    then show ?thesis using rune_size_eqs(2) [of "c # r'"] b1 lead_cont(1) by (metis byte_at_0(2))
  next
    case 4
    then show ?thesis using rune_size_eqs(3) [of "c # r'"] b1 b2 lead_cont(2) by (metis byte_at_0(2))
  next
    case 5
    then show ?thesis using rune_size_eqs(4) [of "c # r'"] b1 b2 b3 lead_cont(3) by (metis byte_at_0(2))
  qed (use assms(2) in simp)
qed

lemma rune_size_conts: "conts r = conts r' \<Longrightarrow> rune_size (c # r') = rune_size (c # r)"
  using rune_size_conts_pos [of r r' c] rune_size_conts_pos [of r' r c]
  by (cases "rune_size (c # r)"; cases "rune_size (c # r')") auto

lemma conts_html_str: "conts (html_str r) = conts r"
proof (induction r)
  case (Cons c r)
  show ?case
  proof (cases "cont (of_char c)")
    case True
    then have "c \<notin> set ''<>&''" "\<not> separator_at c r" by (auto simp: cont_def)
    then have "html_str (c # r) = c # html_str r" by (rule html_str_cases(3))
    with True Cons show ?thesis by simp
  next
    case False
    have "conts (html_str (c # r)) = []"
    proof (cases "html_str (c # r)")
      case (Cons a s)
      with html_str_cont [of "c # r"] False show ?thesis by (auto simp del: html_str.simps)
    qed simp
    with False show ?thesis by (simp del: html_str.simps)
  qed
qed simp

lemma wf_string_drop: "\<forall>c \<in> set p. c \<noteq> backslash \<Longrightarrow> wf_string (p @ d) \<Longrightarrow> wf_string d"
  by (induction p) (auto dest: wf_string_plainD)

lemma getu4_unicode:
  "length h = 4 \<Longrightarrow> \<forall>d \<in> set h. is_hex d \<Longrightarrow> getu4 (backslash # CHR ''u'' # h @ y) = Some (hex4 h)"
  by (simp add: getu4_def)

lemma unquote_unicode:
  assumes "length h = 4" and "\<forall>d \<in> set h. is_hex d"
  shows "unquote (backslash # CHR ''u'' # h @ y) =
    (if 0xD800 \<le> hex4 h \<and> hex4 h < 0xE000 then
       (case Option.bind (getu4 y) (DecodeSurrogates (hex4 h)) of
          Some dec \<Rightarrow> encode_rune dec @ unquote (drop 6 y)
        | None \<Rightarrow> replacement @ unquote y)
     else encode_rune (hex4 h) @ unquote y)"
proof -
  have "drop 6 (backslash # CHR ''u'' # h @ y) = y" "drop 12 (backslash # CHR ''u'' # h @ y) = drop 6 y"
    using assms(1) by simp_all
  then show ?thesis by (subst unquote.simps) (simp only: getu4_unicode [OF assms] list.case option.case if_True refl)
qed

lemma html_str_hex: "\<forall>d \<in> set h. is_hex d \<Longrightarrow> html_str (h @ y) = h @ html_str y"
  using is_hex_plain by (intro html_str_pass) fastforce

lemma html_str_unicode:
  "\<forall>d \<in> set h. is_hex d \<Longrightarrow> html_str (backslash # CHR ''u'' # h @ y) = backslash # CHR ''u'' # h @ html_str y"
  by (simp add: html_str_hex backslash_def)

lemma html_str_simple:
  "e = quote_char \<or> e = backslash \<or> e \<in> set ''/bfnrt'' \<Longrightarrow>
   html_str (backslash # e # y) = backslash # e # html_str y"
  by (auto simp: backslash_def quote_char_def)

lemma getu4_not: "c \<noteq> backslash \<Longrightarrow> getu4 (c # y) = None"
  by (simp add: getu4_def split: list.splits)

lemma surrogate_next:
  assumes "wf_string y"
  shows "Option.bind (getu4 (html_str y)) (DecodeSurrogates a) = Option.bind (getu4 y) (DecodeSurrogates a)"
  using assms
proof cases
  case (wf_plain x c)
  consider "c \<in> set ''<>&''" | "c \<notin> set ''<>&''" "separator_at c x" | "c \<notin> set ''<>&''" "\<not> separator_at c x"
    by blast
  then show ?thesis
  proof cases
    case 1
    then have "DecodeSurrogates a (of_char c) = None" "(of_char c :: nat) < 65536"
      by (auto simp: DecodeSurrogates_def)
    with wf_plain 1 show ?thesis by (simp add: html_str_cases(1) getu4_not del: html_str.simps)
  next
    case 2
    then have "DecodeSurrogates a (0x1F80 + byte_at 1 x) = None" "0x1F80 + byte_at 1 x < 65536"
      by (auto simp: DecodeSurrogates_def)
    then show ?thesis unfolding wf_plain(1) html_str_cases(2) [OF 2]
      by (simp add: getu4_not wf_plain(4))
  next
    case 3
    show ?thesis unfolding wf_plain(1) html_str_cases(3) [OF 3]
      by (simp add: getu4_not wf_plain(4))
  qed
next
  case (wf_escape x e)
  then have "e \<noteq> CHR ''u''" by (auto simp: quote_char_def backslash_def)
  then show ?thesis unfolding wf_escape(1) html_str_simple [OF wf_escape(3)]
    by (simp add: getu4_def)
next
  case (wf_unicode x h)
  then show ?thesis by (simp only: html_str_unicode getu4_unicode)
qed simp

text \<open>A second surrogate is an escape.\<close>

lemma getu4_wf:
  assumes "wf_string y" and "getu4 y = Some b"
  shows "wf_string (drop 6 y) \<and> drop 6 (html_str y) = html_str (drop 6 y) \<and> length (drop 6 y) < length y"
  using assms(1)
proof cases
  case (wf_escape x e)
  then have "e \<noteq> CHR ''u''" by (auto simp: quote_char_def backslash_def)
  with wf_escape assms(2) show ?thesis by (simp add: getu4_def)
next
  case (wf_unicode x h)
  then show ?thesis by (simp add: html_str_unicode del: html_str.simps)
qed (use assms(2) in \<open>simp_all add: getu4_def split: list.splits\<close>)

lemma separator_rune:
  assumes "separator_at c s"
  shows "rune_size (c # s) = 3"
proof -
  have "lead3 (byte_at 0 (c # s)) (byte_at 1 (c # s))" "cont (byte_at 2 (c # s))"
    using assms by (auto simp only: byte_at_1_2) (auto simp: lead3_def cont_def)
  then show ?thesis by (rule rune_size_eqs(3))
qed

lemma unquote_html_str: "wf_string x \<Longrightarrow> unquote (html_str x) = unquote x"
proof (induction "length x" arbitrary: x rule: less_induct)
  case less
  note IH = less.hyps
  from less.prems show ?case
  proof cases
    case (wf_escape y e)
    then have "e \<noteq> CHR ''u''" by (auto simp: quote_char_def backslash_def)
    then show ?thesis unfolding wf_escape(1) html_str_simple [OF wf_escape(3)]
      using IH [OF _ wf_escape(2)] wf_escape(1) by (simp add: unquote_simple)
  next
    case (wf_unicode y h)
    have y: "unquote (html_str y) = unquote y" using IH [OF _ wf_unicode(2)] wf_unicode(1) by simp
    show ?thesis
    proof (cases "Option.bind (getu4 y) (DecodeSurrogates (hex4 h))")
      case None
      then show ?thesis unfolding wf_unicode(1) html_str_unicode [OF wf_unicode(4)]
          unquote_unicode [OF wf_unicode(3,4)] surrogate_next [OF wf_unicode(2)]
        by (simp add: y)
    next
      case (Some dec)
      then obtain b where "getu4 y = Some b" by (cases "getu4 y") auto
      from getu4_wf [OF wf_unicode(2) this] IH [of "drop 6 y"] wf_unicode(1)
      have "unquote (drop 6 (html_str y)) = unquote (drop 6 y)" by simp
      with Some show ?thesis unfolding wf_unicode(1) html_str_unicode [OF wf_unicode(4)]
          unquote_unicode [OF wf_unicode(3,4)] surrogate_next [OF wf_unicode(2)]
        by (simp add: y)
    qed
  next
    case (wf_plain r c)
    have r: "unquote (html_str r) = unquote r" using IH [OF _ wf_plain(2)] wf_plain(1) by simp
    consider "rune_size x = 0" | "rune_size x = 1" | "1 < rune_size x" by linarith
    then show ?thesis
    proof cases
      case 1
      have n1: "c \<notin> set ''<>&''"
      proof
        assume "c \<in> set ''<>&''"
        then have "(of_char c :: nat) < 0x80" by auto
        with 1 show False by (simp add: wf_plain(1) rune_size_ascii)
      qed
      have n2: "\<not> separator_at c r" using 1 separator_rune [of c r] by (auto simp: wf_plain(1))
      have "rune_size (c # html_str r) = 0"
        using rune_size_conts [OF conts_html_str, of c r] 1 by (simp add: wf_plain(1))
      then have "unquote (c # html_str r) = unquote (c # r)"
        using 1 wf_plain(4) r by (simp add: unquote.simps [of "c # _"] wf_plain(1))
      then show ?thesis unfolding wf_plain(1) html_str_cases(3) [OF n1 n2] .
    next
      case 2
      then have c: "(of_char c :: nat) < 0x80"
        by (cases x rule: rune_size_cases) (simp_all add: wf_plain(1))
      then have n2: "\<not> separator_at c r" by auto
      show ?thesis
      proof (cases "c \<in> set ''<>&''")
        case True
        have "encode_rune (of_char c) = [c]" using c by (simp add: encode_rune_def)
        with c r show ?thesis unfolding wf_plain(1) html_str_cases(1) [OF True]
          by (simp add: unquote_u_escape unquote_ascii wf_plain(4))
      next
        case False
        show ?thesis unfolding wf_plain(1) html_str_cases(3) [OF False n2]
          by (simp add: unquote_ascii wf_plain(4) c r)
      qed
    next
      case 3
      let ?r = "take (rune_size x) x" and ?d = "drop (rune_size x) x"
      have s: "rune_size ?r = length ?r" "?r \<noteq> []" "1 < length ?r" "length ?r = rune_size x"
        using rune_at_head [of x] rune_size_length [of x] 3 by auto
      have high: "\<forall>b \<in> set ?r. b \<noteq> backslash" using rune_high [OF s(1,3)] by (auto simp: backslash_def)
      have hd: "hd ?r \<noteq> backslash" using high hd_in_set [OF s(2)] by blast
      have "wf_string ?d" using wf_string_drop [OF high, of ?d] less.prems by simp
      with IH [of ?d] 3 have d: "unquote (html_str ?d) = unquote ?d"
        by (simp add: wf_plain(1))
      show ?thesis
      proof (cases "byte_at 0 ?r = 0xE2 \<and> byte_at 1 ?r = 0x80 \<and> byte_at 2 ?r \<in> {0xA8, 0xA9}")
        case True
        have l: "length ?r = 3"
          using s(1,2) True by (cases ?r rule: rune_size_cases) (auto simp: lead2_def lead4_def)
        have b: "byte_at i ?r = byte_at i x" if "i < 3" for i
          using that l byte_at_take_append [of i "rune_size x" x "[]"] s(4) rune_size_length [of x] by simp
        have x3: "rune_size x = 3" using l s(4) by simp
        have sep: "separator_at c r"
          using True b [of 0] b [of 1] b [of 2] byte_at_1_2 [of c r]
          by (simp add: wf_plain(1))
        have c: "c \<notin> set ''<>&''" using sep by auto
        have e: "0x1F80 + byte_at 1 r = 0x1F80 + byte_at 2 ?r"
          using b [of 2] byte_at_1_2(2) [of c r] by (simp add: wf_plain(1))
        have "encode_rune (0x1F80 + byte_at 2 ?r) = ?r"
          using line_separator [OF l] True by blast
        moreover have "drop 2 r = ?d" unfolding x3 by (simp add: wf_plain(1))
        ultimately have "unquote (html_str x) = ?r @ unquote ?d"
          using True d unfolding wf_plain(1) html_str_cases(2) [OF c sep] e
          by (subst unquote_u_escape) (auto simp flip: wf_plain(1))
        with unquote_rune [OF s(1,2) hd, of ?d] show ?thesis by simp
      next
        case False
        from html_str_rune [OF s(1,3) False, of ?d] have "html_str x = ?r @ html_str ?d" by simp
        with unquote_rune [OF s(1,2) hd, of "html_str ?d"] unquote_rune [OF s(1,2) hd, of ?d] d
        show ?thesis by simp
      qed
    qed
  qed simp
qed

end
