(* ===== verification/GoJsonValues.thy ===== *)
theory GoJsonValues
  imports GoJsonHtml GoTime
begin

text \<open>
  JSON texts and Go values. Reading: the members of the outermost object with the text each value
  has in the input (a \<open>json.RawMessage\<close> keeps it), and the decoding into \<open>interface{}\<close>. Numbers
  stay the text they were, standing for the nearest \<open>float64\<close>; one that is out of the range of
  \<open>float64\<close> is an error. Writing: maps, with their keys in order.
\<close>

section \<open>A parsed text is well formed\<close>

lemma foldr_max_le: "(\<forall>x \<in> set xs. x \<le> m) \<Longrightarrow> foldr max xs (0 :: nat) \<le> m"
  by (induction xs) auto

lemma scan_number_self: "scan_number s = Some (x, t) \<Longrightarrow> scan_number x = Some (x, [])"
  using scan_number_extends [of s x t "[]"] by (simp add: num_end_def)

lemma scalar_wf: "scalar c r = Some (v, t) \<Longrightarrow> wf_json v \<and> depth v = 0"
  using scan_string_wf scan_number_self
  by (fastforce simp: scalar_def scan_literal_def find_Some_iff in_set_conv_nth split: if_splits option.splits)

lemma pvalue_wf:
  "pvalue n d s = Some (v, t) \<Longrightarrow> wf_json v \<and> depth v \<le> d"
  "pelems n d s = Some (vs, t) \<Longrightarrow> \<forall>v \<in> set vs. wf_json v \<and> depth v \<le> d"
  "pmembers n d s = Some (ms, t) \<Longrightarrow> \<forall>m \<in> set ms. wf_string (fst m) \<and> wf_json (snd m) \<and> depth (snd m) \<le> d"
proof (induction n d s and n d s and n d s arbitrary: v t and vs t and ms t
    rule: pvalue_pelems_pmembers.induct)
  case (2 n d s)
  then obtain c r where s: "skip_ws s = c # r" by (auto split: list.splits)
  consider (arr) vs where "c = CHR ''[''" "d \<noteq> 0" "\<not> (skip_ws r \<noteq> [] \<and> hd (skip_ws r) = CHR '']'')"
      "pelems n (d - 1) r = Some (vs, t)" "v = RArr vs"
    | (obj) ms where "c = CHR ''{''" "d \<noteq> 0" "\<not> (skip_ws r \<noteq> [] \<and> hd (skip_ws r) = CHR ''}'')"
      "pmembers n (d - 1) r = Some (ms, t)" "v = RObj ms"
    | (empty) "d \<noteq> 0" "v = RArr [] \<or> v = RObj []"
    | (scalar) "scalar c r = Some (v, t)"
    using "2.prems" s by (cases "c = CHR ''[''"; cases "c = CHR ''{''") (auto split: if_splits)
  then show ?case
  proof cases
    case arr
    from "2.IH"(1) [OF s arr(1,2,3,4)] have "\<forall>x \<in> set (map depth vs). x \<le> d - 1" "wf_json v"
      using arr(5) by auto
    with foldr_max_le [OF this(1)] arr(2,5) show ?thesis by auto
  next
    case obj
    from "2.IH"(2) [OF s _ obj(1,2,3,4)] obj(1) have ms: "\<forall>m \<in> set ms. wf_string (fst m) \<and> wf_json (snd m) \<and>
      depth (snd m) \<le> d - 1" by simp
    then have "\<forall>x \<in> set (map (depth \<circ> snd) ms). x \<le> d - 1" by auto
    with foldr_max_le [OF this] ms obj(2,5) show ?thesis by auto
  next
    case empty
    then show ?thesis by auto
  next
    case scalar
    with scalar_wf show ?thesis by force
  qed
next
  case (4 n d s)
  then show ?case by (auto split: parser_splits)
next
  case (6 n d s)
  then show ?case using scan_string_wf by (fastforce split: parser_splits)
qed auto

lemma parse_json_wf:
  assumes "parse_json s = Some v"
  shows "wf_json v" and "depth v \<le> max_depth"
  using assms pvalue_wf(1) [of "2 * length s + 1" max_depth s v]
  by (auto simp: parse_json_def split: option.splits if_splits)

section \<open>Compacted texts\<close>

lemma wf_html_str: "wf_string x \<Longrightarrow> wf_string (html_str x)"
proof (induction "length x" arbitrary: x rule: less_induct)
  case less
  from less.prems show ?case
  proof cases
    case (wf_plain y c)
    consider "c \<in> set ''<>&''" | "c \<notin> set ''<>&''" "separator_at c y" | "c \<notin> set ''<>&''" "\<not> separator_at c y"
      by blast
    then show ?thesis
    proof cases
      case 1
      from less.hyps [OF _ wf_plain(2)] show ?thesis
        unfolding wf_plain(1) html_str_cases(1) [OF 1] by (intro wf_u_escape) simp
    next
      case 2
      then obtain a b z where y: "y = a # b # z" "(of_char a :: nat) = 0x80" "(of_char b :: nat) \<in> {0xA8, 0xA9}"
        by (cases y; cases "tl y") (auto simp: byte_at_def split: if_splits)
      have "\<forall>e \<in> set [a, b]. e \<noteq> backslash" using y(2,3) by (auto simp: backslash_def)
      from wf_string_drop [OF this, of z] wf_plain(2) y(1) have z: "wf_string z" by simp
      from less.hyps [OF _ z] show ?thesis
        unfolding wf_plain(1) html_str_cases(2) [OF 2] by (intro wf_u_escape) (simp add: y(1))
    next
      case 3
      from less.hyps [OF _ wf_plain(2)] show ?thesis
        unfolding wf_plain(1) html_str_cases(3) [OF 3] by (intro wf_string.wf_plain wf_plain) simp
    qed
  next
    case (wf_escape y e)
    from less.hyps [OF _ wf_escape(2)] show ?thesis
      unfolding wf_escape(1) html_str_simple [OF wf_escape(3)] by (intro wf_string.wf_escape wf_escape) simp
  next
    case (wf_unicode y h)
    from less.hyps [OF _ wf_unicode(2)] show ?thesis
      unfolding wf_unicode(1) html_str_unicode [OF wf_unicode(4)] by (intro wf_string.wf_unicode wf_unicode) simp
  qed (simp add: wf_Nil)
qed

lemma wf_html_esc: "wf_json v \<Longrightarrow> wf_json (html_esc v)"
  by (induction v rule: html_esc.induct) (auto simp: wf_html_str)

lemma depth_html_esc [simp]: "depth (html_esc v) = depth v"
proof (induction v rule: html_esc.induct)
  case (4 vs)
  then have "map (depth \<circ> html_esc) vs = map depth vs" by simp
  then show ?case by (simp only: html_esc.simps depth.simps map_map)
next
  case (5 ms)
  have "map (depth \<circ> (snd \<circ> (\<lambda>(k, v). (html_str k, html_esc v)))) ms = map (depth \<circ> snd) ms"
    using 5 by (auto simp: map_eq_conv)
  then show ?case by (simp only: html_esc.simps depth.simps map_map comp_assoc)
qed simp_all

lemma Compact_render:
  assumes "wf_json v" and "depth v \<le> max_depth"
  shows "Compact (render v) = Some (render (html_esc v))"
  by (simp add: Compact_def parse_render [OF assms])

section \<open>The outermost object\<close>

text \<open>The fuel \<open>n\<close> bounds the number of members, which the length of the text does too. Each
  member comes with its value and the text of that value.\<close>

fun raw_members :: "nat \<Rightarrow> nat \<Rightarrow> string \<Rightarrow> (string \<times> rjson \<times> string) list option" where
  "raw_members 0 d s = None"
| "raw_members (Suc n) d s =
     (case skip_ws s of
        [] \<Rightarrow> None
      | q # s1 \<Rightarrow>
          if q \<noteq> quote_char then None
          else
           (case scan_string s1 of
              None \<Rightarrow> None
            | Some (k, s2) \<Rightarrow>
                (case skip_ws s2 of
                   [] \<Rightarrow> None
                 | c # s3 \<Rightarrow>
                     if c \<noteq> CHR '':'' then None
                     else
                      (case pvalue (2 * length s3 + 1) d s3 of
                         None \<Rightarrow> None
                       | Some (v, r) \<Rightarrow>
                           (let m = (k, v, take (length (skip_ws s3) - length r) (skip_ws s3)) in
                            case skip_ws r of
                              [] \<Rightarrow> None
                            | c # r' \<Rightarrow>
                                if c = CHR '','' then map_option (\<lambda>ms. m # ms) (raw_members n d r')
                                else if c = CHR ''}'' then Some [m]
                                else None)))))"

definition raw_object :: "string \<Rightarrow> (string \<times> rjson \<times> string) list option" where
  "raw_object s =
     (case skip_ws s of
        [] \<Rightarrow> None
      | c # r \<Rightarrow>
          if c \<noteq> CHR ''{'' then None
          else if skip_ws r \<noteq> [] \<and> hd (skip_ws r) = CHR ''}'' then Some []
          else raw_members (length s) (max_depth - 1) r)"

lemma pvalue_render_fuel:
  assumes "wf_json v" and "depth v \<le> d" and "val_end rest"
  shows "pvalue (2 * length (render v @ rest) + 1) d (render v @ rest) = Some (v, rest)"
proof -
  from pvalue_render(1) [OF assms] obtain n where "pvalue n d (render v @ rest) = Some (v, rest)" ..
  then show ?thesis by (rule enoughD [OF fuel_enough(1)]) simp
qed

lemma render_not_ws: "wf_json v \<Longrightarrow> skip_ws (render v @ rest) = render v @ rest"
  using render_head [of v] skip_ws_Cons by fastforce

lemma raw_member:
  assumes "wf_string k" and "wf_json v" and "depth v \<le> d" and "c = CHR '','' \<or> c = CHR ''}''"
  shows "raw_members (Suc n) d (quote_char # k @ quote_char # CHR '':'' # render v @ c # s) =
    (if c = CHR ''}'' then Some [(k, v, render v)]
     else map_option (\<lambda>ms. (k, v, render v) # ms) (raw_members n d s))"
proof -
  have "val_end (c # s)" using assms(4) by auto
  from pvalue_render_fuel [OF assms(2,3) this] have
    "pvalue (2 * length (render v @ c # s) + 1) d (render v @ c # s) = Some (v, c # s)" .
  with assms(4) wf_string_scan [OF assms(1), of "CHR '':'' # render v @ c # s"] render_not_ws [OF assms(2)]
  show ?thesis by (auto simp: skip_ws_Cons simp del: pvalue.simps)
qed

lemma raw_members_render:
  "ms \<noteq> [] \<Longrightarrow> \<forall>m \<in> set ms. wf_string (fst m) \<and> wf_json (snd m) \<and> depth (snd m) \<le> d \<Longrightarrow> length ms \<le> n \<Longrightarrow>
   raw_members n d (render_members ms @ CHR ''}'' # rest) = Some (map (\<lambda>(k, v). (k, v, render v)) ms)"
proof (induction ms arbitrary: n)
  case (Cons m ms)
  obtain k v where m: "m = (k, v)" by (cases m)
  obtain n' where n: "n = Suc n'" using Cons.prems(3) by (cases n) auto
  note kv = raw_member [of k v d _ n']
  show ?case
  proof (cases "ms = []")
    case True
    with kv [of "CHR ''}''" rest] Cons.prems(2) show ?thesis by (simp add: m n del: raw_members.simps)
  next
    case False
    with kv [of "CHR '',''" "render_members ms @ CHR ''}'' # rest"] Cons.prems(2,3) Cons.IH [OF False, of n']
    show ?thesis by (simp add: m n del: raw_members.simps)
  qed
qed simp

lemma render_members_length: "length ms \<le> length (render_members ms)"
  by (induction ms rule: list.induct) (auto split: prod.splits if_splits)

lemma raw_object_render:
  assumes "wf_json (RObj ms)" and "depth (RObj ms) \<le> max_depth" and "ms \<noteq> []"
  shows "raw_object (render (RObj ms)) = Some (map (\<lambda>(k, v). (k, v, render v)) ms)"
proof -
  obtain k v ms' where ms: "ms = (k, v) # ms'" using assms(3) by (cases ms) auto
  have "\<forall>m \<in> set ms. wf_string (fst m) \<and> wf_json (snd m) \<and> depth (snd m) \<le> max_depth - 1"
    using assms(1,2) depth_elem(2) [of _ ms] by fastforce
  from raw_members_render [OF assms(3) this, of "length (render (RObj ms))" "[]"] render_members_length [of ms]
  show ?thesis by (simp add: raw_object_def skip_ws_Cons ms del: raw_members.simps)
qed

section \<open>Decoding into interface values\<close>

text \<open>What a document in memory or in the database holds. Only the database has dates, in milliseconds
  since the epoch, and object ids.\<close>

datatype doc_value =
    DNull
  | DBool bool
  | DNum string
  | DInt32 "32 word"
  | DStr string
  | DArr "doc_value list"
  | DMap "string \<Rightarrow> doc_value option"
  | DTime time
  | DDate int
  | DObjectID string

type_synonym document = "string \<Rightarrow> doc_value option"

text \<open>\<open>strconv.ParseFloat\<close> reports a number out of range when it rounds to infinity, that is from
  \<open>2 ^ 1024 - 2 ^ 970\<close> on.\<close>

definition number_parts :: "string \<Rightarrow> nat \<times> int" where
  "number_parts s =
     (let s0 = (if s \<noteq> [] \<and> hd s = CHR ''-'' then tl s else s);
          ip = takeWhile is_digit s0; s1 = dropWhile is_digit s0;
          fp = (if s1 \<noteq> [] \<and> hd s1 = CHR ''.'' then takeWhile is_digit (tl s1) else []);
          s2 = (if s1 \<noteq> [] \<and> hd s1 = CHR ''.'' then dropWhile is_digit (tl s1) else s1);
          e = (case s2 of
                 [] \<Rightarrow> 0
               | _ # x \<Rightarrow>
                   (case exp_sign x of
                      (sg, ds) \<Rightarrow> if sg = ''-'' then - int (digits_nat ds) else int (digits_nat ds)))
      in (digits_nat (ip @ fp), e - int (length fp)))"

definition float_overflows :: "string \<Rightarrow> bool" where
  "float_overflows s =
     (case number_parts s of
        (m, e) \<Rightarrow>
          if 0 \<le> e then 2 ^ 1024 - 2 ^ 970 \<le> int m * 10 ^ nat e
          else (2 ^ 1024 - 2 ^ 970) * 10 ^ nat (- e) \<le> int m)"

text \<open>\<open>None\<close>: some number is out of range. A later member replaces an earlier one of the same
  name.\<close>

fun decode :: "rjson \<Rightarrow> doc_value option"
  and decode_elems :: "rjson list \<Rightarrow> doc_value list option"
  and decode_members :: "(string \<times> rjson) list \<Rightarrow> document option"
  where
  "decode (RLit s) = Some (if s = ''null'' then DNull else DBool (s = ''true''))"
| "decode (RNum s) = (if float_overflows s then None else Some (DNum s))"
| "decode (RStr s) = Some (DStr (unquote s))"
| "decode (RArr vs) = map_option DArr (decode_elems vs)"
| "decode (RObj ms) = map_option DMap (decode_members ms)"
| "decode_elems [] = Some []"
| "decode_elems (v # vs) = do { x \<leftarrow> decode v; xs \<leftarrow> decode_elems vs; Some (x # xs) }"
| "decode_members [] = Some Map.empty"
| "decode_members ((k, v) # ms) =
     do { x \<leftarrow> decode v; m \<leftarrow> decode_members ms; Some ([unquote k \<mapsto> x] ++ m) }"

lemma decode_html_esc:
  "wf_json v \<Longrightarrow> decode (html_esc v) = decode v"
  "\<forall>v \<in> set vs. wf_json v \<Longrightarrow> decode_elems (map html_esc vs) = decode_elems vs"
  "\<forall>m \<in> set ms. wf_string (fst m) \<and> wf_json (snd m) \<Longrightarrow>
     decode_members (map (\<lambda>(k, v). (html_str k, html_esc v)) ms) = decode_members ms"
  by (induction v and vs and ms rule: decode_decode_elems_decode_members.induct) (auto simp: unquote_html_str intro!: Option.bind_cong)

definition json_error :: go_error where
  "json_error = OtherError ''json: invalid input''"

definition json_type_error :: go_error where
  "json_type_error = OtherError ''json: cannot unmarshal value into Go value''"

text \<open>\<open>json.Unmarshal\<close> into a \<open>map[string]interface{}\<close> variable that is nil. \<open>null\<close> leaves it
  nil. On an error what was stored before it is not of interest.\<close>

definition unmarshal_map :: "string \<Rightarrow> go_error + document option" where
  "unmarshal_map s =
     (case parse_json s of
        None \<Rightarrow> Inl json_error
      | Some (RObj ms) \<Rightarrow>
          (case decode_members ms of None \<Rightarrow> Inl json_type_error | Some m \<Rightarrow> Inr (Some m))
      | Some (RLit l) \<Rightarrow> if l = ''null'' then Inr None else Inl json_type_error
      | Some v \<Rightarrow> Inl json_type_error)"

text \<open>Compacting a text does not change what it is decoded to.\<close>

lemma unmarshal_map_Compact:
  assumes "Compact s = Some t"
  shows "unmarshal_map t = unmarshal_map s"
proof -
  from assms obtain v where v: "parse_json s = Some v" "t = render (html_esc v)"
    by (auto simp: Compact_def)
  from parse_json_wf [OF v(1)] have wf: "wf_json v" "depth v \<le> max_depth" .
  then have "parse_json t = Some (html_esc v)"
    unfolding v(2) by (intro parse_render) (simp_all add: wf_html_esc)
  with v(1) wf(1) decode_html_esc(3) show ?thesis
    by (cases v) (auto simp: unmarshal_map_def)
qed

lemma Compact_idem:
  assumes "Compact s = Some t"
  shows "Compact t = Some t"
proof -
  from assms obtain v where v: "parse_json s = Some v" "t = render (html_esc v)"
    by (auto simp: Compact_def)
  from parse_json_wf [OF v(1)] Compact_render [of "html_esc v"] show ?thesis
    by (simp add: v(2) wf_html_esc html_esc_idem)
qed

section \<open>Writing maps\<close>

text \<open>A Go map is an association list with distinct keys; the encoder sorts the keys by their
  bytes.\<close>

definition map_tree :: "('a \<Rightarrow> rjson) \<Rightarrow> (string \<times> 'a) list \<Rightarrow> rjson" where
  "map_tree f m = RObj (map (\<lambda>(k, x). (esc k, f x)) (sort_key fst m))"

lemma sort_key_set_eq:
  fixes m :: "(string \<times> 'a) list"
  assumes "distinct (map fst m)" and "distinct (map fst m')" and "set m = set m'"
  shows "sort_key fst m = sort_key fst m'"
proof -
  have k: "sorted (map fst (sort_key fst l))" "distinct (map fst (sort_key fst l))"
    if "distinct (map fst l)" for l :: "(string \<times> 'a) list"
    using that by (simp_all add: distinct_map)
  have "inj_on fst (set (sort_key fst m) \<union> set (sort_key fst m'))"
    using assms by (simp add: distinct_map)
  from map_sorted_distinct_set_unique [OF this k [OF assms(1)] k [OF assms(2)]] assms(3) show ?thesis by simp
qed

lemma map_tree_set_eq:
  assumes "distinct (map fst m)" and "distinct (map fst m')" and "map_of m = map_of m'"
  shows "map_tree f m = map_tree f m'"
proof -
  have "set m = set m'" using map_of_inject_set [OF assms(1,2)] assms(3) by simp
  with sort_key_set_eq [OF assms(1,2)] show ?thesis by (simp add: map_tree_def)
qed

end
