(* ===== verification/Transformers.thy ===== *)
theory Transformers
  imports CsvReader GoJsonValues
begin

text \<open>
  \<open>internal/producer/transformers.go\<close>: from a row of the file to the payload of a message. A payload
  is a Go map with values of type \<open>interface{}\<close>, of which the code uses two; maps are association
  lists with distinct keys, and a loop over a map visits them in the order of the list. The current
  time, in UTC, is an argument.
\<close>

section \<open>Labels\<close>

type_synonym labels = "(string \<times> string) list"

text \<open>The first loop of \<open>ParseLabels\<close>, over the runes: the parts between commas outside quotes.\<close>

fun label_parts :: "string list \<Rightarrow> string list \<Rightarrow> string \<Rightarrow> bool \<Rightarrow> bool \<Rightarrow> string list" where
  "label_parts [] parts current inQuotes escaped = (if 0 < length current then parts @ [current] else parts)"
| "label_parts (ch # rs) parts current inQuotes escaped =
     (if escaped then label_parts rs parts (current @ ch) inQuotes False
      else if ch = [CHR 0x5C] then label_parts rs parts (current @ ch) inQuotes True
      else if ch = [CHR 0x22] then label_parts rs parts (current @ ch) (\<not> inQuotes) escaped
      else if ch = [CHR '',''] \<and> \<not> inQuotes then label_parts rs (parts @ [current]) [] inQuotes escaped
      else label_parts rs parts (current @ ch) inQuotes escaped)"

text \<open>The second: a part is a key and a value, unless it has no \<open>=\<close>.\<close>

definition strip_quotes :: "string \<Rightarrow> string" where
  "strip_quotes val =
     (if 2 \<le> length val \<and> val ! 0 = CHR 0x22 \<and> val ! (length val - 1) = CHR 0x22
      then take (length val - 2) (drop 1 val) else val)"

definition label_pair :: "string \<Rightarrow> (string \<times> string) option" where
  "label_pair part =
     (case Cut (CHR ''='') (TrimSpace part) of
        None \<Rightarrow> None
      | Some (key, val) \<Rightarrow> Some (TrimSpace key, strip_quotes (TrimSpace val)))"

definition ParseLabels :: "string \<Rightarrow> labels" where
  "ParseLabels raw =
     (if raw = [] then []
      else fold (\<lambda>part labels. case label_pair part of
                                 None \<Rightarrow> labels
                               | Some (key, val) \<Rightarrow> AList.update key val labels)
             (label_parts (runes raw) [] [] False False) [])"

section \<open>Rows\<close>

datatype payload_value = PStr string | PLabels labels

type_synonym payload = "(string \<times> payload_value) list"

record RowTransformer =
  tsColumnIdx :: int
  labelsColumnIdx :: int

definition NewRowTransformer :: "MetricsCSVReader \<Rightarrow> string \<Rightarrow> string \<Rightarrow> RowTransformer" where
  "NewRowTransformer reader tsColumnName labelsColumnName =
     \<lparr>tsColumnIdx = (if tsColumnName \<noteq> [] then FindColumnIndex reader tsColumnName else -1),
      labelsColumnIdx = (if labelsColumnName \<noteq> [] then FindColumnIndex reader labelsColumnName else -1)\<rparr>"

definition getColumnNameByIndex :: "row \<Rightarrow> int \<Rightarrow> string" where
  "getColumnNameByIndex row idx = []"

definition TransformRow :: "RowTransformer \<Rightarrow> time \<Rightarrow> row \<Rightarrow> payload" where
  "TransformRow t now row =
     fold (\<lambda>(colName, val) payload.
       if val = [] \<and> colName \<noteq> ''timestamp'' then payload
       else if 0 \<le> tsColumnIdx t \<and> colName = getColumnNameByIndex row (tsColumnIdx t)
         then AList.update colName (PStr (FormatRFC3339Nano now)) payload
       else if 0 \<le> labelsColumnIdx t \<and> colName = getColumnNameByIndex row (labelsColumnIdx t)
         then (if val \<noteq> [] then AList.update colName (PLabels (ParseLabels val)) payload
               else AList.update colName (PLabels []) payload)
       else AList.update colName (PStr val) payload) row []"

definition TransformRowWithRaw :: "time \<Rightarrow> string list \<Rightarrow> string list \<Rightarrow> int \<Rightarrow> int \<Rightarrow> payload" where
  "TransformRowWithRaw now header rec tsIdx labelsIdx =
     fold (\<lambda>(i, col) payload.
       (let val = (if i < length rec then rec ! i else []) in
        if int i = tsIdx then AList.update col (PStr (FormatRFC3339Nano now)) payload
        else if int i = labelsIdx \<and> val \<noteq> [] then AList.update col (PLabels (ParseLabels val)) payload
        else if val \<noteq> [] then AList.update col (PStr val) payload
        else payload)) (enumerate 0 header) []"

text \<open>\<open>json.Marshal\<close> of a payload, which has no value the encoder refuses.\<close>

fun value_tree :: "payload_value \<Rightarrow> rjson" where
  "value_tree (PStr s) = json_string s"
| "value_tree (PLabels m) = map_tree json_string m"

definition Marshal_payload :: "payload \<Rightarrow> go_error + string" where
  "Marshal_payload p = Inr (render (map_tree value_tree p))"

section \<open>The transformed row\<close>

text \<open>What a cell becomes, \<open>None\<close> if it is left out.\<close>

definition transform_cell :: "RowTransformer \<Rightarrow> time \<Rightarrow> string \<Rightarrow> string \<Rightarrow> payload_value option" where
  "transform_cell t now colName val =
     (if val = [] \<and> colName \<noteq> ''timestamp'' then None
      else if 0 \<le> tsColumnIdx t \<and> colName = [] then Some (PStr (FormatRFC3339Nano now))
      else if 0 \<le> labelsColumnIdx t \<and> colName = [] then Some (PLabels (ParseLabels val))
      else Some (PStr val))"

lemma TransformRow_cells:
  "TransformRow t now row =
     fold (\<lambda>(col, val) p. case transform_cell t now col val of None \<Rightarrow> p | Some v \<Rightarrow> AList.update col v p) row []"
  by (auto simp: TransformRow_def transform_cell_def getColumnNameByIndex_def ParseLabels_def intro!: fold_cong)

lemma fold_cells_distinct:
  "distinct (map fst p) \<Longrightarrow>
   distinct (map fst (fold (\<lambda>(k, x) p. case f k x of None \<Rightarrow> p | Some v \<Rightarrow> AList.update k v p) row p))"
  by (induction row arbitrary: p) (auto simp: distinct_update split: option.splits)

lemma TransformRow_distinct: "distinct (map fst (TransformRow t now row))"
  unfolding TransformRow_cells by (rule fold_cells_distinct) simp

lemma fold_cells_map_of:
  "distinct (map fst row) \<Longrightarrow>
   map_of (fold (\<lambda>(k, x) p. case f k x of None \<Rightarrow> p | Some v \<Rightarrow> AList.update k v p) row p) =
   map_of p ++ (\<lambda>k. Option.bind (map_of row k) (f k))"
proof (induction row arbitrary: p)
  case (Cons c row)
  obtain k x where c: "c = (k, x)" by (cases c)
  with Cons.prems have k: "map_of row k = None" "distinct (map fst row)"
    by (simp_all add: map_of_eq_None_iff)
  show ?case
    by (rule ext) (use k Cons.IH [OF k(2)] in \<open>auto simp: c update_conv' map_add_def split: option.splits\<close>)
qed (simp add: map_add_def)

lemma TransformRow_map_of:
  "distinct (map fst row) \<Longrightarrow>
   map_of (TransformRow t now row) = (\<lambda>k. Option.bind (map_of row k) (transform_cell t now k))"
  by (simp add: TransformRow_cells fold_cells_map_of)

lemma TransformRowWithRaw_snoc:
  "TransformRowWithRaw now (header @ [col]) rec ti li =
     (let payload = TransformRowWithRaw now header rec ti li; i = length header;
          val = (if i < length rec then rec ! i else []) in
      if int i = ti then AList.update col (PStr (FormatRFC3339Nano now)) payload
      else if int i = li \<and> val \<noteq> [] then AList.update col (PLabels (ParseLabels val)) payload
      else if val \<noteq> [] then AList.update col (PStr val) payload
      else payload)"
  by (simp add: TransformRowWithRaw_def enumerate_append_eq Let_def)

lemma TransformRowWithRaw_timestamp:
  assumes "distinct header" and "i < length header"
  shows "map_of (TransformRowWithRaw now header rec (int i) li) (header ! i) = Some (PStr (FormatRFC3339Nano now))"
  using assms
proof (induction header rule: rev_induct)
  case (snoc col header)
  then show ?case
    by (auto simp: TransformRowWithRaw_snoc update_conv' nth_append nth_eq_iff_index_eq Let_def less_Suc_eq)
qed simp

end
