(* ===== verification/Message.thy ===== *)
theory Message
  imports GoJsonValues Protocol
begin

text \<open>
  \<open>internal/message/message.go\<close>: the message a producer sends, its JSON text and the reading of
  that text. The random bytes of \<open>newID\<close> and the current time are arguments. \<open>Marshal_Message\<close> and
  \<open>Unmarshal_Message\<close> are \<open>json.Marshal\<close> and \<open>json.Unmarshal\<close> on a message, which call the two
  methods.
\<close>

section \<open>Messages\<close>

record Message =
  msg_ID :: string
  msg_Type :: string
  msg_Payload :: "string option"
  msg_Timestamp :: time
  msg_Source :: string

definition zero_message :: Message where
  "zero_message =
     \<lparr>msg_ID = [], msg_Type = [], msg_Payload = None, msg_Timestamp = zero_time, msg_Source = []\<rparr>"

definition newID :: "bytes \<Rightarrow> string" where
  "newID b = concat (map (\<lambda>x. [hexdigit (unat x div 16), hexdigit (unat x mod 16)]) b)"

definition New :: "bytes \<Rightarrow> time \<Rightarrow> string \<Rightarrow> string option \<Rightarrow> string \<Rightarrow> Message" where
  "New rand now typ payload source =
     \<lparr>msg_ID = newID rand, msg_Type = typ, msg_Payload = payload, msg_Timestamp = now, msg_Source = source\<rparr>"

section \<open>Writing\<close>

text \<open>The fields in the order of the encoder: those of the embedded struct without its timestamp,
  which the outer one hides, then the outer timestamp. A nil payload is written as \<open>null\<close>.\<close>

definition payload_tree :: "string option \<Rightarrow> rjson option" where
  "payload_tree p = (case p of None \<Rightarrow> Some (RLit ''null'') | Some s \<Rightarrow> parse_json s)"

definition message_tree :: "Message \<Rightarrow> rjson \<Rightarrow> rjson" where
  "message_tree m v =
     RObj ([(''id'', json_string (msg_ID m)), (''type'', json_string (msg_Type m)), (''payload'', html_esc v)] @
           (if msg_Source m = [] then [] else [(''source'', json_string (msg_Source m))]) @
           [(''timestamp'', json_string (FormatRFC3339Nano (msg_Timestamp m)))])"

definition MarshalJSON :: "Message \<Rightarrow> go_error + string" where
  "MarshalJSON m =
     (case payload_tree (msg_Payload m) of
        None \<Rightarrow> Inl json_error
      | Some v \<Rightarrow> Inr (render (message_tree m v)))"

definition Marshal_Message :: "Message \<Rightarrow> go_error + string" where
  "Marshal_Message m =
     (case MarshalJSON m of
        Inl e \<Rightarrow> Inl e
      | Inr s \<Rightarrow> (case Compact s of None \<Rightarrow> Inl json_error | Some t \<Rightarrow> Inr t))"

section \<open>Reading\<close>

text \<open>A value for a \<open>string\<close> variable: \<open>null\<close> leaves it as it is, another kind of value does too and
  is an error.\<close>

fun string_value :: "rjson \<Rightarrow> string \<Rightarrow> go_error option \<times> string" where
  "string_value (RStr s) old = (None, unquote s)"
| "string_value (RLit l) old = (if l = ''null'' then None else Some json_type_error, old)"
| "string_value v old = (Some json_type_error, old)"

definition save_error :: "go_error option \<Rightarrow> go_error option \<Rightarrow> go_error option" where
  "save_error err e = (if err = None then e else err)"

text \<open>One member: a field is found by its name, letter case ignored. The first error is kept and the
  members after it are still read. The timestamp goes to the string of the outer struct.\<close>

type_synonym decode_state = "go_error option \<times> Message \<times> string"

definition set_member :: "string \<times> rjson \<times> string \<Rightarrow> decode_state \<Rightarrow> decode_state" where
  "set_member mem st =
     (case mem of (k, v, raw) \<Rightarrow>
      case st of (err, m, ts) \<Rightarrow>
        (let name = unquote k in
         if EqualFold name ''id'' then
           (case string_value v (msg_ID m) of (e, s) \<Rightarrow> (save_error err e, m\<lparr>msg_ID := s\<rparr>, ts))
         else if EqualFold name ''type'' then
           (case string_value v (msg_Type m) of (e, s) \<Rightarrow> (save_error err e, m\<lparr>msg_Type := s\<rparr>, ts))
         else if EqualFold name ''payload'' then (err, m\<lparr>msg_Payload := Some raw\<rparr>, ts)
         else if EqualFold name ''source'' then
           (case string_value v (msg_Source m) of (e, s) \<Rightarrow> (save_error err e, m\<lparr>msg_Source := s\<rparr>, ts))
         else if EqualFold name ''timestamp'' then
           (case string_value v ts of (e, s) \<Rightarrow> (save_error err e, m, s))
         else st))"

definition UnmarshalJSON :: "string \<Rightarrow> Message \<Rightarrow> go_error option \<times> Message" where
  "UnmarshalJSON data m =
     (case parse_json data of
        None \<Rightarrow> (Some json_error, m)
      | Some v \<Rightarrow>
          (case (case v of
                   RObj _ \<Rightarrow>
                     (case raw_object data of
                        None \<Rightarrow> (Some json_error, m, [])
                      | Some ms \<Rightarrow> fold set_member ms (None, m, []))
                 | RLit l \<Rightarrow> (if l = ''null'' then None else Some json_type_error, m, [])
                 | _ \<Rightarrow> (Some json_type_error, m, [])) of
             (Some err, m', ts) \<Rightarrow> (Some err, m')
           | (None, m', ts) \<Rightarrow>
               if ts \<noteq> []
               then (None, m'\<lparr>msg_Timestamp :=
                       (case ParseRFC3339Nano ts of Some t \<Rightarrow> t | None \<Rightarrow> zero_time)\<rparr>)
               else (None, m')))"

text \<open>The decoder hands the text of the value, without white space around it, to the method.\<close>

definition value_text :: "string \<Rightarrow> string" where
  "value_text s =
     (case pvalue (2 * length s + 1) max_depth s of
        None \<Rightarrow> []
      | Some (v, r) \<Rightarrow> take (length (skip_ws s) - length r) (skip_ws s))"

definition Unmarshal_Message :: "string \<Rightarrow> Message \<Rightarrow> go_error option \<times> Message" where
  "Unmarshal_Message data m =
     (case parse_json data of
        None \<Rightarrow> (Some json_error, m)
      | Some v \<Rightarrow> UnmarshalJSON (value_text data) m)"

section \<open>Well-formed messages\<close>

text \<open>Valid UTF-8 in the strings, a payload that is JSON nested less deep than the limit, and a
  timestamp of the years 0 to 9999.\<close>

definition message_ok :: "Message \<Rightarrow> bool" where
  "message_ok m \<longleftrightarrow> valid_utf8 (msg_ID m) \<and> valid_utf8 (msg_Type m) \<and> valid_utf8 (msg_Source m) \<and>
     time_wf (msg_Timestamp m) \<and>
     (case payload_tree (msg_Payload m) of None \<Rightarrow> False | Some v \<Rightarrow> depth v < max_depth)"

lemma payload_tree_wf: "payload_tree p = Some v \<Longrightarrow> wf_json v"
  using parse_json_wf(1) by (auto simp: payload_tree_def literals_def split: option.splits)

lemma wf_ascii_name: "\<forall>c \<in> set s. c \<noteq> quote_char \<and> c \<noteq> backslash \<and> \<not> (of_char c :: nat) < 32 \<Longrightarrow> wf_string s"
  by (induction s) (auto intro: wf_Nil wf_plain)

lemma field_names [simp]:
  "wf_string ''id''" "wf_string ''type''" "wf_string ''payload''" "wf_string ''source''" "wf_string ''timestamp''"
  by (rule wf_ascii_name, simp add: quote_char_def backslash_def)+

lemma field_name_values [simp]:
  "unquote ''id'' = ''id''" "unquote ''type'' = ''type''" "unquote ''payload'' = ''payload''"
  "unquote ''source'' = ''source''" "unquote ''timestamp'' = ''timestamp''"
  by (simp_all add: unquote_ascii backslash_def)

lemma depth_message_tree: "depth (message_tree m v) = Suc (depth v)"
  by (simp add: message_tree_def json_string_def)

lemma wf_message_tree: "wf_json v \<Longrightarrow> wf_json (message_tree m v)"
  by (auto simp: message_tree_def json_string_def wf_esc wf_html_esc)

lemma html_field_names [simp]:
  "html_str ''id'' = ''id''" "html_str ''type'' = ''type''" "html_str ''payload'' = ''payload''"
  "html_str ''source'' = ''source''" "html_str ''timestamp'' = ''timestamp''"
  by simp_all

lemma html_esc_message_tree: "html_esc (message_tree m v) = message_tree m v"
  by (simp add: message_tree_def json_string_def html_str_esc html_esc_idem)

lemma Marshal_ok:
  assumes "message_ok m"
  shows "\<exists>v. payload_tree (msg_Payload m) = Some v \<and> wf_json v \<and> depth v < max_depth \<and>
    Marshal_Message m = Inr (render (message_tree m v))"
proof -
  from assms obtain v where v: "payload_tree (msg_Payload m) = Some v" "depth v < max_depth"
    by (auto simp: message_ok_def split: option.splits)
  from payload_tree_wf [OF v(1)] have wf: "wf_json v" .
  with v(2) have "Compact (render (message_tree m v)) = Some (render (message_tree m v))"
    by (simp add: Compact_render wf_message_tree depth_message_tree html_esc_message_tree)
  with v wf show ?thesis by (auto simp: Marshal_Message_def MarshalJSON_def)
qed

lemma value_text_render:
  assumes "wf_json v" and "depth v \<le> max_depth"
  shows "value_text (render v) = render v"
  using pvalue_render_fuel [OF assms, of "[]"] render_not_ws [OF assms(1), of "[]"]
  by (simp add: value_text_def del: pvalue.simps)

lemma ascii_time: "c \<in> set (FormatRFC3339Nano t) \<Longrightarrow> (of_char c :: nat) < 0x80"
proof -
  assume c: "c \<in> set (FormatRFC3339Nano t)"
  have d: "is_digit x \<Longrightarrow> (of_char x :: nat) < 0x80" for x by (simp add: is_digit_def)
  have w: "x \<in> set (digits k n) \<Longrightarrow> (of_char x :: nat) < 0x80" for x k n
    using d is_digit_digits by blast
  have s: "x \<in> set (strip_zeros y) \<Longrightarrow> x \<in> set y" for x y
    by (auto simp: strip_zeros_def dest: set_dropWhileD)
  have n: "x \<in> set (format_nano k) \<Longrightarrow> (of_char x :: nat) < 0x80" for x k
    using w s by (fastforce simp: format_nano_def Let_def split: if_splits)
  have z: "x \<in> set (format_zone k) \<Longrightarrow> (of_char x :: nat) < 0x80" for x k
    using w by (fastforce simp: format_zone_def Let_def split: if_splits)
  have y: "x \<in> set (appendInt k j) \<Longrightarrow> (of_char x :: nat) < 0x80" for x k j
    using w by (fastforce simp: appendInt_def Let_def split: if_splits)
  from c show ?thesis
    using w n z y by (fastforce simp: FormatRFC3339Nano_def)
qed

lemma time_text: "unquote (esc (FormatRFC3339Nano t)) = FormatRFC3339Nano t"
  by (intro unquote_esc_valid valid_utf8_ascii) (simp add: ascii_time)

lemma field_match [simp]:
  "EqualFold ''id'' ''id''" "EqualFold ''type'' ''type''" "EqualFold ''payload'' ''payload''"
  "EqualFold ''source'' ''source''" "EqualFold ''timestamp'' ''timestamp''"
  "\<not> EqualFold ''type'' ''id''"
  "\<not> EqualFold ''payload'' ''id''" "\<not> EqualFold ''payload'' ''type''"
  "\<not> EqualFold ''source'' ''id''" "\<not> EqualFold ''source'' ''type''" "\<not> EqualFold ''source'' ''payload''"
  "\<not> EqualFold ''timestamp'' ''id''" "\<not> EqualFold ''timestamp'' ''type''"
  "\<not> EqualFold ''timestamp'' ''payload''" "\<not> EqualFold ''timestamp'' ''source''"
  by (simp_all add: EqualFold_def ascii_lower_def)

lemma Unmarshal_tree:
  assumes "valid_utf8 (msg_ID m)" and "valid_utf8 (msg_Type m)" and "valid_utf8 (msg_Source m)"
    and "time_wf (msg_Timestamp m)" and "wf_json v" and "depth v < max_depth"
  shows "Unmarshal_Message (render (message_tree m v)) m0 =
    (None, m\<lparr>msg_Payload := Some (render (html_esc v)),
             msg_Source := (if msg_Source m = [] then msg_Source m0 else msg_Source m)\<rparr>)"
proof -
  have wf: "wf_json (message_tree m v)" "depth (message_tree m v) \<le> max_depth"
    using assms(5,6) by (simp_all add: wf_message_tree depth_message_tree)
  obtain ms where ms: "message_tree m v = RObj ms" "ms \<noteq> []" by (simp add: message_tree_def)
  have raw: "raw_object (render (message_tree m v)) = Some (map (\<lambda>(k, v). (k, v, render v)) ms)"
    using raw_object_render [of ms] wf ms by simp
  have ms': "ms = [(''id'', json_string (msg_ID m)), (''type'', json_string (msg_Type m)), (''payload'', html_esc v)] @
           (if msg_Source m = [] then [] else [(''source'', json_string (msg_Source m))]) @
           [(''timestamp'', json_string (FormatRFC3339Nano (msg_Timestamp m)))]"
    using ms(1) by (simp add: message_tree_def)
  have "fold set_member (map (\<lambda>(k, v). (k, v, render v)) ms) (None, m0, []) =
    (None, m0\<lparr>msg_ID := msg_ID m, msg_Type := msg_Type m, msg_Payload := Some (render (html_esc v)),
       msg_Source := (if msg_Source m = [] then msg_Source m0 else msg_Source m)\<rparr>,
     FormatRFC3339Nano (msg_Timestamp m))"
    using assms(1-3) unfolding ms'
    by (simp add: set_member_def json_string_def save_error_def unquote_esc_valid time_text Let_def)
  moreover have "parse_json (render (message_tree m v)) = Some (RObj ms)"
    using parse_render [OF wf] ms(1) by simp
  ultimately show ?thesis
    using raw Format_not_Nil [of "msg_Timestamp m"] Parse_Format [OF assms(4)]
    unfolding Unmarshal_Message_def value_text_render [OF wf] UnmarshalJSON_def by simp
qed

lemma zero_message_simps [simp]: "msg_Source zero_message = []"
  by (simp add: zero_message_def)

text \<open>C23: A well-formed message is written and read back: reading its JSON text into a fresh message
  gives the same id, type, source and timestamp (to the nanosecond, in its zone), and a payload that
  is the compacted form of the one that was sent and decodes to the same value.\<close>

theorem message_roundtrip:
  assumes "message_ok m" and "msg_Payload m = Some p"
  shows "\<exists>s p'. Marshal_Message m = Inr s \<and> Compact p = Some p' \<and> unmarshal_map p' = unmarshal_map p \<and>
    Unmarshal_Message s zero_message = (None, m\<lparr>msg_Payload := Some p'\<rparr>)"
proof -
  from Marshal_ok [OF assms(1)] obtain v where
    v: "payload_tree (msg_Payload m) = Some v" "wf_json v" "depth v < max_depth"
      "Marshal_Message m = Inr (render (message_tree m v))" by blast
  from v(1) assms(2) have p: "Compact p = Some (render (html_esc v))"
    by (simp add: payload_tree_def Compact_def)
  have "Unmarshal_Message (render (message_tree m v)) zero_message =
      (None, m\<lparr>msg_Payload := Some (render (html_esc v))\<rparr>)"
    using Unmarshal_tree [of m v zero_message] assms(1) v(2,3) by (simp add: message_ok_def)
  with v(4) p unmarshal_map_Compact [OF p] show ?thesis by blast
qed

definition example_message :: Message where
  "example_message =
     \<lparr>msg_ID = ''0a'', msg_Type = ''metric'', msg_Payload = Some ''[1, {}]'', msg_Timestamp = zero_time,
      msg_Source = ''csv-producer''\<rparr>"

lemma example_payload: "parse_json ''[1, {}]'' = Some (RArr [RNum ''1'', RObj []])"
proof -
  have "max_depth \<noteq> 0" "max_depth - Suc 0 \<noteq> 0" by (simp_all add: max_depth_def)
  then show ?thesis
    by (simp add: parse_json_def skip_ws_def is_ws_def eval_nat_numeral scalar_def quote_char_def
        is_digit_def scan_number_def scan_sign_def scan_int_def scan_frac_def scan_exp_def)
qed

lemma example_ok: "message_ok example_message"
  by (simp add: message_ok_def example_message_def payload_tree_def example_payload valid_utf8_ascii
      max_depth_def time_wf_def zero_time_def daysIn_def)

theorem message_roundtrip_witness:
  "\<exists>s p'. Marshal_Message example_message = Inr s \<and> Compact ''[1, {}]'' = Some p' \<and>
    Unmarshal_Message s zero_message = (None, example_message\<lparr>msg_Payload := Some p'\<rparr>)"
proof -
  have "msg_Payload example_message = Some ''[1, {}]''" by (simp add: example_message_def)
  from message_roundtrip [OF example_ok this] show ?thesis by blast
qed

end
