(* ===== verification/Producer.thy ===== *)
theory Producer
  imports Transformers Message
begin

text \<open>
  \<open>internal/producer/producer.go\<close> and \<open>cmd/producer/main.go\<close>: the rows of a CSV file, each sent to
  the broker as a message in a frame of its own. Opening the file, dialling, the clock and the
  random bytes of the ids are arguments; logging and the pause after each row are left out.
\<close>

section \<open>The producer\<close>

text \<open>A connection is its outgoing stream and what closing it returns.\<close>

record net_conn =
  nc_out :: outstream
  nc_close :: "go_error option"

record Producer =
  p_conn :: "net_conn option"

definition NewProducer :: "net_conn option \<Rightarrow> Producer" where
  "NewProducer conn = \<lparr>p_conn = conn\<rparr>"

text \<open>A call on the connection: a nil connection panics.\<close>

definition on_conn ::
    "(outstream \<Rightarrow> go_error option \<times> outstream) \<Rightarrow> Producer \<Rightarrow> (go_error option \<times> Producer) go" where
  "on_conn f p =
     (case p_conn p of
        None \<Rightarrow> Inl NilDereference
      | Some cn \<Rightarrow> (case f (nc_out cn) of (err, w) \<Rightarrow> Inr (err, p\<lparr>p_conn := Some (cn\<lparr>nc_out := w\<rparr>)\<rparr>)))"

definition role_producer_line :: string where
  "role_producer_line = ''PRODUCER'' @ [CHR 0x0A]"

definition Start :: "Producer \<Rightarrow> (go_error option \<times> Producer) go" where
  "Start p =
     bind_go (on_conn (Write (bytes_of_string role_producer_line)) p) (\<lambda>(err, p').
       case err of
         Some e \<Rightarrow> Inr (Some (Errorf_v ''failed to identify as producer'' e), p')
       | None \<Rightarrow> Inr (None, p'))"

definition Stream :: "Message \<Rightarrow> Producer \<Rightarrow> (go_error option \<times> Producer) go" where
  "Stream msg p =
     (case Marshal_Message msg of
        Inl err \<Rightarrow> Inr (Some (Wrapf ''failed to marshal message'' err), p)
      | Inr body \<Rightarrow>
          bind_go (on_conn (WriteFrame (bytes_of_string body)) p) (\<lambda>(err, p').
            case err of
              Some e \<Rightarrow> Inr (Some (Wrapf ''failed to write message to broker'' e), p')
            | None \<Rightarrow> Inr (None, p')))"

section \<open>Streaming a file\<close>

text \<open>\<open>clock k\<close> and \<open>rand k\<close>: the times at which the \<open>k\<close>-th row is transformed and its message made,
  and the random bytes of its id.\<close>

function stream_rows ::
    "RowTransformer \<Rightarrow> (nat \<Rightarrow> time \<times> time) \<Rightarrow> (nat \<Rightarrow> bytes) \<Rightarrow> nat \<Rightarrow> MetricsCSVReader \<Rightarrow> int64 \<Rightarrow> Producer \<Rightarrow>
     ((int64 \<times> go_error option) \<times> Producer) go" where
  "stream_rows t clock rand k rd rowCount p =
     (if \<not> HasNextRow rd then Inr ((rowCount, None), p)
      else
       (case GetNextRow rd of
          (Inl err, rd') \<Rightarrow>
            if error_text err = ''EOF'' then Inr ((rowCount, None), p)
            else Inr ((rowCount, Some (Errorf_v ''failed to read row'' err)), p)
        | (Inr row, rd') \<Rightarrow>
            (case Marshal_payload (TransformRow t (fst (clock k)) row) of
               Inl err \<Rightarrow> stream_rows t clock rand (Suc k) rd' rowCount p
             | Inr body \<Rightarrow>
                 bind_go (Stream (New (rand k) (snd (clock k)) ''metric'' (Some body) ''csv-producer'') p)
                   (\<lambda>(err, p').
                     case err of
                       Some e \<Rightarrow>
                         Inr ((rowCount,
                               Some (Wrapf (''failed to write message at row '' @ itoa (sint (rowCount + 1))) e)), p')
                     | None \<Rightarrow> stream_rows t clock rand (Suc k) rd' (rowCount + 1) p'))))"
  by pat_completeness auto
termination
  by (relation "measure (\<lambda>(t, clock, rand, k, rd, n, p). length (cr_rest (rd_reader rd)))")
     (auto dest: GetNextRow_progress [OF sym])

declare stream_rows.simps [simp del]

definition StreamCSVMetrics ::
    "(string \<Rightarrow> go_error + os_file) \<Rightarrow> (nat \<Rightarrow> time \<times> time) \<Rightarrow> (nat \<Rightarrow> bytes) \<Rightarrow> string \<Rightarrow> string \<Rightarrow> string \<Rightarrow>
     Producer \<Rightarrow> ((int64 \<times> go_error option) \<times> Producer) go" where
  "StreamCSVMetrics open_file clock rand csvPath tsColumnName labelsColumnName p =
     (case NewMetricsCSVReader open_file csvPath of
        Inl err \<Rightarrow> Inr ((0, Some (Errorf_v ''failed to create CSV reader'' err)), p)
      | Inr csvReader \<Rightarrow>
          stream_rows (NewRowTransformer csvReader tsColumnName labelsColumnName) clock rand 0 csvReader 0 p)"

definition Producer_Close :: "Producer \<Rightarrow> go_error option" where
  "Producer_Close p =
     (case p_conn p of
        None \<Rightarrow> None
      | Some cn \<Rightarrow>
          (case nc_close cn of
             Some err \<Rightarrow> if err \<noteq> EOF then Some (Wrapf ''failed to close connection'' err) else None
           | None \<Rightarrow> None))"

section \<open>The program\<close>

definition EnvReader_Get :: "environment \<Rightarrow> string \<Rightarrow> string \<Rightarrow> string" where
  "EnvReader_Get env key defaultVal = (if env key \<noteq> [] then env key else defaultVal)"

definition default_csv_path :: string where
  "default_csv_path = ''../../internal/data/dcgm_metrics_20250718_134233.csv''"

text \<open>The exit status and the producer, if there is one. What \<open>Close\<close> returns at the end is only logged.\<close>

definition producer_main ::
    "environment \<Rightarrow> (string \<Rightarrow> go_error + net_conn) \<Rightarrow> (string \<Rightarrow> go_error + string) \<Rightarrow>
     (string \<Rightarrow> go_error + os_file) \<Rightarrow> (nat \<Rightarrow> time \<times> time) \<Rightarrow> (nat \<Rightarrow> bytes) \<Rightarrow> (nat \<times> Producer option) go" where
  "producer_main env dial abs_path open_file clock rand =
     (let csvPath = EnvReader_Get env ''CSV_PATH'' default_csv_path in
      case dial (EnvReader_Get env ''BROKER_ADDR'' ''localhost:9080'') of
        Inl err \<Rightarrow> Inr (1, None)
      | Inr conn \<Rightarrow>
          (case abs_path csvPath of
             Inl err \<Rightarrow> Inr (1, None)
           | Inr absCSVPath \<Rightarrow>
               bind_go (Start (NewProducer (Some conn))) (\<lambda>(err, p).
                 if err \<noteq> None then Inr (1, Some p)
                 else bind_go (StreamCSVMetrics open_file clock rand absCSVPath ''timestamp'' ''labels_raw'' p)
                        (\<lambda>((rowCount, err), p'). Inr (if err \<noteq> None then 1 else 0, Some p')))))"

end
