(* ===== verification/Metrics.thy ===== *)
theory Metrics
  imports GoTime "HOL-Library.Multiset"
begin

text \<open>
  \<open>internal/metrics/interfaces.go\<close> and \<open>internal/metrics/implementations.go\<close>: pagination,
  the string sorter, the token authenticator and the parser of query parameters. Go's \<open>int\<close> is
  a 64-bit word read as signed. The interfaces \<open>Sorter\<close> and \<open>Authenticator\<close> are locales.
\<close>

section \<open>Pagination\<close>

definition ErrInvalidLimit :: go_error where
  "ErrInvalidLimit = OtherError ''limit must be greater than 0''"
definition ErrInvalidPage :: go_error where
  "ErrInvalidPage = OtherError ''page must be greater than 0''"
definition ErrInvalidTime :: go_error where
  "ErrInvalidTime = OtherError ''invalid time format''"

record PaginationParams =
  Limit :: int64
  Page :: int64

definition Validate :: "PaginationParams \<Rightarrow> go_error option" where
  "Validate p =
     (if sint (Limit p) \<le> 0 then Some ErrInvalidLimit
      else if sint (Page p) \<le> 0 then Some ErrInvalidPage
      else None)"

definition CalculateOffset :: "int64 \<Rightarrow> int64 \<Rightarrow> int64" where
  "CalculateOffset page limit = (page - 1) * limit"

text \<open>The slice expression \<open>items[offset:end]\<close> panics unless \<open>0 \<le> offset \<le> end\<close>.\<close>

definition PaginateSlice :: "'a list \<Rightarrow> int64 \<Rightarrow> int64 \<Rightarrow> 'a list go" where
  "PaginateSlice items off limit =
     (if int (length items) \<le> sint off then Inr []
      else
        (let e = sint (off + limit);
             e' = (if int (length items) < e then int (length items) else e)
         in if 0 \<le> sint off \<and> sint off \<le> e'
            then Inr (take (nat e' - nat (sint off)) (drop (nat (sint off)) items))
            else Inl SliceBounds))"

text \<open>The page that is meant: pages count from 1.\<close>

definition page_of :: "nat \<Rightarrow> nat \<Rightarrow> 'a list \<Rightarrow> 'a list" where
  "page_of page limit items = take limit (drop ((page - 1) * limit) items)"

lemma sint64_exact:
  assumes "- (2 ^ 63) \<le> n" and "n < 2 ^ 63"
  shows "sint (word_of_int n :: int64) = n"
  using assms by (simp add: signed_of_int signed_take_bit_int_eq_self)

lemma sint64_of_nat:
  assumes "n < 2 ^ 63"
  shows "sint (of_nat n :: int64) = int n"
proof -
  have "int n < int (2 ^ 63)" using assms by (simp only: of_nat_less_iff)
  then have "int n < 2 ^ 63" by simp
  with sint64_exact [of "int n"] show ?thesis by simp
qed

lemma PaginateSlice_page:
  assumes "1 \<le> page" and "0 < limit" and "page * limit < 2 ^ 63"
  shows "PaginateSlice items (CalculateOffset (of_nat page) (of_nat limit)) (of_nat limit) =
    Inr (page_of page limit items)"
proof -
  obtain k where k: "page = Suc k" using assms(1) by (cases page) auto
  have kl: "k * limit < 2 ^ 63" "k * limit + limit < 2 ^ 63"
    using assms(3) by (simp_all add: k)
  have off: "CalculateOffset (of_nat page) (of_nat limit) = (of_nat (k * limit) :: int64)"
    by (simp add: CalculateOffset_def k)
  have s: "sint (of_nat (k * limit) :: int64) = int (k * limit)"
    by (rule sint64_of_nat [OF kl(1)])
  have "of_nat (k * limit) + of_nat limit = (of_nat (k * limit + limit) :: int64)" by simp
  then have e: "sint (of_nat (k * limit) + of_nat limit :: int64) = int (k * limit + limit)"
    using sint64_of_nat [OF kl(2)] by (simp only:)
  show ?thesis
    unfolding off PaginateSlice_def s e page_of_def
    by (auto simp: k Let_def nat_add_distrib simp flip: of_nat_add of_nat_mult)
qed

section \<open>Sorting\<close>

datatype SortOrder = SortAscending | SortDescending

text \<open>\<open>sort.Strings\<close> orders strings by their bytes. Equal strings are indistinguishable, so any
  sorting algorithm gives this list.\<close>

definition SortStrings :: "string list \<Rightarrow> SortOrder \<Rightarrow> string list" where
  "SortStrings items order =
     (if order = SortAscending then sort items else rev (sort items))"

text \<open>What the callers of the interface \<open>Sorter\<close> rely on.\<close>

locale sorter =
  fixes sort_strings :: "string list \<Rightarrow> SortOrder \<Rightarrow> string list"
  assumes same_items: "mset (sort_strings items order) = mset items"
    and ascending: "sorted (sort_strings items SortAscending)"
    and descending: "sorted (rev (sort_strings items SortDescending))"
begin

lemma same_length: "length (sort_strings items order) = length items"
  by (metis same_items size_mset)

text \<open>The order of the input does not matter.\<close>

lemma stable_pages:
  assumes "mset xs = mset ys"
  shows "sort_strings xs order = sort_strings ys order"
proof (cases order)
  case SortAscending
  have "mset (sort_strings xs SortAscending) = mset (sort_strings ys SortAscending)"
    using assms by (simp add: same_items)
  with ascending show ?thesis
    unfolding SortAscending by (metis properties_for_sort)
next
  case SortDescending
  have "mset (rev (sort_strings xs SortDescending)) = mset (rev (sort_strings ys SortDescending))"
    using assms by (simp add: same_items)
  with descending show ?thesis
    unfolding SortDescending by (metis properties_for_sort rev_is_rev_conv)
qed

end

interpretation string_sorter: sorter SortStrings
  by unfold_locales (auto simp: SortStrings_def)

section \<open>Authentication\<close>

record TokenAuthenticator =
  expectedToken :: string

definition NewTokenAuthenticator :: "string \<Rightarrow> TokenAuthenticator" where
  "NewTokenAuthenticator token = \<lparr>expectedToken = token\<rparr>"

definition Authenticate :: "TokenAuthenticator \<Rightarrow> string \<Rightarrow> bool" where
  "Authenticate t token \<longleftrightarrow> (if expectedToken t = [] then True else token = expectedToken t)"

section \<open>Query parameters\<close>

record DefaultQueryParser =
  params :: "string \<rightharpoonup> string list"

definition NewDefaultQueryParser :: "(string \<rightharpoonup> string list) \<Rightarrow> DefaultQueryParser" where
  "NewDefaultQueryParser queryParams = \<lparr>params = queryParams\<rparr>"

definition ParseInt :: "DefaultQueryParser \<Rightarrow> string \<Rightarrow> int64 \<Rightarrow> int64" where
  "ParseInt p key defaultVal =
     (case params p key of
        Some (val # _) \<Rightarrow>
          (case Atoi val of
             Inr n \<Rightarrow> if 0 < n then word_of_int n else defaultVal
           | Inl _ \<Rightarrow> defaultVal)
      | _ \<Rightarrow> defaultVal)"

definition ParseSortOrder :: "DefaultQueryParser \<Rightarrow> string \<Rightarrow> SortOrder \<Rightarrow> SortOrder" where
  "ParseSortOrder p key defaultVal =
     (case params p key of
        Some (val # _) \<Rightarrow>
          (let order = ToLower val in
           if order = ''desc'' \<or> order = ''descending'' then SortDescending else SortAscending)
      | _ \<Rightarrow> defaultVal)"

text \<open>The layouts \<open>RFC3339Nano\<close> and \<open>RFC3339\<close> accept the same strings: a fraction of the second
  is optional in the first and let through by the second.\<close>

definition ParseTimeParam :: "DefaultQueryParser \<Rightarrow> string \<Rightarrow> go_error + time option" where
  "ParseTimeParam p key =
     (case params p key of
        Some (val # _) \<Rightarrow>
          (case ParseRFC3339Nano val of
             Some t \<Rightarrow> Inr (Some t)
           | None \<Rightarrow>
               (case ParseRFC3339Nano val of
                  Some t \<Rightarrow> Inr (Some t)
                | None \<Rightarrow> Inl ErrInvalidTime))
      | _ \<Rightarrow> Inr None)"

lemma ParseInt_pos: "0 < sint d \<Longrightarrow> 0 < sint (ParseInt p key d)"
  using Atoi_range
  by (fastforce simp: ParseInt_def int_max_def int_min_def sint64_exact split: option.splits list.splits sum.splits)

end
