(* ===== verification/MetricsApi.thy ===== *)
theory MetricsApi
  imports Metrics
begin

text \<open>
  \<open>internal/metrics/service.go\<close>, \<open>store_adapter.go\<close>, \<open>handler.go\<close> and \<open>gin_adapter.go\<close>. The
  type \<open>'d\<close> is the type of the stored documents. An HTTP handler is a function from the request
  to the calls it makes on the \<open>ResponseWriter\<close>, in order; a panic is an \<open>Inl\<close>. JSON bodies are
  kept as the value handed to the encoder.
\<close>

section \<open>Store and StoreAdapter\<close>

type_synonym 'd query_result = "'d list \<times> int64 \<times> go_error option"

type_synonym 'd query_func =
  "string \<Rightarrow> time option \<Rightarrow> time option \<Rightarrow> int64 \<Rightarrow> int64 \<Rightarrow> bool \<Rightarrow> 'd query_result"

text \<open>A value of the interface \<open>Store\<close>: what its methods answer.\<close>

record 'd Store =
  st_ListGPUs :: "go_error + string list"
  st_QueryTelemetry :: "'d query_func"
  st_Close :: "go_error option"

record 'd StoreAdapter =
  queryFunc :: "'d query_func"
  listGPUsFunc :: "go_error + string list"
  closeFunc :: "go_error option"

definition NewStoreAdapter ::
    "'d query_func \<Rightarrow> (go_error + string list) \<Rightarrow> go_error option \<Rightarrow> 'd StoreAdapter" where
  "NewStoreAdapter q l c = \<lparr>queryFunc = q, listGPUsFunc = l, closeFunc = c\<rparr>"

definition Adapter_ListGPUs :: "'d StoreAdapter \<Rightarrow> go_error + string list" where
  "Adapter_ListGPUs a = listGPUsFunc a"

text \<open>\<open>int(total)\<close> is the identity on 64-bit machines.\<close>

definition Adapter_QueryTelemetry :: "'d StoreAdapter \<Rightarrow> 'd query_func" where
  "Adapter_QueryTelemetry a gpuID startTime endTime limit page sortAsc =
     (let (items, tot, err) = queryFunc a gpuID startTime endTime limit page sortAsc
      in (items, tot, err))"

definition Adapter_Close :: "'d StoreAdapter \<Rightarrow> go_error option" where
  "Adapter_Close a = closeFunc a"

definition adapter_store :: "'d StoreAdapter \<Rightarrow> 'd Store" where
  "adapter_store a =
     \<lparr>st_ListGPUs = Adapter_ListGPUs a, st_QueryTelemetry = Adapter_QueryTelemetry a,
      st_Close = Adapter_Close a\<rparr>"

section \<open>Service\<close>

record 'i Response =
  Total :: int64
  RespPage :: int64
  RespLimit :: int64
  Items :: "'i list"

type_synonym ListResponse = "string Response"
type_synonym 'd QueryResponse = "'d Response"

record 'd Service =
  svc_store :: "'d Store"
  svc_sorter :: "string list \<Rightarrow> SortOrder \<Rightarrow> string list"
  svc_defaultLimit :: int64

definition NewService ::
    "'d Store \<Rightarrow> (string list \<Rightarrow> SortOrder \<Rightarrow> string list) \<Rightarrow> int64 \<Rightarrow> 'd Service" where
  "NewService store srt defaultLimit =
     \<lparr>svc_store = store, svc_sorter = srt,
      svc_defaultLimit = (if sint defaultLimit \<le> 0 then 100 else defaultLimit)\<rparr>"

definition Service_ListGPUs ::
    "'d Service \<Rightarrow> int64 \<Rightarrow> int64 \<Rightarrow> SortOrder \<Rightarrow> (go_error + ListResponse) go" where
  "Service_ListGPUs s page limit order =
     (case Validate \<lparr>Limit = limit, Page = page\<rparr> of
        Some err \<Rightarrow> Inr (Inl err)
      | None \<Rightarrow>
          (case st_ListGPUs (svc_store s) of
             Inl err \<Rightarrow> Inr (Inl err)
           | Inr ids \<Rightarrow>
               (let gpuIDs = svc_sorter s ids order;
                    off = CalculateOffset page limit
                in bind_go (PaginateSlice gpuIDs off limit) (\<lambda>paginated.
                     Inr (Inr \<lparr>Total = of_nat (length gpuIDs), RespPage = page, RespLimit = limit,
                               Items = paginated\<rparr>)))))"

definition Service_QueryTelemetry ::
    "'d Service \<Rightarrow> string \<Rightarrow> time option \<Rightarrow> time option \<Rightarrow> int64 \<Rightarrow> int64 \<Rightarrow> SortOrder \<Rightarrow>
     go_error + 'd QueryResponse" where
  "Service_QueryTelemetry s gpuID startTime endTime limit page order =
     (case Validate \<lparr>Limit = limit, Page = page\<rparr> of
        Some err \<Rightarrow> Inl err
      | None \<Rightarrow>
          (case st_QueryTelemetry (svc_store s) gpuID startTime endTime limit page (order = SortAscending) of
             (items, tot, Some err) \<Rightarrow> Inl err
           | (items, tot, None) \<Rightarrow>
               Inr \<lparr>Total = tot, RespPage = page, RespLimit = limit, Items = items\<rparr>))"

section \<open>HTTP\<close>

record request =
  req_method :: string
  req_path :: string
  req_query :: "string \<rightharpoonup> string list"
  req_header :: "string \<Rightarrow> string"

datatype 'd body = ListBody ListResponse | QueryBody "'d QueryResponse" | ErrorBody string

datatype 'd action = SetHeader string string | WriteHeader nat | WriteBody "'d body"

type_synonym 'd handler_func = "request \<Rightarrow> 'd action list go"

section \<open>Handler\<close>

record 'd Handler =
  h_store :: "'d Store"
  h_authenticator :: "string \<Rightarrow> bool"
  h_sorter :: "string list \<Rightarrow> SortOrder \<Rightarrow> string list"
  h_defaultLimit :: int64
  h_service :: "'d Service"

definition NewHandler ::
    "'d Store \<Rightarrow> (string \<Rightarrow> bool) \<Rightarrow> (string list \<Rightarrow> SortOrder \<Rightarrow> string list) \<Rightarrow> int64 \<Rightarrow> 'd Handler" where
  "NewHandler store authenticator srt defaultLimit =
     (let l = (if sint defaultLimit \<le> 0 then 100 else defaultLimit)
      in \<lparr>h_store = store, h_authenticator = authenticator, h_sorter = srt, h_defaultLimit = l,
          h_service = NewService store srt l\<rparr>)"

definition jsonOK :: "'d body \<Rightarrow> 'd action list" where
  "jsonOK data = [SetHeader ''Content-Type'' ''application/json'', WriteHeader 200, WriteBody data]"

definition jsonError :: "nat \<Rightarrow> string \<Rightarrow> 'd action list" where
  "jsonError statusCode message =
     [SetHeader ''Content-Type'' ''application/json'', WriteHeader statusCode, WriteBody (ErrorBody message)]"

definition Handler_ListGPUs :: "'d Handler \<Rightarrow> 'd handler_func" where
  "Handler_ListGPUs h r =
     (let parser = NewDefaultQueryParser (req_query r);
          limit = ParseInt parser ''limit'' (h_defaultLimit h);
          page = ParseInt parser ''page'' 1;
          sortOrder = ParseSortOrder parser ''sort'' SortAscending
      in case Validate \<lparr>Limit = limit, Page = page\<rparr> of
           Some err \<Rightarrow> Inr (jsonError 400 (error_text err))
         | None \<Rightarrow>
             bind_go (Service_ListGPUs (h_service h) page limit sortOrder) (\<lambda>res.
               case res of
                 Inl err \<Rightarrow> Inr (jsonError 500 ''failed to list GPUs'')
               | Inr response \<Rightarrow> Inr (jsonOK (ListBody response))))"

text \<open>The part after the first \<open>gpus\<close> of the path that has a part after it.\<close>

fun gpu_id_in :: "string list \<Rightarrow> string" where
  "gpu_id_in (part # nxt # parts) = (if part = ''gpus'' then nxt else gpu_id_in (nxt # parts))"
| "gpu_id_in _ = []"

definition extractGPUIDFromPath :: "string \<Rightarrow> string" where
  "extractGPUIDFromPath path = gpu_id_in (Split CHR ''/'' path)"

definition Handler_QueryGPUTelemetry :: "'d Handler \<Rightarrow> 'd handler_func" where
  "Handler_QueryGPUTelemetry h r =
     (let gpuID = extractGPUIDFromPath (req_path r) in
      if gpuID = [] then Inr (jsonError 400 ''GPU ID is required'')
      else
       (let parser = NewDefaultQueryParser (req_query r) in
        case ParseTimeParam parser ''start_time'' of
          Inl err \<Rightarrow> Inr (jsonError 400 ''invalid start_time format'')
        | Inr startTime \<Rightarrow>
            (case ParseTimeParam parser ''end_time'' of
               Inl err \<Rightarrow> Inr (jsonError 400 ''invalid end_time format'')
             | Inr endTime \<Rightarrow>
                 (let limit = ParseInt parser ''limit'' (h_defaultLimit h);
                      page = ParseInt parser ''page'' 1;
                      sortOrder = ParseSortOrder parser ''sort'' SortAscending
                  in case Validate \<lparr>Limit = limit, Page = page\<rparr> of
                       Some err \<Rightarrow> Inr (jsonError 400 (error_text err))
                     | None \<Rightarrow>
                         (case Service_QueryTelemetry (h_service h) gpuID startTime endTime limit page sortOrder of
                            Inl err \<Rightarrow> Inr (jsonError 500 ''failed to query telemetry'')
                          | Inr response \<Rightarrow> Inr (jsonOK (QueryBody response)))))))"

section \<open>Middleware\<close>

text \<open>The wrapper that remembers the status: its own fields, and what it hands on.\<close>

record responseWriter =
  statusCode :: nat
  rw_written :: bool

fun responseWriter_call :: "'d action \<Rightarrow> responseWriter \<Rightarrow> responseWriter \<times> 'd action list" where
  "responseWriter_call (SetHeader k v) w = (w, [SetHeader k v])"
| "responseWriter_call (WriteHeader code) w =
     (if rw_written w then (w, [])
      else (w\<lparr>statusCode := code, rw_written := True\<rparr>, [WriteHeader code]))"
| "responseWriter_call (WriteBody b) w = (w\<lparr>rw_written := True\<rparr>, [WriteBody b])"

fun responseWriter_calls :: "'d action list \<Rightarrow> responseWriter \<Rightarrow> responseWriter \<times> 'd action list" where
  "responseWriter_calls [] w = (w, [])"
| "responseWriter_calls (a # as) w =
     (let (w', out) = responseWriter_call a w; (w'', out') = responseWriter_calls as w'
      in (w'', out @ out'))"

text \<open>With the status that is logged.\<close>

definition LoggingMiddleware :: "'d handler_func \<Rightarrow> request \<Rightarrow> ('d action list \<times> nat) go" where
  "LoggingMiddleware nxt r =
     bind_go (nxt r) (\<lambda>calls.
       (let (w, out) = responseWriter_calls calls \<lparr>statusCode = 200, rw_written = False\<rparr>
        in Inr (out, statusCode w)))"

definition bearer_token :: "string \<Rightarrow> string" where
  "bearer_token authHeader =
     (if authHeader \<noteq> []
      then (let parts = Fields authHeader in
            if length parts = 2 \<and> EqualFold (parts ! 0) ''Bearer'' then parts ! 1 else [])
      else [])"

definition AuthMiddleware :: "(string \<Rightarrow> bool) \<Rightarrow> 'd handler_func \<Rightarrow> 'd handler_func" where
  "AuthMiddleware authenticate nxt r =
     (if \<not> authenticate (bearer_token (req_header r ''Authorization''))
      then Inr [SetHeader ''Content-Type'' ''application/json'', WriteHeader 401,
                WriteBody (ErrorBody ''unauthorized'')]
      else nxt r)"

section \<open>The gin adapter\<close>

text \<open>The calls of gin's API the adapter makes, in order; what gin does with them is gin's. The
  middlewares take the rest of the chain as an argument, which is what \<open>c.Next\<close> runs.\<close>

datatype 'd gin_call =
    Header string string
  | AbortWithStatus nat
  | AbortWithStatusJSON nat "'d body"
  | JSON nat "(string \<times> string) list"
  | Status nat
  | Data nat string bytes
  | Writer "'d action"
  | LogRequest string string nat
  | SwaggerUI
  | NoRoute

type_synonym 'd gin_handler = "request \<Rightarrow> 'd gin_call list go"

text \<open>\<open>c.Writer.Status()\<close>.\<close>

fun gin_status :: "nat \<Rightarrow> 'd gin_call list \<Rightarrow> nat" where
  "gin_status st [] = st"
| "gin_status st (AbortWithStatus n # cs) = gin_status n cs"
| "gin_status st (AbortWithStatusJSON n b # cs) = gin_status n cs"
| "gin_status st (JSON n b # cs) = gin_status n cs"
| "gin_status st (Status n # cs) = gin_status n cs"
| "gin_status st (Data n t b # cs) = gin_status n cs"
| "gin_status st (Writer (WriteHeader n) # cs) = gin_status n cs"
| "gin_status st (NoRoute # cs) = gin_status 404 cs"
| "gin_status st (c # cs) = gin_status st cs"

definition gin_cors :: "'d gin_handler \<Rightarrow> 'd gin_handler" where
  "gin_cors nxt r =
     (let origin = (if req_header r ''Origin'' = [] then ''*'' else req_header r ''Origin'');
          hs = [Header ''Access-Control-Allow-Origin'' origin,
                Header ''Access-Control-Allow-Methods'' ''GET,POST,PUT,PATCH,DELETE,OPTIONS'',
                Header ''Access-Control-Allow-Headers'' ''Authorization,Content-Type,Accept,Origin'',
                Header ''Access-Control-Allow-Credentials'' ''true'']
      in if req_method r = ''OPTIONS'' then Inr (hs @ [AbortWithStatus 204])
         else bind_go (nxt r) (\<lambda>cs. Inr (hs @ cs)))"

definition gin_logging :: "'d gin_handler \<Rightarrow> 'd gin_handler" where
  "gin_logging nxt r =
     bind_go (nxt r) (\<lambda>cs. Inr (cs @ [LogRequest (req_method r) (req_path r) (gin_status 200 cs)]))"

definition gin_auth :: "(string \<Rightarrow> bool) \<Rightarrow> 'd gin_handler \<Rightarrow> 'd gin_handler" where
  "gin_auth authenticate nxt r =
     (if \<not> authenticate (bearer_token (req_header r ''Authorization''))
      then Inr [AbortWithStatusJSON 401 (ErrorBody ''unauthorized'')]
      else nxt r)"

text \<open>The package variable \<open>registeredHandler\<close> is an argument.\<close>

definition Gin_ListGPUs :: "'d Handler option \<Rightarrow> 'd gin_handler" where
  "Gin_ListGPUs registeredHandler r =
     (case registeredHandler of
        None \<Rightarrow> Inr [Status 500]
      | Some h \<Rightarrow> bind_go (Handler_ListGPUs h r) (\<lambda>as. Inr (map Writer as)))"

definition Gin_QueryGPUTelemetry :: "'d Handler option \<Rightarrow> 'd gin_handler" where
  "Gin_QueryGPUTelemetry registeredHandler r =
     (case registeredHandler of
        None \<Rightarrow> Inr [Status 500]
      | Some h \<Rightarrow> bind_go (Handler_QueryGPUTelemetry h r) (\<lambda>as. Inr (map Writer as)))"

text \<open>The working directory and the file system are arguments.\<close>

definition serve_openapi :: "string option \<Rightarrow> (string \<Rightarrow> bytes option) \<Rightarrow> 'd gin_call list" where
  "serve_openapi getwd read_file =
     (case getwd of
        None \<Rightarrow> [Status 500]
      | Some pwd \<Rightarrow>
          (case read_file (pwd @ ''/docs/openapi.yaml'') of
             None \<Rightarrow> [Status 404]
           | Some data \<Rightarrow> [Data 200 ''application/x-yaml'' data]))"

datatype endpoint = EP_ListGPUs | EP_QueryGPUTelemetry | EP_Healthz | EP_Ready | EP_OpenAPI | EP_Swagger

definition gin_routes :: "(string \<times> endpoint) list" where
  "gin_routes =
     [(''/api/v1/gpus'', EP_ListGPUs), (''/api/v1/gpus/:id/telemetry'', EP_QueryGPUTelemetry),
      (''/healthz'', EP_Healthz), (''/ready'', EP_Ready), (''/openapi.yaml'', EP_OpenAPI),
      (''/swagger/*any'', EP_Swagger)]"

definition run_endpoint ::
    "'d Handler \<Rightarrow> (string \<Rightarrow> bool) \<Rightarrow> string option \<Rightarrow> (string \<Rightarrow> bytes option) \<Rightarrow> endpoint \<Rightarrow> 'd gin_handler" where
  "run_endpoint h authenticate getwd read_file e =
     (case e of
        EP_ListGPUs \<Rightarrow> gin_logging (gin_auth authenticate (Gin_ListGPUs (Some h)))
      | EP_QueryGPUTelemetry \<Rightarrow> gin_logging (gin_auth authenticate (Gin_QueryGPUTelemetry (Some h)))
      | EP_Healthz \<Rightarrow> (\<lambda>r. Inr [JSON 200 [(''status'', ''ok'')]])
      | EP_Ready \<Rightarrow> (\<lambda>r. Inr [JSON 200 [(''status'', ''ok'')]])
      | EP_OpenAPI \<Rightarrow> (\<lambda>r. Inr (serve_openapi getwd read_file))
      | EP_Swagger \<Rightarrow> (\<lambda>r. Inr [SwaggerUI]))"

text \<open>What \<open>RegisterGinRoutes\<close> sets up: every route is a \<open>GET\<close>, behind the CORS middleware.
  Matching a path against a pattern is gin's and an argument.\<close>

definition RegisterGinRoutes ::
    "(string \<Rightarrow> string \<Rightarrow> bool) \<Rightarrow> string option \<Rightarrow> (string \<Rightarrow> bytes option) \<Rightarrow> 'd Handler \<Rightarrow>
     (string \<Rightarrow> bool) \<Rightarrow> 'd gin_handler" where
  "RegisterGinRoutes matches getwd read_file h authenticate =
     gin_cors (\<lambda>r.
       case find (\<lambda>(pat, e). req_method r = ''GET'' \<and> matches pat (req_path r)) gin_routes of
         None \<Rightarrow> Inr [NoRoute]
       | Some (pat, e) \<Rightarrow> run_endpoint h authenticate getwd read_file e r)"

end
