(* ===== verification/Storage.thy ===== *)
theory Storage
  imports Message MetricsApi
begin

text \<open>
  \<open>internal/storage/mongodb.go\<close>: the store over a MongoDB collection. The driver is not part of the
  repository: the collection is a record of functions, an argument of every operation, over a state
  of an arbitrary type, and connecting and pinging are arguments of \<open>NewMongoStore\<close>. A document is a
  map from field names to values; the current time is an argument.
\<close>

section \<open>The interfaces to the driver\<close>

text \<open>A filter: a choice between fields that have to equal a string, and bounds on the timestamp.\<close>

record query_filter =
  flt_or :: "(string \<times> string) list option"
  flt_timestamp :: "(time option \<times> time option) option"

record FindOptions =
  opt_limit :: int64
  opt_skip :: int64
  opt_sort :: "string \<times> int"

text \<open>What \<open>Next\<close> and \<open>Decode\<close> deliver, and \<open>Err\<close> after the last \<open>Next\<close>.\<close>

record CursorAPI =
  cur_docs :: "(go_error + document) list"
  cur_err :: "go_error option"

record 'c CollectionAPI =
  c_InsertOne :: "document \<Rightarrow> 'c \<Rightarrow> go_error option \<times> 'c"
  c_Distinct :: "string \<Rightarrow> 'c \<Rightarrow> go_error + doc_value list"
  c_CountDocuments :: "query_filter \<Rightarrow> 'c \<Rightarrow> go_error + int64"
  c_Find :: "query_filter \<Rightarrow> FindOptions \<Rightarrow> 'c \<Rightarrow> go_error + CursorAPI"

text \<open>The driver's collection as a \<open>CollectionAPI\<close>: the calls are passed on.\<close>

definition realCollection :: "'c CollectionAPI \<Rightarrow> 'c CollectionAPI" where
  "realCollection c =
     \<lparr>c_InsertOne = c_InsertOne c,
      c_Distinct = c_Distinct c,
      c_CountDocuments = c_CountDocuments c,
      c_Find = (\<lambda>f opts s. case c_Find c f opts s of Inl err \<Rightarrow> Inl err | Inr cur \<Rightarrow> Inr cur)\<rparr>"

record ('k, 'c) MongoStore =
  ms_client :: 'k
  ms_collection :: "'c CollectionAPI"

section \<open>Opening and closing\<close>

definition NewMongoStore ::
    "(string \<Rightarrow> go_error + 'k) \<Rightarrow> ('k \<Rightarrow> go_error option) \<Rightarrow> ('k \<Rightarrow> string \<Rightarrow> string \<Rightarrow> 'c CollectionAPI) \<Rightarrow>
     string \<Rightarrow> string \<Rightarrow> string \<Rightarrow> go_error + ('k, 'c) MongoStore" where
  "NewMongoStore connect ping collection mongoURI dbName collectionName =
     (let uri = (if mongoURI = [] then ''mongodb://localhost:27017'' else mongoURI);
          db = (if dbName = [] then ''message_streaming'' else dbName);
          coll = (if collectionName = [] then ''metrics'' else collectionName)
      in case connect uri of
           Inl err \<Rightarrow> Inl (Wrapf ''connect to MongoDB'' err)
         | Inr client \<Rightarrow>
             (case ping client of
                Some err \<Rightarrow> Inl (Wrapf ''ping MongoDB'' err)
              | None \<Rightarrow> Inr \<lparr>ms_client = client, ms_collection = realCollection (collection client db coll)\<rparr>))"

definition Mongo_Close :: "('k \<Rightarrow> go_error option) \<Rightarrow> ('k, 'c) MongoStore \<Rightarrow> go_error option" where
  "Mongo_Close disconnect ms = disconnect (ms_client ms)"

section \<open>Storing\<close>

text \<open>A nil map is \<open>None\<close>: writing to it panics.\<close>

definition set_field :: "string \<Rightarrow> doc_value \<Rightarrow> document option \<Rightarrow> document go" where
  "set_field k v m = (case m of None \<Rightarrow> Inl NilMapWrite | Some d \<Rightarrow> Inr (d(k \<mapsto> v)))"

definition StoreMetric ::
    "('k, 'c) MongoStore \<Rightarrow> time \<Rightarrow> document option \<Rightarrow> 'c \<Rightarrow> (go_error option \<times> 'c) go" where
  "StoreMetric ms now metric c =
     bind_go (set_field ''created_at'' (DTime now) metric) (\<lambda>doc.
       case c_InsertOne (ms_collection ms) doc c of
         (Some err, c') \<Rightarrow> Inr (Some (Wrapf ''insert metric'' err), c')
       | (None, c') \<Rightarrow> Inr (None, c'))"

text \<open>\<open>now\<close> and \<open>now'\<close>: the times of the two calls of \<open>time.Now\<close>.\<close>

definition StoreMessage ::
    "('k, 'c) MongoStore \<Rightarrow> time \<Rightarrow> time \<Rightarrow> Message \<Rightarrow> 'c \<Rightarrow> (go_error option \<times> 'c) go" where
  "StoreMessage ms now now' msg c =
     (case unmarshal_map (case msg_Payload msg of None \<Rightarrow> [] | Some p \<Rightarrow> p) of
        Inl err \<Rightarrow> Inr (Some (Wrapf ''unmarshal payload'' err), c)
      | Inr payload \<Rightarrow>
          bind_go (set_field ''timestamp''
                     (if \<not> IsZero (msg_Timestamp msg) then DTime (msg_Timestamp msg) else DTime now) payload)
            (\<lambda>d. StoreMetric ms now' (Some d) c))"

section \<open>Queries\<close>

definition string_ids :: "doc_value list \<Rightarrow> string list" where
  "string_ids vs = concat (map (\<lambda>v. case v of DStr s \<Rightarrow> if s \<noteq> [] then [s] else [] | _ \<Rightarrow> []) vs)"

definition gpu_ids :: "doc_value list \<Rightarrow> string list" where
  "gpu_ids vs =
     concat (map (\<lambda>v. case v of
                         DStr s \<Rightarrow> if s \<noteq> [] then [s] else []
                       | DInt32 n \<Rightarrow> [itoa (sint n)]
                       | _ \<Rightarrow> []) vs)"

definition Mongo_ListGPUs :: "('k, 'c) MongoStore \<Rightarrow> 'c \<Rightarrow> go_error + string list" where
  "Mongo_ListGPUs ms c =
     (case c_Distinct (ms_collection ms) ''uuid'' c of
        Inl err \<Rightarrow> Inl (Wrapf ''distinct uuid'' err)
      | Inr uuids \<Rightarrow>
          (let ids = string_ids uuids in
           if ids = [] then
             (case c_Distinct (ms_collection ms) ''gpu_id'' c of
                Inl err \<Rightarrow> Inl (Wrapf ''distinct gpu_id'' err)
              | Inr gpus \<Rightarrow> Inr (gpu_ids gpus))
           else Inr ids))"

definition telemetry_filter :: "string \<Rightarrow> time option \<Rightarrow> time option \<Rightarrow> query_filter" where
  "telemetry_filter gpuIdentifier start end' =
     \<lparr>flt_or = (if gpuIdentifier \<noteq> [] then Some [(''uuid'', gpuIdentifier), (''gpu_id'', gpuIdentifier)] else None),
      flt_timestamp = (if start \<noteq> None \<or> end' \<noteq> None then Some (start, end') else None)\<rparr>"

definition find_options :: "int64 \<Rightarrow> int64 \<Rightarrow> bool \<Rightarrow> FindOptions" where
  "find_options limit page sortAsc =
     (let l = (if sint limit \<le> 0 then 100 else limit)
      in \<lparr>opt_limit = l, opt_skip = (if sint page \<le> 1 then 0 else (page - 1) * l),
          opt_sort = (''timestamp'', if sortAsc then 1 else -1)\<rparr>)"

text \<open>The loop over the cursor, which stops at the first document that cannot be decoded.\<close>

fun cursor_loop :: "(go_error + document) list \<Rightarrow> document list \<Rightarrow> go_error + document list" where
  "cursor_loop [] results = Inr results"
| "cursor_loop (Inl err # ds) results = Inl (Wrapf ''decode doc'' err)"
| "cursor_loop (Inr doc # ds) results = cursor_loop ds (results @ [doc])"

definition Mongo_QueryTelemetry :: "('k, 'c) MongoStore \<Rightarrow> 'c \<Rightarrow> document query_func" where
  "Mongo_QueryTelemetry ms c gpuIdentifier start end' limit page sortAsc =
     (let flt = telemetry_filter gpuIdentifier start end' in
      case c_CountDocuments (ms_collection ms) flt c of
        Inl err \<Rightarrow> ([], 0, Some (Wrapf ''count documents'' err))
      | Inr tot \<Rightarrow>
          (case c_Find (ms_collection ms) flt (find_options limit page sortAsc) c of
             Inl err \<Rightarrow> ([], 0, Some (Wrapf ''find documents'' err))
           | Inr cur \<Rightarrow>
               (case cursor_loop (cur_docs cur) [] of
                  Inl err \<Rightarrow> ([], 0, Some err)
                | Inr results \<Rightarrow>
                    (case cur_err cur of
                       Some err \<Rightarrow> ([], 0, Some (Wrapf ''cursor error'' err))
                     | None \<Rightarrow> (results, tot, None)))))"

lemma cursor_loop_docs: "cursor_loop (map Inr ds) results = Inr (results @ ds)"
  by (induction ds arbitrary: results) auto

end
