(* ===== verification/Consumer.thy ===== *)
theory Consumer
  imports Storage Frames
begin

text \<open>
  \<open>cmd/consumer/main.go\<close>: connect to the broker, identify as a consumer, open the store, then read
  frames and store the messages in them. Dialling, the driver, the collection and the clock are
  arguments; the loop ends with the error of the read that ended it, or with a panic, which ends the
  process.
\<close>

section \<open>The main loop\<close>

text \<open>\<open>clock k\<close>: the two times at which the \<open>k\<close>-th frame reads the clock. The buffer of the next read
  is the array of the body just read.\<close>

function consumer_loop ::
    "('k, 'c) MongoStore \<Rightarrow> (nat \<Rightarrow> time \<times> time) \<Rightarrow> nat \<Rightarrow> instream \<Rightarrow> bytes \<Rightarrow> 'c \<Rightarrow> (go_error \<times> 'c) go" where
  "consumer_loop ms clock k conn buf c =
     (case ReadFrame ReadFull conn buf of
        ((_, Some err), _, _) \<Rightarrow> Inr (err, c)
      | ((body, None), buf', conn') \<Rightarrow>
          (case Unmarshal_Message (string_of_bytes body) zero_message of
             (Some err, _) \<Rightarrow> consumer_loop ms clock (Suc k) conn' buf' c
           | (None, msg) \<Rightarrow>
               bind_go (StoreMessage ms (fst (clock k)) (snd (clock k)) msg c) (\<lambda>(err, c').
                 consumer_loop ms clock (Suc k) conn' buf' c')))"
  by pat_completeness auto
termination
proof (relation "measure (\<lambda>(ms, clock, k, conn, buf, c). length (avail conn))", goal_cases)
  case (2 ms clock k conn buf c res rest body err buf' conn' e msg x err' c')
  then have "ReadFrame ReadFull conn buf = ((body, None), buf', conn')" by simp
  from ReadFrame_consumes [OF this] show ?case by simp
next
  case (3 ms clock k conn buf c res rest body err buf' conn' r e msg)
  then have "ReadFrame ReadFull conn buf = ((body, None), buf', conn')" by simp
  from ReadFrame_consumes [OF this] show ?case by simp
qed simp

declare consumer_loop.simps [simp del]

section \<open>The program\<close>

definition role_consumer_line :: string where
  "role_consumer_line = ''CONSUMER'' @ [CHR 0x0A]"

text \<open>A failed \<open>Dial\<close> is only logged: the nil connection is used, by the deferred \<open>Close\<close> first.\<close>

definition consumer_main ::
    "environment \<Rightarrow> (string \<Rightarrow> go_error + instream \<times> outstream) \<Rightarrow> (string \<Rightarrow> go_error + 'k) \<Rightarrow>
     ('k \<Rightarrow> go_error option) \<Rightarrow> ('k \<Rightarrow> string \<Rightarrow> string \<Rightarrow> 'c CollectionAPI) \<Rightarrow> (nat \<Rightarrow> time \<times> time) \<Rightarrow> 'c \<Rightarrow>
     (go_error \<times> outstream \<times> 'c) go" where
  "consumer_main env dial connect ping collection clock c =
     (case dial (GetEnv env ''BROKER_ADDR'' ''localhost:9080'') of
        Inl err \<Rightarrow> Inl NilDereference
      | Inr (conn, w) \<Rightarrow>
          (case Write (bytes_of_string role_consumer_line) w of
             (Some err, w') \<Rightarrow> Inl (ExplicitPanic (''failed to identify as consumer: '' @ error_text err))
           | (None, w') \<Rightarrow>
               (case NewMongoStore connect ping collection
                       (GetEnv env ''MONGODB_URI'' ''mongodb://localhost:27017'')
                       (GetEnv env ''MONGODB_DATABASE'' ''message_streaming'')
                       (GetEnv env ''MONGO_COLLECTION'' ''metrics'') of
                  Inl err \<Rightarrow> Inl (ExplicitPanic ''Error initiaizing MongoDB store'')
                | Inr ms \<Rightarrow>
                    bind_go (consumer_loop ms clock 0 conn [] c) (\<lambda>(err, c'). Inr (err, w', c')))))"

section \<open>One frame after the other\<close>

definition consume :: "('k, 'c) MongoStore \<Rightarrow> time \<times> time \<Rightarrow> bytes \<Rightarrow> 'c \<Rightarrow> 'c go" where
  "consume ms now body c =
     (case Unmarshal_Message (string_of_bytes body) zero_message of
        (Some err, _) \<Rightarrow> Inr c
      | (None, msg) \<Rightarrow> bind_go (StoreMessage ms (fst now) (snd now) msg c) (\<lambda>(err, c'). Inr c'))"

fun consume_all :: "('k, 'c) MongoStore \<Rightarrow> (nat \<Rightarrow> time \<times> time) \<Rightarrow> nat \<Rightarrow> bytes list \<Rightarrow> 'c \<Rightarrow> 'c go" where
  "consume_all ms clock k [] c = Inr c"
| "consume_all ms clock k (b # bs) c =
     bind_go (consume ms (clock k) b c) (consume_all ms clock (Suc k) bs)"

text \<open>The loop does nothing but store the frames of its input one by one.\<close>

lemma consumer_loop_frames:
  "consumer_loop ms clock k conn buf c =
     bind_go (consume_all ms clock k (fst (decode_frames conn)) c) (\<lambda>c'. Inr (snd (decode_frames conn), c'))"
proof (induction ms clock k conn buf c rule: consumer_loop.induct)
  case (1 ms clock k conn buf c)
  obtain body e buf' conn' where read: "ReadFrame ReadFull conn buf = ((body, e), buf', conn')"
    by (metis prod.exhaust)
  obtain e' msg where um: "Unmarshal_Message (string_of_bytes body) zero_message = (e', msg)"
    by (metis prod.exhaust)
  show ?case
  proof (cases e)
    case (Some err)
    with read show ?thesis by (simp add: consumer_loop.simps [of ms clock k conn] decode_frames_stop)
  next
    case None
    note step = decode_frames_step [OF read [unfolded None]]
    show ?thesis
    proof (cases e')
      case (Some err)
      with "1.IH"(2) [OF read [symmetric] refl None refl um [symmetric] Some] read None um step
      show ?thesis by (simp add: consumer_loop.simps [of ms clock k conn] consume_def)
    next
      case n: None
      have "consumer_loop ms clock k conn buf c =
          bind_go (StoreMessage ms (fst (clock k)) (snd (clock k)) msg c) (\<lambda>(err, c').
            consumer_loop ms clock (Suc k) conn' buf' c')"
        using read None um n by (simp add: consumer_loop.simps [of ms clock k conn])
      also have "\<dots> = bind_go (StoreMessage ms (fst (clock k)) (snd (clock k)) msg c) (\<lambda>(err, c').
          bind_go (consume_all ms clock (Suc k) (fst (decode_frames conn')) c')
            (\<lambda>c'. Inr (snd (decode_frames conn'), c')))"
        using "1.IH"(1) [OF read [symmetric] refl None refl um [symmetric] n]
        by (intro bind_go_cong) (auto split: prod.splits)
      finally show ?thesis
        using um n step by (simp add: consume_def bind_go_assoc case_prod_unfold)
    qed
  qed
qed

end
