(* ===== verification/MetricsProps.thy ===== *)
theory MetricsProps
  imports MetricsApi
begin

text \<open>
  What the metrics API answers: pages, authentication, the status that is logged, and the way of a
  telemetry query to the store.
\<close>

section \<open>Pages\<close>

lemma concat_pages:
  "concat (map (\<lambda>p. page_of p limit xs) [1..<Suc n]) = take (n * limit) xs"
proof (induction n)
  case (Suc n)
  have "concat (map (\<lambda>p. page_of p limit xs) [1..<Suc (Suc n)]) =
      concat (map (\<lambda>p. page_of p limit xs) [1..<Suc n]) @ page_of (Suc n) limit xs"
    by simp
  also have "\<dots> = take (n * limit) xs @ take limit (drop (n * limit) xs)"
    by (simp only: Suc.IH) (simp add: page_of_def)
  also have "\<dots> = take (Suc n * limit) xs"
    by (simp add: take_add [symmetric] add.commute)
  finally show ?case .
qed simp

lemma Service_ListGPUs_page:
  assumes "st_ListGPUs store = Inr ids" and "1 \<le> page" and "0 < limit" and "page * limit < 2 ^ 63"
  shows "Service_ListGPUs (NewService store srt d) (of_nat page) (of_nat limit) order =
    Inr (Inr \<lparr>Total = of_nat (length (srt ids order)), RespPage = of_nat page,
              RespLimit = of_nat limit, Items = page_of page limit (srt ids order)\<rparr>)"
proof -
  have "page \<le> page * limit" "limit \<le> page * limit"
    using assms(2,3) by simp_all
  then have "page < 2 ^ 63" "limit < 2 ^ 63" using assms(4) by linarith+
  then have "sint (of_nat page :: int64) = int page" "sint (of_nat limit :: int64) = int limit"
    by (simp_all only: sint64_of_nat)
  with assms(2,3) have "Validate \<lparr>Limit = of_nat limit, Page = of_nat page\<rparr> = None"
    by (simp add: Validate_def)
  with assms(1) show ?thesis
    by (simp add: Service_ListGPUs_def NewService_def Let_def PaginateSlice_page [OF assms(2-4)])
qed

section \<open>HTTP responses\<close>

text \<open>What \<open>net/http\<close> makes of the calls: an informational status (1xx but 101) is sent at once with the
  headers set so far and settles nothing; the first final \<open>WriteHeader\<close> or \<open>Write\<close> fixes the status
  (200 for a \<open>Write\<close>) and the headers, and later ones do not count. Some statuses have no body. A status
  that has not three digits panics; no call here has one.\<close>

record 'd response =
  rs_informational :: "(nat \<times> (string \<times> string) list) list"
  rs_status :: "nat option"
  rs_headers :: "(string \<times> string) list"
  rs_bodies :: "'d body list"

definition informational :: "nat \<Rightarrow> bool" where
  "informational n \<longleftrightarrow> 100 \<le> n \<and> n \<le> 199 \<and> n \<noteq> 101"

definition body_allowed :: "nat \<Rightarrow> bool" where
  "body_allowed n \<longleftrightarrow> \<not> (100 \<le> n \<and> n \<le> 199) \<and> n \<noteq> 204 \<and> n \<noteq> 304"

fun http_call :: "'d action \<Rightarrow> 'd response \<Rightarrow> 'd response" where
  "http_call (SetHeader k v) rs =
     (if rs_status rs = None then rs\<lparr>rs_headers := rs_headers rs @ [(k, v)]\<rparr> else rs)"
| "http_call (WriteHeader n) rs =
     (if rs_status rs \<noteq> None then rs
      else if informational n then rs\<lparr>rs_informational := rs_informational rs @ [(n, rs_headers rs)]\<rparr>
      else rs\<lparr>rs_status := Some n\<rparr>)"
| "http_call (WriteBody b) rs =
     (let n = (case rs_status rs of None \<Rightarrow> 200 | Some n \<Rightarrow> n)
      in rs\<lparr>rs_status := Some n, rs_bodies := rs_bodies rs @ (if body_allowed n then [b] else [])\<rparr>)"

definition empty_response :: "'d response" where
  "empty_response = \<lparr>rs_informational = [], rs_status = None, rs_headers = [], rs_bodies = []\<rparr>"

definition http_response :: "'d action list \<Rightarrow> 'd response" where
  "http_response as = fold http_call as empty_response"

definition http_status :: "'d response \<Rightarrow> nat" where
  "http_status rs = (case rs_status rs of None \<Rightarrow> 200 | Some n \<Rightarrow> n)"

text \<open>Calls, and handlers, that write final statuses only.\<close>

definition final_calls :: "'d action list \<Rightarrow> bool" where
  "final_calls as \<longleftrightarrow> (\<forall>n. WriteHeader n \<in> set as \<longrightarrow> n \<le> 999 \<and> (200 \<le> n \<or> n = 101))"

definition final_handler :: "'d handler_func \<Rightarrow> bool" where
  "final_handler nxt \<longleftrightarrow> (\<forall>r. case nxt r of Inl p \<Rightarrow> True | Inr calls \<Rightarrow> final_calls calls)"

lemma final_json: "final_calls (jsonOK b)" "200 \<le> n \<Longrightarrow> n \<le> 999 \<Longrightarrow> final_calls (jsonError n m)"
  by (auto simp: final_calls_def jsonOK_def jsonError_def)

lemma final_ListGPUs: "final_handler (Handler_ListGPUs h)"
proof -
  have "final_calls calls" if "Handler_ListGPUs h r = Inr calls" for r calls
    using that
    by (auto simp: Handler_ListGPUs_def Let_def final_json bind_go_eq_Inr split: option.splits sum.splits)
      (metis final_json(1) sum.exhaust)
  then show ?thesis by (auto simp: final_handler_def split: sum.split)
qed

lemma final_QueryGPUTelemetry: "final_handler (Handler_QueryGPUTelemetry h)"
  by (auto simp: final_handler_def Handler_QueryGPUTelemetry_def Let_def final_json split: option.splits sum.splits)

lemma final_AuthMiddleware: "final_handler nxt \<Longrightarrow> final_handler (AuthMiddleware auth nxt)"
  by (auto simp: final_handler_def AuthMiddleware_def final_calls_def)

lemma responseWriter_calls_response:
  assumes "responseWriter_calls as w = (w', out)" and "final_calls as"
    and "rw_written w \<longleftrightarrow> rs_status rs \<noteq> None" and "statusCode w = http_status rs"
  shows "fold http_call out rs = fold http_call as rs \<and> statusCode w' = http_status (fold http_call as rs)"
  using assms
proof (induction as arbitrary: w w' rs out)
  case Nil
  then show ?case by simp
next
  case (Cons a as)
  obtain w1 o1 where s1: "responseWriter_call a w = (w1, o1)" by (cases "responseWriter_call a w")
  obtain w2 o2 where s2: "responseWriter_calls as w1 = (w2, o2)" by (cases "responseWriter_calls as w1")
  have out: "out = o1 @ o2" "w' = w2" using Cons.prems(1) s1 s2 by auto
  have step: "fold http_call o1 rs = http_call a rs \<and>
      (rw_written w1 \<longleftrightarrow> rs_status (http_call a rs) \<noteq> None) \<and> statusCode w1 = http_status (http_call a rs)"
    using s1 Cons.prems(2-4)
    by (cases a) (auto simp: http_status_def final_calls_def informational_def Let_def split: if_splits option.splits)
  moreover have "final_calls as" using Cons.prems(2) by (simp add: final_calls_def)
  ultimately show ?case using Cons.IH [OF s2, of "http_call a rs"] out by simp
qed

section \<open>Tokens\<close>

lemma EqualFold_Bearer: "EqualFold ''bEARER'' ''Bearer''" "EqualFold ''Bearer'' ''Bearer''"
  by code_simp+

lemma bearer_token_accepts:
  assumes "tok \<noteq> []" and "\<forall>c \<in> set tok. plain c"
  shows "bearer_token (''Bearer '' @ tok) = tok"
proof -
  have "\<forall>c \<in> set ''Bearer''. plain c" by (simp add: plain_def)
  from Fields_two [OF _ assms(1) this assms(2)] have "Fields (''Bearer '' @ tok) = [''Bearer'', tok]"
    by simp
  then show ?thesis by (simp add: bearer_token_def EqualFold_Bearer)
qed

definition cors_headers :: "request \<Rightarrow> 'd gin_call list" where
  "cors_headers r =
     [Header ''Access-Control-Allow-Origin'' (if req_header r ''Origin'' = [] then ''*'' else req_header r ''Origin''),
      Header ''Access-Control-Allow-Methods'' ''GET,POST,PUT,PATCH,DELETE,OPTIONS'',
      Header ''Access-Control-Allow-Headers'' ''Authorization,Content-Type,Accept,Origin'',
      Header ''Access-Control-Allow-Credentials'' ''true'']"

lemma gin_cors_headers:
  "gin_cors nxt r =
     (if req_method r = ''OPTIONS'' then Inr (cors_headers r @ [AbortWithStatus 204])
      else bind_go (nxt r) (\<lambda>cs. Inr (cors_headers r @ cs)))"
  by (simp add: gin_cors_def cors_headers_def Let_def)

lemma atoi_samples:
  "Atoi ''4611686018427387905'' = Inr 4611686018427387905" "Atoi ''2'' = Inr 2" "Atoi ''4'' = Inr 4"
  by (simp_all add: Atoi_def is_digit_def digit_val_def int_min_def int_max_def)

lemma sint_samples: "sint (4611686018427387905 :: int64) = 4611686018427387905"
  by simp

lemma paginate_samples:
  "4 \<le> length items \<Longrightarrow>
     PaginateSlice items (CalculateOffset 4611686018427387905 2) (2 :: int64) = Inl SliceBounds"
  "4 \<le> length items \<Longrightarrow>
     PaginateSlice items (CalculateOffset 4611686018427387905 4) (4 :: int64) = Inr (take 4 items)"
  by (simp_all add: PaginateSlice_def CalculateOffset_def)

section \<open>Properties\<close>

text \<open>C29: Listing page after page gives every GPU exactly once, in sorted order: as long as the
  last index fits 64 bits, each page is answered, tells the total, and the pages in order make up
  the sorted list of the stored ids.\<close>

theorem list_pages_cover:
  assumes "st_ListGPUs store = Inr ids" and "0 < limit" and "length ids \<le> n * limit" and "n * limit < 2 ^ 63"
  shows "\<exists>resp. (\<forall>p \<in> {1..n}. Service_ListGPUs (NewService store SortStrings d) (of_nat p) (of_nat limit) order =
        Inr (Inr (resp p)) \<and> Total (resp p) = of_nat (length ids) \<and> length (Items (resp p)) \<le> limit) \<and>
    concat (map (\<lambda>p. Items (resp p)) [1..<Suc n]) = SortStrings ids order \<and>
    mset (SortStrings ids order) = mset ids"
proof -
  let ?srt = "SortStrings ids order"
  let ?resp = "\<lambda>p. \<lparr>Total = of_nat (length ?srt), RespPage = of_nat p, RespLimit = of_nat limit,
    Items = page_of p limit ?srt\<rparr>"
  have "Service_ListGPUs (NewService store SortStrings d) (of_nat p) (of_nat limit) order = Inr (Inr (?resp p))"
    if "p \<in> {1..n}" for p
  proof (rule Service_ListGPUs_page [OF assms(1)])
    have "p * limit \<le> n * limit" using that by simp
    with assms(4) show "p * limit < 2 ^ 63" by linarith
  qed (use that assms(2) in auto)
  moreover have "concat (map (\<lambda>p. Items (?resp p)) [1..<Suc n]) = ?srt"
    using concat_pages [of limit ?srt n] assms(3) by (simp add: string_sorter.same_length)
  ultimately show ?thesis
    by (intro exI [of _ ?resp])
       (simp add: string_sorter.same_length string_sorter.same_items page_of_def)
qed

definition three_gpus :: "nat Store" where
  "three_gpus =
     \<lparr>st_ListGPUs = Inr [''b'', ''c'', ''a''],
      st_QueryTelemetry = (\<lambda>g s e l p asc. ([length g], 1, None)), st_Close = None\<rparr>"

theorem list_pages_cover_witness:
  "\<exists>resp. Items (resp 1) @ Items (resp 2) = [''c'', ''b'', ''a''] \<and>
     Service_ListGPUs (NewService three_gpus SortStrings 0) 2 2 SortDescending = Inr (Inr (resp (2 :: nat)))"
proof -
  have "st_ListGPUs three_gpus = Inr [''b'', ''c'', ''a'']" by (simp add: three_gpus_def)
  from list_pages_cover [OF this, of 2 2 0 SortDescending] obtain resp where resp:
    "\<forall>p \<in> {1..2}. Service_ListGPUs (NewService three_gpus SortStrings 0) (of_nat p) (of_nat 2) SortDescending =
        Inr (Inr (resp p))"
    "concat (map (\<lambda>p. Items (resp p)) [1..<Suc 2]) = SortStrings [''b'', ''c'', ''a''] SortDescending"
    by auto
  have "SortStrings [''b'', ''c'', ''a''] SortDescending = [''c'', ''b'', ''a'']"
    by code_simp
  moreover have "Service_ListGPUs (NewService three_gpus SortStrings 0) 2 2 SortDescending = Inr (Inr (resp 2))"
    using bspec [OF resp(1), of 2] by simp
  ultimately show ?thesis
    using resp(2) by (intro exI [of _ resp]) (simp add: upt_rec numeral_2_eq_2)
qed

text \<open>C31: Pagination that passes validation can overflow 64 bits. The listing of page
  4611686018427387905 with limit 2 panics on a negative slice index, and with limit 4 it answers
  the first page; both parameters are accepted from the query string.\<close>

theorem pagination_overflow:
  assumes "st_ListGPUs store = Inr ids" and "4 \<le> length ids"
    and "req_query r ''page'' = Some [''4611686018427387905'']" and "req_query r ''sort'' = None"
  shows "(req_query r ''limit'' = Some [''2''] \<longrightarrow>
      Handler_ListGPUs (NewHandler store auth SortStrings d) r = Inl SliceBounds) \<and>
    (req_query r ''limit'' = Some [''4''] \<longrightarrow>
      Handler_ListGPUs (NewHandler store auth SortStrings d) r =
        Inr (jsonOK (ListBody \<lparr>Total = of_nat (length ids), RespPage = 4611686018427387905, RespLimit = 4,
          Items = take 4 (sort ids)\<rparr>)))"
proof -
  note defs = Handler_ListGPUs_def NewHandler_def NewService_def NewDefaultQueryParser_def ParseInt_def
    ParseSortOrder_def Service_ListGPUs_def Validate_def SortStrings_def Let_def
  show ?thesis
    by (simp add: assms defs atoi_samples paginate_samples sint_samples)
qed

definition page_request :: "string \<Rightarrow> string \<Rightarrow> request" where
  "page_request page limit =
     \<lparr>req_method = ''GET'', req_path = ''/api/v1/gpus'',
      req_query = [''page'' \<mapsto> [page], ''limit'' \<mapsto> [limit]], req_header = \<lambda>_. []\<rparr>"

definition four_gpus :: "nat Store" where
  "four_gpus =
     \<lparr>st_ListGPUs = Inr [''a'', ''b'', ''c'', ''d'', ''e''],
      st_QueryTelemetry = (\<lambda>g s e l p asc. ([], 0, None)), st_Close = None\<rparr>"

theorem pagination_overflow_witness:
  "Handler_ListGPUs (NewHandler four_gpus (\<lambda>_. True) SortStrings 100) (page_request ''4611686018427387905'' ''2'') =
     Inl SliceBounds"
  using pagination_overflow [of four_gpus "[''a'', ''b'', ''c'', ''d'', ''e'']"
      "page_request ''4611686018427387905'' ''2''" "\<lambda>_. True" 100]
  by (simp add: four_gpus_def page_request_def)

text \<open>With a token configured, a request for the API that does not carry it is answered 401
  whatever the handler and the store are: it does not reach them. One with the header "Bearer"
  and the token is served. Preflight requests are answered 204 without a token.\<close>

theorem api_requires_token:
  assumes "tok \<noteq> []" and "\<forall>c \<in> set tok. plain c" and "req_method r = ''GET''"
    and "find (\<lambda>(pat, e). matches pat (req_path r)) gin_routes = Some (pat, EP_ListGPUs)"
  shows "(bearer_token (req_header r ''Authorization'') \<noteq> tok \<longrightarrow>
      RegisterGinRoutes matches wd rf h (Authenticate (NewTokenAuthenticator tok)) r =
        Inr (cors_headers r @ [AbortWithStatusJSON 401 (ErrorBody ''unauthorized''),
             LogRequest ''GET'' (req_path r) 401])) \<and>
    (req_header r ''Authorization'' = ''Bearer '' @ tok \<longrightarrow>
      RegisterGinRoutes matches wd rf h (Authenticate (NewTokenAuthenticator tok)) r =
        bind_go (Handler_ListGPUs h r) (\<lambda>as.
          Inr (cors_headers r @ map Writer as @ [LogRequest ''GET'' (req_path r) (gin_status 200 (map Writer as))]))) \<and>
    RegisterGinRoutes matches wd rf h (Authenticate (NewTokenAuthenticator tok)) (r\<lparr>req_method := ''OPTIONS''\<rparr>) =
      Inr (cors_headers r @ [AbortWithStatus 204])"
proof -
  let ?auth = "Authenticate (NewTokenAuthenticator tok)"
  have auth: "?auth t \<longleftrightarrow> t = tok" for t
    using assms(1) by (simp add: Authenticate_def NewTokenAuthenticator_def)
  have run: "RegisterGinRoutes matches wd rf h ?auth r =
      bind_go (gin_logging (gin_auth ?auth (Gin_ListGPUs (Some h))) r) (\<lambda>cs. Inr (cors_headers r @ cs))"
    unfolding RegisterGinRoutes_def gin_cors_headers using assms(3,4)
    by (simp add: run_endpoint_def case_prod_unfold)
  have tok: "bearer_token (''Bearer '' @ tok) = tok"
    by (rule bearer_token_accepts [OF assms(1,2)])
  have options: "RegisterGinRoutes matches wd rf h ?auth (r\<lparr>req_method := ''OPTIONS''\<rparr>) =
      Inr (cors_headers r @ [AbortWithStatus 204])"
    by (simp add: RegisterGinRoutes_def gin_cors_headers cors_headers_def)
  show ?thesis
    unfolding run options
    by (simp add: gin_logging_def gin_auth_def auth Gin_ListGPUs_def bind_go_assoc assms(3) tok del: append.simps)
qed

theorem api_requires_token_witness:
  "RegisterGinRoutes (\<lambda>pat path. pat = path) None (\<lambda>_. None) (NewHandler three_gpus (\<lambda>_. True) SortStrings 100)
     (Authenticate (NewTokenAuthenticator ''s3cret'')) (page_request ''1'' ''2'') =
   Inr (cors_headers (page_request ''1'' ''2'') @
     [AbortWithStatusJSON 401 (ErrorBody ''unauthorized''), LogRequest ''GET'' ''/api/v1/gpus'' 401])"
  using api_requires_token [of "''s3cret''" "page_request ''1'' ''2''" "\<lambda>pat path. pat = path" "''/api/v1/gpus''"
      None "\<lambda>_. None" "NewHandler three_gpus (\<lambda>_. True) SortStrings 100"]
  by (simp add: page_request_def gin_routes_def plain_def bearer_token_def)

text \<open>C37: The logging middleware does not change what the client sees of a handler that writes final
  statuses only (none of 1xx but 101): the calls its wrapper hands on have the same status, headers and
  body under the rules of \<open>net/http\<close>, and the status it logs is the one that was sent, also when a
  handler never calls \<open>WriteHeader\<close> or calls it twice; a panic passes through. The handlers of the program,
  with the authentication in front, are of this kind.\<close>

theorem logging_is_transparent:
  "(final_handler nxt \<longrightarrow>
     (case nxt r of
        Inl p \<Rightarrow> LoggingMiddleware nxt r = Inl p
      | Inr calls \<Rightarrow> (\<exists>out. LoggingMiddleware nxt r = Inr (out, http_status (http_response calls)) \<and>
          http_response out = http_response calls))) \<and>
   final_handler (AuthMiddleware auth (Handler_ListGPUs h)) \<and>
   final_handler (AuthMiddleware auth (Handler_QueryGPUTelemetry h))"
proof (intro conjI impI)
  assume final: "final_handler nxt"
  show "case nxt r of
        Inl p \<Rightarrow> LoggingMiddleware nxt r = Inl p
      | Inr calls \<Rightarrow> (\<exists>out. LoggingMiddleware nxt r = Inr (out, http_status (http_response calls)) \<and>
          http_response out = http_response calls)"
  proof (cases "nxt r")
    case (Inr calls)
    let ?w = "\<lparr>statusCode = 200, rw_written = False\<rparr>"
    obtain w out where out: "responseWriter_calls calls ?w = (w, out)"
      by (cases "responseWriter_calls calls ?w")
    have "final_calls calls" using final Inr by (auto simp: final_handler_def split: sum.splits dest: spec [of _ r])
    from responseWriter_calls_response [OF out this, of empty_response]
    show ?thesis
      by (simp add: Inr LoggingMiddleware_def out http_response_def http_status_def empty_response_def)
  qed (simp add: LoggingMiddleware_def)
qed (intro final_AuthMiddleware final_ListGPUs final_QueryGPUTelemetry)+

theorem logging_is_transparent_witness:
  "\<exists>out. LoggingMiddleware (\<lambda>r. Inr [WriteHeader 404, WriteHeader 200, WriteBody (ErrorBody ''x'')]) (page_request ''1'' ''2'') =
     Inr (out, 404) \<and>
   http_response out = (http_response [WriteHeader 404, WriteBody (ErrorBody ''x'')] :: nat response)"
proof -
  let ?nxt = "\<lambda>r :: request. Inr [WriteHeader 404, WriteHeader 200, WriteBody (ErrorBody ''x'')] :: nat action list go"
  let ?resp = "http_response [WriteHeader 404, WriteHeader 200, WriteBody (ErrorBody ''x'')] :: nat response"
  have "final_handler ?nxt" by (simp add: final_handler_def final_calls_def)
  with logging_is_transparent [of ?nxt "page_request ''1'' ''2''" "\<lambda>_. True"
      "NewHandler three_gpus (\<lambda>_. True) SortStrings 100"] obtain out where
    "LoggingMiddleware ?nxt (page_request ''1'' ''2'') =
      Inr (out, http_status ?resp)"
    "http_response out = ?resp"
    by auto
  then show ?thesis
    by (intro exI [of _ out]) (simp add: http_response_def http_status_def empty_response_def informational_def Let_def)
qed

text \<open>The wrapper takes an informational status for the final one: the status behind it is lost.\<close>

lemma early_hints_hide_status:
  assumes "nxt r = Inr [WriteHeader 103, WriteHeader 404]"
  shows "http_status (http_response [WriteHeader 103, WriteHeader 404]) = 404"
    and "LoggingMiddleware nxt r = Inr ([WriteHeader 103], 103)" and "http_status (http_response [WriteHeader 103]) = 200"
  using assms
  by (simp_all add: LoggingMiddleware_def http_status_def http_response_def empty_response_def informational_def)

text \<open>C28: A telemetry request for a GPU reaches the store with exactly that GPU id, the given times,
  the positive limit and page that were asked for or else the defaults, and the requested order;
  the answer carries the store's documents and total. A time that does not parse is answered 400
  and a failing store 500.\<close>

theorem telemetry_request_reaches_store:
  assumes "gid \<noteq> []" and "CHR ''/'' \<notin> set gid" and "gid \<noteq> ''gpus''"
    and "req_path r = ''/api/v1/gpus/'' @ gid @ ''/telemetry''" and "0 < sint d"
  shows "Handler_QueryGPUTelemetry (NewHandler store auth srt d) r =
    (let p = NewDefaultQueryParser (req_query r);
         lim = ParseInt p ''limit'' d; pg = ParseInt p ''page'' 1; asc = ParseSortOrder p ''sort'' SortAscending
     in case (ParseTimeParam p ''start_time'', ParseTimeParam p ''end_time'') of
          (Inl _, _) \<Rightarrow> Inr (jsonError 400 ''invalid start_time format'')
        | (_, Inl _) \<Rightarrow> Inr (jsonError 400 ''invalid end_time format'')
        | (Inr st, Inr en) \<Rightarrow>
            (case st_QueryTelemetry store gid st en lim pg (asc = SortAscending) of
               (_, _, Some _) \<Rightarrow> Inr (jsonError 500 ''failed to query telemetry'')
             | (docs, tot, None) \<Rightarrow>
                 Inr (jsonOK (QueryBody \<lparr>Total = tot, RespPage = pg, RespLimit = lim, Items = docs\<rparr>)))) \<and>
    (\<forall>p. 0 < sint (ParseInt p ''limit'' d) \<and> 0 < sint (ParseInt p ''page'' 1))"
proof -
  have parts: "req_path r = join CHR ''/'' [[], ''api'', ''v1'', ''gpus'', gid, ''telemetry'']"
    by (simp add: assms(4))
  have "extractGPUIDFromPath (req_path r) = gid"
    unfolding extractGPUIDFromPath_def parts using assms(2)
    by (subst Split_join) auto
  moreover have pos: "0 < sint (ParseInt p ''limit'' d)" "0 < sint (ParseInt p ''page'' 1)" for p
    using ParseInt_pos [OF assms(5)] ParseInt_pos [of 1] by simp_all
  then have "Validate \<lparr>Limit = ParseInt p ''limit'' d, Page = ParseInt p ''page'' 1\<rparr> = None" for p
    by (simp add: Validate_def not_le)
  ultimately show ?thesis
    using assms(1,5) pos
    by (auto simp: Handler_QueryGPUTelemetry_def NewHandler_def NewService_def Let_def
        Service_QueryTelemetry_def split: sum.split prod.split option.split)
qed

definition telemetry_request :: request where
  "telemetry_request =
     \<lparr>req_method = ''GET'', req_path = ''/api/v1/gpus/GPU-7/telemetry'',
      req_query = [''limit'' \<mapsto> [''-3''], ''sort'' \<mapsto> [''DESC'']], req_header = \<lambda>_. []\<rparr>"

theorem telemetry_request_reaches_store_witness:
  "Handler_QueryGPUTelemetry (NewHandler three_gpus (\<lambda>_. True) SortStrings 50) telemetry_request =
     Inr (jsonOK (QueryBody \<lparr>Total = 1, RespPage = 1, RespLimit = 50, Items = [5]\<rparr>))"
  using telemetry_request_reaches_store [of "''GPU-7''" telemetry_request 50 three_gpus "\<lambda>_. True" SortStrings]
  by (simp add: telemetry_request_def three_gpus_def Let_def NewDefaultQueryParser_def ParseTimeParam_def
      ParseInt_def ParseSortOrder_def Atoi_def is_digit_def digit_val_def int_min_def int_max_def numeral_eq_Suc)

end
