(* ===== verification/StorageProps.thy ===== *)
theory StorageProps
  imports Storage MetricsProps
begin

text \<open>
  What the MongoDB driver and server document, as named hypotheses on the collection, and telemetry queries
  from the service down to them. A document is stored as BSON: a time is a date in milliseconds,
  and a document without an \<open>_id\<close> gets an object id. \<open>answers_queries\<close> is what queries are answered with:
  the count, and the documents that match a filter, sorted by their timestamps and cut by limit and skip; a
  negative skip is refused. Documents with the same timestamp come in an order that may differ from one
  query to the next.
\<close>

section \<open>What is stored\<close>

text \<open>Values decoded from JSON have no times in them. Milliseconds from January 1, 1970: \<open>primitive.NewDateTimeFromTime\<close>.\<close>

definition date_ms :: "time \<Rightarrow> int" where
  "date_ms t = (abs_seconds t - 62135596800) * 1000 + int (nsec t) div 1000000"

fun bson_value :: "doc_value \<Rightarrow> doc_value" where
  "bson_value (DTime t) = DDate (date_ms t)"
| "bson_value v = v"

definition bson_document :: "string \<Rightarrow> document \<Rightarrow> document" where
  "bson_document oid d =
     (if d ''_id'' = None then (map_option bson_value \<circ> d)(''_id'' \<mapsto> DObjectID oid) else map_option bson_value \<circ> d)"

text \<open>A collection that keeps what it does not refuse. The object id of a new document is the argument
  \<open>oid\<close> of the number of documents that are there.\<close>

definition insert_document ::
    "(nat \<Rightarrow> string) \<Rightarrow> (document list \<Rightarrow> document \<Rightarrow> bool) \<Rightarrow> document \<Rightarrow> document list \<Rightarrow> document list" where
  "insert_document oid refuses d c = (if refuses c d then c else c @ [bson_document (oid (length c)) d])"

definition keeps ::
    "document list CollectionAPI \<Rightarrow> (nat \<Rightarrow> string) \<Rightarrow> (document list \<Rightarrow> document \<Rightarrow> bool) \<Rightarrow> bool" where
  "keeps col oid refuses \<longleftrightarrow>
     (\<forall>d c. snd (c_InsertOne col d c) = insert_document oid refuses d c \<and>
        (fst (c_InsertOne col d c) = None \<longleftrightarrow> \<not> refuses c d))"

text \<open>What a collection has of documents none of which it refuses.\<close>

definition bson_documents :: "(nat \<Rightarrow> string) \<Rightarrow> nat \<Rightarrow> document list \<Rightarrow> document list" where
  "bson_documents oid k ds = map (\<lambda>(i, d). bson_document (oid i) d) (enumerate k ds)"

lemma fold_insert_document:
  assumes "\<forall>c. \<forall>d \<in> set ds. \<not> refuses c d"
  shows "fold (insert_document oid refuses) ds c = c @ bson_documents oid (length c) ds"
  using assms
proof (induction ds arbitrary: c)
  case (Cons d ds)
  have "insert_document oid refuses d c = c @ [bson_document (oid (length c)) d]"
    using Cons.prems by (simp add: insert_document_def)
  with Cons show ?case by (simp add: bson_documents_def)
qed (simp add: bson_documents_def)

section \<open>What a collection answers\<close>

text \<open>A condition on a field holds of a value, or of one of the values of an array.\<close>

definition some_value :: "(doc_value \<Rightarrow> bool) \<Rightarrow> doc_value option \<Rightarrow> bool" where
  "some_value P v \<longleftrightarrow>
     (case v of None \<Rightarrow> False | Some (DArr xs) \<Rightarrow> P (DArr xs) \<or> (\<exists>x \<in> set xs. P x) | Some w \<Rightarrow> P w)"

fun date_in :: "(int \<Rightarrow> bool) \<Rightarrow> doc_value \<Rightarrow> bool" where
  "date_in P (DDate n) = P n"
| "date_in P _ = False"

definition in_range :: "time option \<Rightarrow> time option \<Rightarrow> doc_value option \<Rightarrow> bool" where
  "in_range st en v \<longleftrightarrow>
     (case st of None \<Rightarrow> True | Some s \<Rightarrow> some_value (date_in (\<lambda>n. date_ms s \<le> n)) v) \<and>
     (case en of None \<Rightarrow> True | Some e \<Rightarrow> some_value (date_in (\<lambda>n. n \<le> date_ms e)) v)"

definition matches :: "query_filter \<Rightarrow> document \<Rightarrow> bool" where
  "matches f d \<longleftrightarrow>
     (case flt_or f of None \<Rightarrow> True | Some kvs \<Rightarrow> \<exists>(k, v) \<in> set kvs. some_value (\<lambda>w. w = DStr v) (d k)) \<and>
     (case flt_timestamp f of None \<Rightarrow> True | Some (st, en) \<Rightarrow> in_range st en (d ''timestamp''))"

definition cut :: "FindOptions \<Rightarrow> document list \<Rightarrow> document list" where
  "cut opts xs = take (nat (sint (opt_limit opts))) (drop (nat (sint (opt_skip opts))) xs)"

text \<open>The order of two documents that both have a date as their timestamp.\<close>

definition stamp :: "document \<Rightarrow> int option" where
  "stamp d = (case d ''timestamp'' of Some (DDate n) \<Rightarrow> Some n | _ \<Rightarrow> None)"

definition in_order :: "bool \<Rightarrow> document \<Rightarrow> document \<Rightarrow> bool" where
  "in_order asc d d' \<longleftrightarrow>
     (case (stamp d, stamp d') of (Some m, Some n) \<Rightarrow> if asc then m \<le> n else n \<le> m | _ \<Rightarrow> True)"

text \<open>\<open>found\<close>: the matching documents, sorted, in an order of this query's own.\<close>

definition answers_queries :: "'c CollectionAPI \<Rightarrow> 'c \<Rightarrow> document list \<Rightarrow> bool" where
  "answers_queries col c docs \<longleftrightarrow>
     (\<forall>f. c_CountDocuments col f c = Inr (of_nat (length (filter (matches f) docs)))) \<and>
     (\<forall>f opts asc. opt_sort opts = (''timestamp'', if asc then 1 else -1) \<longrightarrow> 0 < sint (opt_limit opts) \<longrightarrow>
        (if 0 \<le> sint (opt_skip opts)
         then \<exists>found. mset found = filter_mset (matches f) (mset docs) \<and> sorted_wrt (in_order asc) found \<and>
           c_Find col f opts c = Inr \<lparr>cur_docs = map Inr (cut opts found), cur_err = None\<rparr>
         else \<exists>e. c_Find col f opts c = Inl e))"

lemma answers_queriesD:
  assumes "answers_queries col c docs"
  shows "c_CountDocuments col f c = Inr (of_nat (length (filter (matches f) docs)))"
    and "opt_sort opts = (''timestamp'', if asc then 1 else -1) \<Longrightarrow> 0 < sint (opt_limit opts) \<Longrightarrow>
      0 \<le> sint (opt_skip opts) \<Longrightarrow>
      \<exists>found. mset found = filter_mset (matches f) (mset docs) \<and> sorted_wrt (in_order asc) found \<and>
        c_Find col f opts c = Inr \<lparr>cur_docs = map Inr (cut opts found), cur_err = None\<rparr>"
  using assms unfolding answers_queries_def by metis+

text \<open>The dates of the documents are there and all different: then there is only one order.\<close>

definition dated :: "document list \<Rightarrow> bool" where
  "dated ds \<longleftrightarrow> None \<notin> stamp ` set ds \<and> distinct (map stamp ds)"

lemma dated_mset:
  assumes "mset xs = mset ys" and "dated xs"
  shows "dated ys"
proof -
  have "mset (map stamp xs) = mset (map stamp ys)" using assms(1) by (simp add: mset_map)
  then have "distinct (map stamp ys)" using assms(2) by (metis dated_def mset_eq_imp_distinct_iff)
  with assms show ?thesis by (metis dated_def mset_eq_setD)
qed

lemma dated_sorted:
  assumes "dated ds" and "sorted_wrt (in_order asc) ds"
  shows "sorted (map (\<lambda>d. if asc then the (stamp d) else - the (stamp d)) ds)"
proof -
  have st: "\<exists>n. stamp d = Some n" if "d \<in> set ds" for d
    using assms(1) that by (cases "stamp d") (force simp: dated_def image_iff)+
  have "sorted_wrt (\<lambda>d d'. (if asc then the (stamp d) else - the (stamp d)) \<le> (if asc then the (stamp d') else - the (stamp d'))) ds"
  proof (rule sorted_wrt_mono_rel [OF _ assms(2)])
    fix d d' assume "d \<in> set ds" "d' \<in> set ds" "in_order asc d d'"
    then show "(if asc then the (stamp d) else - the (stamp d)) \<le> (if asc then the (stamp d') else - the (stamp d'))"
      using st [of d] st [of d'] by (auto simp: in_order_def split: if_splits)
  qed
  then show ?thesis by (simp add: sorted_wrt_map)
qed

lemma one_order:
  assumes "mset xs = mset ys" and "dated xs"
    and "sorted_wrt (in_order asc) xs" and "sorted_wrt (in_order asc) ys"
  shows "xs = ys"
proof -
  let ?k = "\<lambda>d. if asc then the (stamp d) else - the (stamp d)"
  have set: "set xs = set ys" using assms(1) by (rule mset_eq_setD)
  note ys = dated_mset [OF assms(1,2)]
  have inj: "inj_on ?k (set ds)" if "dated ds" for ds
  proof -
    have "inj_on stamp (set ds)" "None \<notin> stamp ` set ds" using that by (simp_all add: dated_def distinct_map)
    then show ?thesis by (auto simp: inj_on_def image_iff) (metis option.collapse)+
  qed
  have "distinct ds" if "dated ds" for ds using that by (simp add: dated_def distinct_map)
  with inj have "distinct (map ?k ds)" if "dated ds" for ds using that by (simp add: distinct_map)
  with map_sorted_distinct_set_unique [of ?k xs ys] inj [OF assms(2)] set
    dated_sorted [OF assms(2,3)] dated_sorted [OF ys assms(4)] assms(2) ys
  show ?thesis by simp
qed

section \<open>Pages of telemetry\<close>

lemma find_options_page:
  assumes "1 \<le> page" and "0 < limit" and "page * limit < 2 ^ 63"
  shows "sint (opt_limit (find_options (of_nat limit) (of_nat page) asc)) = int limit"
    and "sint (opt_skip (find_options (of_nat limit) (of_nat page) asc)) = int ((page - 1) * limit)"
    and "opt_sort (find_options (of_nat limit) (of_nat page) asc) = (''timestamp'', if asc then 1 else -1)"
proof -
  obtain k where k: "page = Suc k" using assms(1) by (cases page) auto
  have "page \<le> page * limit" "limit \<le> page * limit" using assms(1,2) by simp_all
  moreover have "k * limit < page * limit" using assms(2) by (simp add: k)
  ultimately have b: "page < 2 ^ 63" "limit < 2 ^ 63" "k * limit < 2 ^ 63" using assms(3) by linarith+
  note s = sint64_of_nat [OF b(1)] sint64_of_nat [OF b(2)] sint64_of_nat [OF b(3)]
  have off: "(of_nat page - 1) * of_nat limit = (of_nat (k * limit) :: int64)"
    by (simp add: k)
  show "sint (opt_limit (find_options (of_nat limit) (of_nat page) asc)) = int limit"
    using assms(2) by (simp add: find_options_def Let_def s)
  show "sint (opt_skip (find_options (of_nat limit) (of_nat page) asc)) = int ((page - 1) * limit)"
    using assms(2) s off k by (cases k) (auto simp: find_options_def Let_def simp del: of_nat_mult)
  show "opt_sort (find_options (of_nat limit) (of_nat page) asc) = (''timestamp'', if asc then 1 else -1)"
    by (simp add: find_options_def Let_def)
qed

lemma Mongo_QueryTelemetry_answer:
  assumes "c_CountDocuments (ms_collection ms) (telemetry_filter gpu st en) c = Inr n"
    and "c_Find (ms_collection ms) (telemetry_filter gpu st en) (find_options limit page asc) c =
      Inr \<lparr>cur_docs = map Inr ds, cur_err = None\<rparr>"
  shows "Mongo_QueryTelemetry ms c gpu st en limit page asc = (ds, n, None)"
  using assms by (simp add: Mongo_QueryTelemetry_def Let_def cursor_loop_docs)

lemma Service_QueryTelemetry_answer:
  assumes "st_QueryTelemetry (svc_store s) gpu st en limit page (order = SortAscending) = (ds, n, None)"
    and "0 < sint limit" and "0 < sint page"
  shows "Service_QueryTelemetry s gpu st en limit page order =
    Inr \<lparr>Total = n, RespPage = page, RespLimit = limit, Items = ds\<rparr>"
  using assms by (simp add: Service_QueryTelemetry_def Validate_def)

lemma page_of_first: "length xs \<le> limit \<Longrightarrow> page_of p limit xs = (if p \<le> 1 then xs else [])"
proof -
  assume fits: "length xs \<le> limit"
  have "length xs \<le> (p - 1) * limit" if "\<not> p \<le> 1"
  proof -
    from that obtain k where "p - 1 = Suc k" using not0_implies_Suc [of "p - 1"] by fastforce
    then show ?thesis using fits by simp
  qed
  with fits show ?thesis by (simp add: page_of_def)
qed

lemma page_of_mset: "mset (page_of p limit xs) \<subseteq># mset xs"
proof -
  have "mset xs = mset (take ((p - 1) * limit) xs) + mset (drop ((p - 1) * limit) xs)"
    by (metis append_take_drop_id mset_append)
  moreover have "mset (drop ((p - 1) * limit) xs) = mset (page_of p limit xs) + mset (drop limit (drop ((p - 1) * limit) xs))"
    unfolding page_of_def by (metis append_take_drop_id mset_append)
  ultimately show ?thesis by (simp add: ac_simps)
qed

text \<open>One page of a query.\<close>

lemma telemetry_page:
  assumes "answers_queries (ms_collection ms) c docs" and "1 \<le> p" and "0 < limit" and "p * limit < 2 ^ 63"
  shows "\<exists>found. mset found = filter_mset (matches (telemetry_filter gpu st en)) (mset docs) \<and>
    sorted_wrt (in_order (order = SortAscending)) found \<and>
    Service_QueryTelemetry
      (NewService (adapter_store (NewStoreAdapter (Mongo_QueryTelemetry ms c) (Mongo_ListGPUs ms c) cl)) srt d)
      gpu st en (of_nat limit) (of_nat p) order =
    Inr \<lparr>Total = of_nat (length (filter (matches (telemetry_filter gpu st en)) docs)),
         RespPage = of_nat p, RespLimit = of_nat limit, Items = page_of p limit found\<rparr>"
proof -
  let ?f = "telemetry_filter gpu st en" and ?asc = "order = SortAscending"
  let ?o = "find_options (of_nat limit) (of_nat p) ?asc"
  note o = find_options_page [OF assms(2-4), of ?asc]
  have "0 < sint (opt_limit ?o)" "0 \<le> sint (opt_skip ?o)" using o(1,2) assms(3) by (simp_all del: of_nat_mult)
  from answers_queriesD(2) [OF assms(1) o(3) this, of ?f] obtain found where
    found: "mset found = filter_mset (matches ?f) (mset docs)" "sorted_wrt (in_order ?asc) found"
    and find: "c_Find (ms_collection ms) ?f ?o c = Inr \<lparr>cur_docs = map Inr (cut ?o found), cur_err = None\<rparr>"
    by blast
  have "cut ?o found = page_of p limit found"
    using o by (simp add: cut_def page_of_def del: of_nat_mult)
  with Mongo_QueryTelemetry_answer [OF answers_queriesD(1) [OF assms(1)] find]
  have q: "Mongo_QueryTelemetry ms c gpu st en (of_nat limit) (of_nat p) ?asc =
      (page_of p limit found, of_nat (length (filter (matches ?f) docs)), None)" by simp
  have "p \<le> p * limit" "limit \<le> p * limit" using assms(2,3) by simp_all
  then have "p < 2 ^ 63" "limit < 2 ^ 63" using assms(4) by linarith+
  then have "0 < sint (of_nat p :: int64)" "0 < sint (of_nat limit :: int64)"
    using assms(2,3) by (simp_all add: sint64_of_nat)
  with q found show ?thesis
    by (intro exI [of _ found] conjI Service_QueryTelemetry_answer)
      (simp_all add: NewService_def adapter_store_def NewStoreAdapter_def Adapter_QueryTelemetry_def)
qed

lemma telemetry_pages:
  assumes "answers_queries (ms_collection ms) c docs"
    and "0 < limit" and "n * limit < 2 ^ 63" and "length docs \<le> n * limit"
  shows "\<exists>page. (\<forall>p \<in> {1..n}.
      Service_QueryTelemetry
        (NewService (adapter_store (NewStoreAdapter (Mongo_QueryTelemetry ms c) (Mongo_ListGPUs ms c) cl)) srt d)
        gpu st en (of_nat limit) (of_nat p) order =
      Inr \<lparr>Total = of_nat (length (filter (matches (telemetry_filter gpu st en)) docs)),
           RespPage = of_nat p, RespLimit = of_nat limit, Items = page p\<rparr> \<and>
      mset (page p) \<subseteq># mset (filter (matches (telemetry_filter gpu st en)) docs) \<and>
      length (page p) = min limit (length (filter (matches (telemetry_filter gpu st en)) docs) - (p - 1) * limit)) \<and>
    (dated (filter (matches (telemetry_filter gpu st en)) docs) \<or>
     length (filter (matches (telemetry_filter gpu st en)) docs) \<le> limit \<longrightarrow>
       mset (concat (map page [1..<Suc n])) = mset (filter (matches (telemetry_filter gpu st en)) docs) \<and>
       sorted_wrt (in_order (order = SortAscending)) (concat (map page [1..<Suc n])))"
proof -
  let ?f = "telemetry_filter gpu st en" and ?asc = "order = SortAscending"
  let ?all = "filter (matches ?f) docs"
  let ?ok = "\<lambda>p found. mset found = mset ?all \<and> sorted_wrt (in_order ?asc) found \<and>
    Service_QueryTelemetry
      (NewService (adapter_store (NewStoreAdapter (Mongo_QueryTelemetry ms c) (Mongo_ListGPUs ms c) cl)) srt d)
      gpu st en (of_nat limit) (of_nat p) order =
    Inr \<lparr>Total = of_nat (length ?all), RespPage = of_nat p, RespLimit = of_nat limit, Items = page_of p limit found\<rparr>"
  have "\<exists>found. ?ok p found" if "p \<in> {1..n}" for p
  proof -
    have p: "1 \<le> p" "p * limit \<le> n * limit" using that by simp_all
    then have "p * limit < 2 ^ 63" using assms(3) by linarith
    from telemetry_page [OF assms(1) p(1) assms(2) this] show ?thesis by (simp only: mset_filter)
  qed
  then have "\<forall>p \<in> {1..n}. \<exists>found. ?ok p found" by blast
  then obtain found where found: "\<And>p. p \<in> {1..n} \<Longrightarrow> ?ok p (found p)" by (metis (no_types, lifting))
  have len: "length (found p) = length ?all" if "p \<in> {1..n}" for p
    using found [OF that] by (metis size_mset)
  let ?page = "\<lambda>p. page_of p limit (found p)"
  have small: "length ?all \<le> n * limit" using assms(4) length_filter_le [of "matches ?f" docs] by linarith
  have whole: "mset (concat (map ?page [1..<Suc n])) = mset ?all \<and> sorted_wrt (in_order ?asc) (concat (map ?page [1..<Suc n]))"
    if one: "dated ?all \<or> length ?all \<le> limit"
  proof (cases "n = 0")
    case True
    then have "length ?all = 0" using small by simp
    then have "?all = []" by (simp only: length_0_conv)
    then show ?thesis unfolding True by simp
  next
    case False
    then have first: "1 \<in> {1..n}" by simp
    have "?page p = page_of p limit (found 1)" if p: "p \<in> {1..n}" for p
    proof (cases "length ?all \<le> limit")
      case True
      then show ?thesis using len [OF p] len [OF first] found [OF p] p
        by (cases "p = 1") (simp_all add: page_of_first)
    next
      case False
      with one have "dated ?all" by blast
      then have "dated (found p)" using found [OF p] dated_mset by metis
      with one_order [of "found p" "found 1" ?asc] found [OF p] found [OF first] show ?thesis by simp
    qed
    then have "map ?page [1..<Suc n] = map (\<lambda>p. page_of p limit (found 1)) [1..<Suc n]"
      by (intro map_cong refl) (simp only: set_upt atLeastLessThanSuc_atLeastAtMost)
    then have "concat (map ?page [1..<Suc n]) = found 1"
      using small len [OF first] by (simp only: concat_pages take_all)
    with found [OF first] show ?thesis by simp
  qed
  have "length (?page p) = min limit (length ?all - (p - 1) * limit)" if "p \<in> {1..n}" for p
    using len [OF that] by (simp add: page_of_def)
  moreover have "mset (?page p) \<subseteq># mset ?all" if "p \<in> {1..n}" for p
    using found [OF that] page_of_mset [of p limit "found p"] by simp
  ultimately show ?thesis using found whole by (intro exI [of _ ?page]) blast
qed

text \<open>C19: The pages of a telemetry query. Each page the service returns has documents stored for the GPU (by
  uuid or gpu_id) whose timestamps lie between the bounds, none twice on a page, as many as are left for
  it, and carries the number of all of them. Following the pages from the first gives all of them, each
  once, in the order of their timestamps, when they fit on one page or when their timestamps, which the
  database keeps in milliseconds, are all different; MongoDB fixes no order of equal ones, and the code
  sorts by nothing else. This is as long as the collection answers as documented and does not change
  meanwhile, and page times limit stays below 2^63.\<close>

theorem telemetry_pages_cover:
  assumes "answers_queries (ms_collection ms) c docs"
    and "0 < limit" and "n * limit < 2 ^ 63" and "length docs \<le> n * limit"
  shows "\<exists>page. (\<forall>p \<in> {1..n}.
      Service_QueryTelemetry
        (NewService (adapter_store (NewStoreAdapter (Mongo_QueryTelemetry ms c) (Mongo_ListGPUs ms c) cl)) srt d)
        gpu st en (of_nat limit) (of_nat p) order =
      Inr \<lparr>Total = of_nat (length (filter (matches (telemetry_filter gpu st en)) docs)),
           RespPage = of_nat p, RespLimit = of_nat limit, Items = page p\<rparr> \<and>
      mset (page p) \<subseteq># mset (filter (matches (telemetry_filter gpu st en)) docs) \<and>
      length (page p) = min limit (length (filter (matches (telemetry_filter gpu st en)) docs) - (p - 1) * limit)) \<and>
    (dated (filter (matches (telemetry_filter gpu st en)) docs) \<or>
     length (filter (matches (telemetry_filter gpu st en)) docs) \<le> limit \<longrightarrow>
       mset (concat (map page [1..<Suc n])) = mset (filter (matches (telemetry_filter gpu st en)) docs) \<and>
       sorted_wrt (in_order (order = SortAscending)) (concat (map page [1..<Suc n])))"
  by (rule telemetry_pages [OF assms])

text \<open>A collection in memory. Documents with the same timestamp come in an order that depends on
  \<open>skip\<close>: as they were stored, or for every other page the other way round.\<close>

definition found_in_memory :: "bool \<Rightarrow> bool \<Rightarrow> query_filter \<Rightarrow> document list \<Rightarrow> document list" where
  "found_in_memory turn asc f ds =
     (let xs = filter (matches f) ds in
      sort_key (\<lambda>d. case stamp d of None \<Rightarrow> 0 | Some n \<Rightarrow> if asc then n else - n) (if turn then rev xs else xs))"

definition memory_collection :: "document list CollectionAPI" where
  "memory_collection =
     \<lparr>c_InsertOne = (\<lambda>d ds. (None, insert_document (\<lambda>_. []) (\<lambda>_ _. False) d ds)),
      c_Distinct = (\<lambda>k ds. Inr (List.map_filter (\<lambda>d. d k) ds)),
      c_CountDocuments = (\<lambda>f ds. Inr (of_nat (length (filter (matches f) ds)))),
      c_Find = (\<lambda>f opts ds.
        if 0 \<le> sint (opt_skip opts)
        then Inr \<lparr>cur_docs = map Inr (cut opts
                    (found_in_memory (odd (sint (opt_skip opts))) (snd (opt_sort opts) = 1) f ds)),
                  cur_err = None\<rparr>
        else Inl (OtherError ''negative skip''))\<rparr>"

lemma found_in_memory_sorted: "sorted_wrt (in_order asc) (found_in_memory turn asc f ds)"
proof -
  let ?k = "\<lambda>d. case stamp d of None \<Rightarrow> 0 | Some n \<Rightarrow> if asc then n else - n"
  have "sorted (map ?k (found_in_memory turn asc f ds))"
    by (simp only: found_in_memory_def Let_def sorted_sort_key)
  then have "sorted_wrt (\<lambda>d d'. ?k d \<le> ?k d') (found_in_memory turn asc f ds)" by (simp only: sorted_wrt_map)
  then show ?thesis
    by (rule sorted_wrt_mono_rel [rotated]) (auto simp: in_order_def split: option.splits if_splits)
qed

lemma found_in_memory_mset: "mset (found_in_memory turn asc f ds) = filter_mset (matches f) (mset ds)"
  by (simp add: found_in_memory_def Let_def mset_filter)

lemma memory_collection_answers: "answers_queries memory_collection ds ds"
  by (auto simp: answers_queries_def memory_collection_def intro: found_in_memory_sorted found_in_memory_mset)

lemma memory_collection_keeps: "keeps memory_collection (\<lambda>_. []) (\<lambda>_ _. False)"
  by (simp add: keeps_def memory_collection_def)

definition sample_doc :: "string \<Rightarrow> nat \<Rightarrow> document" where
  "sample_doc gpu s = bson_document [] [''uuid'' \<mapsto> DStr gpu, ''timestamp'' \<mapsto> DTime (zero_time\<lparr>second := s\<rparr>)]"

lemma sample_doc_fields:
  "sample_doc gpu s ''uuid'' = Some (DStr gpu)" "sample_doc gpu s ''gpu_id'' = None"
  "sample_doc gpu s ''timestamp'' = Some (DDate (int s * 1000 - 62135596800000))"
  by (simp_all add: sample_doc_def bson_document_def date_ms_def zero_time_def abs_seconds_def days_before_year_def
      days_before_month_def)

lemma sample_stamp: "stamp (sample_doc gpu s) = Some (int s * 1000 - 62135596800000)"
  by (simp add: stamp_def sample_doc_fields)

lemma sample_matches:
  "matches (telemetry_filter ''g1'' (Some (zero_time\<lparr>second := 5\<rparr>)) None) (sample_doc gpu s) \<longleftrightarrow> gpu = ''g1'' \<and> 5 \<le> s"
  by (auto simp: matches_def telemetry_filter_def sample_doc_fields in_range_def some_value_def date_ms_def zero_time_def
      abs_seconds_def days_before_year_def days_before_month_def)

theorem telemetry_pages_cover_witness:
  "\<exists>page :: nat \<Rightarrow> document list. Service_QueryTelemetry
      (NewService (adapter_store (NewStoreAdapter
         (Mongo_QueryTelemetry \<lparr>ms_client = (), ms_collection = memory_collection\<rparr>
            [sample_doc ''g1'' 4, sample_doc ''g1'' 5, sample_doc ''g2'' 6, sample_doc ''g1'' 7]) (Mongo_ListGPUs \<lparr>ms_client = (), ms_collection = memory_collection\<rparr>
            [sample_doc ''g1'' 4, sample_doc ''g1'' 5, sample_doc ''g2'' 6, sample_doc ''g1'' 7]) None))
        SortStrings 100)
      ''g1'' (Some (zero_time\<lparr>second := 5\<rparr>)) None 1 2 SortAscending =
    Inr \<lparr>Total = 2, RespPage = 2, RespLimit = 1, Items = page 2\<rparr> \<and>
    mset (page 1 @ page 2 @ page 3 @ page 4) = {#sample_doc ''g1'' 5, sample_doc ''g1'' 7#}"
proof -
  let ?docs = "[sample_doc ''g1'' 4, sample_doc ''g1'' 5, sample_doc ''g2'' 6, sample_doc ''g1'' 7]"
  let ?ms = "\<lparr>ms_client = (), ms_collection = memory_collection\<rparr> :: (unit, document list) MongoStore"
  let ?f = "telemetry_filter ''g1'' (Some (zero_time\<lparr>second := 5\<rparr>)) None"
  have "answers_queries (ms_collection ?ms) ?docs ?docs" by (simp add: memory_collection_answers)
  note pages = telemetry_pages_cover [OF this, of 1 4 None SortStrings 100 "''g1''" "Some (zero_time\<lparr>second := 5\<rparr>)" None SortAscending]
  have sel: "filter (matches ?f) ?docs = [sample_doc ''g1'' 5, sample_doc ''g1'' 7]" by (simp add: sample_matches)
  have "dated [sample_doc ''g1'' 5, sample_doc ''g1'' 7]" by (simp add: dated_def sample_stamp)
  with pages obtain page where page: "\<forall>p \<in> {1..4}. Service_QueryTelemetry
      (NewService (adapter_store (NewStoreAdapter (Mongo_QueryTelemetry ?ms ?docs) (Mongo_ListGPUs ?ms ?docs) None))
        SortStrings 100)
      ''g1'' (Some (zero_time\<lparr>second := 5\<rparr>)) None (of_nat 1) (of_nat p) SortAscending =
    Inr \<lparr>Total = of_nat (length [sample_doc ''g1'' 5, sample_doc ''g1'' 7]),
         RespPage = of_nat p, RespLimit = of_nat 1, Items = page p\<rparr>"
    "mset (concat (map page [1..<Suc 4])) = mset [sample_doc ''g1'' 5, sample_doc ''g1'' 7]"
    unfolding sel by auto
  have "[1..<Suc 4] = [1, 2, 3, 4::nat]" by (simp add: upt_rec)
  with page(2) have "mset (page 1 @ page 2 @ page 3 @ page 4) = {#sample_doc ''g1'' 5, sample_doc ''g1'' 7#}" by simp
  with bspec [OF page(1), of 2] show ?thesis
    by (intro exI [of _ page]) simp
qed

text \<open>With equal timestamps following the pages can give one document twice and another one never.\<close>

lemma tied_pages_repeat:
  fixes docs :: "document list"
  defines "docs \<equiv> [sample_doc ''g1'' 5, (sample_doc ''g1'' 5)(''x'' \<mapsto> DNull)]"
  shows "answers_queries memory_collection docs docs"
    and "Mongo_QueryTelemetry \<lparr>ms_client = (), ms_collection = memory_collection\<rparr> docs ''g1'' None None 1 1 True =
      ([sample_doc ''g1'' 5], 2, None)"
    and "Mongo_QueryTelemetry \<lparr>ms_client = (), ms_collection = memory_collection\<rparr> docs ''g1'' None None 1 2 True =
      ([sample_doc ''g1'' 5], 2, None)"
proof -
  have x: "((sample_doc ''g1'' 5)(''x'' \<mapsto> DNull)) k = sample_doc ''g1'' 5 k" if "k \<noteq> ''x''" for k using that by simp
  have m: "filter (matches (telemetry_filter ''g1'' None None)) docs = docs"
    by (simp add: docs_def matches_def telemetry_filter_def sample_doc_fields some_value_def)
  have s: "stamp ((sample_doc ''g1'' 5)(''x'' \<mapsto> DNull)) = stamp (sample_doc ''g1'' 5)" by (simp add: stamp_def)
  show "answers_queries memory_collection docs docs" by (rule memory_collection_answers)
  have opts: "find_options 1 1 True = \<lparr>opt_limit = 1, opt_skip = 0, opt_sort = (''timestamp'', 1)\<rparr>"
    "find_options 1 2 True = \<lparr>opt_limit = 1, opt_skip = 1, opt_sort = (''timestamp'', 1)\<rparr>"
    by (simp_all add: find_options_def)
  have found: "found_in_memory turn True (telemetry_filter ''g1'' None None) docs = (if turn then rev docs else docs)" for turn
    unfolding found_in_memory_def m by (simp add: docs_def s)
  show "Mongo_QueryTelemetry \<lparr>ms_client = (), ms_collection = memory_collection\<rparr> docs ''g1'' None None 1 1 True =
      ([sample_doc ''g1'' 5], 2, None)"
    by (rule Mongo_QueryTelemetry_answer) (simp_all add: memory_collection_def opts found m, simp_all add: docs_def cut_def)
  show "Mongo_QueryTelemetry \<lparr>ms_client = (), ms_collection = memory_collection\<rparr> docs ''g1'' None None 1 2 True =
      ([sample_doc ''g1'' 5], 2, None)"
    by (rule Mongo_QueryTelemetry_answer) (simp_all add: memory_collection_def opts found m, simp_all add: docs_def cut_def)
qed

end
