(* ===== verification/ConsumerProps.thy ===== *)
theory ConsumerProps
  imports Consumer StorageProps
begin

text \<open>
  What the consumer hands to the collection: one document for each message it can read, in order,
  and what makes it stop. What the collection does with them is the hypothesis \<open>keeps\<close> of \<open>StorageProps\<close>.
\<close>

section \<open>The document of a message\<close>

definition stored_document :: "Message \<Rightarrow> document \<Rightarrow> time \<times> time \<Rightarrow> document" where
  "stored_document m d now =
     d(''timestamp'' \<mapsto> (if IsZero (msg_Timestamp m) then DTime (fst now) else DTime (msg_Timestamp m)),
       ''created_at'' \<mapsto> DTime (snd now))"

text \<open>The documents to store for the body of a frame, \<open>None\<close> for a panic.\<close>

definition documents_of :: "time \<times> time \<Rightarrow> bytes \<Rightarrow> document list option" where
  "documents_of now body =
     (case Unmarshal_Message (string_of_bytes body) zero_message of
        (Some err, _) \<Rightarrow> Some []
      | (None, m) \<Rightarrow>
          (case unmarshal_map (case msg_Payload m of None \<Rightarrow> [] | Some p \<Rightarrow> p) of
             Inl err \<Rightarrow> Some []
           | Inr None \<Rightarrow> None
           | Inr (Some d) \<Rightarrow> Some [stored_document m d now]))"

lemma StoreMessage_cases:
  "unmarshal_map (case msg_Payload m of None \<Rightarrow> [] | Some p \<Rightarrow> p) = Inl err \<Longrightarrow>
     StoreMessage ms n n' m c = Inr (Some (Wrapf ''unmarshal payload'' err), c)"
  "unmarshal_map (case msg_Payload m of None \<Rightarrow> [] | Some p \<Rightarrow> p) = Inr None \<Longrightarrow>
     StoreMessage ms n n' m c = Inl NilMapWrite"
  "unmarshal_map (case msg_Payload m of None \<Rightarrow> [] | Some p \<Rightarrow> p) = Inr (Some d) \<Longrightarrow>
     StoreMessage ms n n' m c =
       (case c_InsertOne (ms_collection ms) (stored_document m d (n, n')) c of
          (Some err, c') \<Rightarrow> Inr (Some (Wrapf ''insert metric'' err), c')
        | (None, c') \<Rightarrow> Inr (None, c'))"
  by (auto simp: StoreMessage_def StoreMetric_def set_field_def stored_document_def)

lemma consume_documents:
  assumes "keeps (ms_collection ms) oid refuses" and "documents_of now body = Some ds"
  shows "consume ms now body c = Inr (fold (insert_document oid refuses) ds c)"
proof -
  obtain e m where um: "Unmarshal_Message (string_of_bytes body) zero_message = (e, m)" by (metis prod.exhaust)
  show ?thesis
  proof (cases e)
    case None
    let ?u = "unmarshal_map (case msg_Payload m of None \<Rightarrow> [] | Some p \<Rightarrow> p)"
    consider err where "?u = Inl err" | "?u = Inr None" | d where "?u = Inr (Some d)"
      by (metis not_Some_eq obj_sumE)
    then show ?thesis
    proof cases
      case 1
      with assms(2) um None show ?thesis by (auto simp: documents_of_def consume_def StoreMessage_cases)
    next
      case 2
      with assms(2) um None show ?thesis by (simp add: documents_of_def)
    next
      case 3
      let ?d = "stored_document m d now"
      have ds: "ds = [?d]" using assms(2) um None 3 by (simp add: documents_of_def)
      obtain e' c' where ins: "c_InsertOne (ms_collection ms) ?d c = (e', c')" by (metis prod.exhaust)
      with assms(1) have "c' = insert_document oid refuses ?d c" unfolding keeps_def by (metis snd_conv)
      with um None ds ins show ?thesis
        by (simp add: consume_def StoreMessage_cases(3) [OF 3] split: option.splits)
    qed
  qed (use assms(2) um in \<open>auto simp: documents_of_def consume_def\<close>)
qed

lemma consume_all_documents:
  assumes "keeps (ms_collection ms) oid refuses"
  shows "\<forall>i < length bodies. documents_of (clock (k + i)) (bodies ! i) = Some (ds i) \<Longrightarrow>
   consume_all ms clock k bodies c =
     Inr (fold (insert_document oid refuses) (concat (map ds [0..<length bodies])) c)"
proof (induction bodies arbitrary: k c ds)
  case (Cons b bodies)
  have "documents_of (clock k) b = Some (ds 0)" using Cons.prems by fastforce
  from consume_documents [OF assms this]
  have b: "consume ms (clock k) b c = Inr (fold (insert_document oid refuses) (ds 0) c)" .
  have "\<forall>i < length bodies. documents_of (clock (Suc k + i)) (bodies ! i) = Some (ds (Suc i))"
    using Cons.prems by fastforce
  from Cons.IH [OF this, of "fold (insert_document oid refuses) (ds 0) c"] b show ?case
    by (simp add: upt_conv_Cons map_Suc_upt [symmetric] comp_def del: upt_Suc)
qed simp

text \<open>A message that was written by \<open>Marshal\<close>.\<close>

lemma documents_of_message:
  assumes "message_ok m" and "msg_Payload m = Some p" and "unmarshal_map p = Inr (Some d)"
    and "Marshal_Message m = Inr s"
  shows "documents_of now (bytes_of_string s) = Some [stored_document m d now]"
proof -
  from Marshal_ok [OF assms(1)] obtain v where
    v: "payload_tree (msg_Payload m) = Some v" "wf_json v" "depth v < max_depth"
      "s = render (message_tree m v)" using assms(4) by auto
  from v(1) assms(2) have p: "Compact p = Some (render (html_esc v))"
    by (simp add: payload_tree_def Compact_def)
  have "Unmarshal_Message s zero_message = (None, m\<lparr>msg_Payload := Some (render (html_esc v))\<rparr>)"
    using Unmarshal_tree [of m v zero_message] assms(1) v(2-4) by (simp add: message_ok_def)
  with unmarshal_map_Compact [OF p] assms(3) show ?thesis
    by (simp add: documents_of_def stored_document_def)
qed

text \<open>C24: The consumer on a stream of frames none of which has a message with the payload \<open>null\<close> (such
  a message ends the process): it hands the collection, in the order of the frames, one document for each message
  it can read and whose payload is a JSON object, with the message's timestamp (the current time if it has
  none) and the time of storing, in place of fields of these names. The collection keeps them as BSON, with
  an object id where there is no \<open>_id\<close> and times in milliseconds. A body that is not a message, a payload
  that is neither an object nor \<open>null\<close> and a document the collection refuses are skipped, and the messages
  after them are stored. It stops at the end of the stream.\<close>

theorem consumer_stores_messages:
  assumes "keeps (ms_collection ms) oid refuses" and "\<forall>b \<in> set bodies. frame_ok b"
    and "\<forall>i < length bodies. documents_of (clock i) (bodies ! i) = Some (ds i)"
  shows "consumer_loop ms clock 0 \<lparr>avail = concat (map frame bodies), fin = EOF\<rparr> buf c =
    Inr (EOF, fold (insert_document oid refuses) (concat (map ds [0..<length bodies])) c)"
  using consume_all_documents [OF assms(1), of bodies clock 0 ds c] assms(3) decode_frames_all [OF assms(2)]
  by (simp add: consumer_loop_frames)

text \<open>C33: One message without a payload kills the consumer: the producer writes a nil payload as
  \<open>null\<close>, the store decodes it to a nil map and writes to it, and the panic ends the process before
  the messages behind it are stored.\<close>

theorem null_payload_panics:
  assumes "message_ok m" and "msg_Payload m = None" and "Marshal_Message m = Inr s"
    and "frame_ok (bytes_of_string s)"
  shows "consumer_loop ms clock 0 \<lparr>avail = frame (bytes_of_string s) @ rest, fin = e\<rparr> buf c = Inl NilMapWrite"
proof -
  have v: "payload_tree (msg_Payload m) = Some (RLit ''null'')" "wf_json (RLit ''null'')"
    using assms(2) by (simp_all add: payload_tree_def literals_def)
  from Marshal_ok [OF assms(1)] assms(3) v(1) have s: "s = render (message_tree m (RLit ''null''))" by auto
  have um: "Unmarshal_Message s zero_message = (None, m\<lparr>msg_Payload := Some ''null''\<rparr>)"
    using Unmarshal_tree [of m "RLit ''null''" zero_message] assms(1) v(2) s
    by (simp add: message_ok_def max_depth_def)
  have "parse_json ''null'' = Some (RLit ''null'')"
    using parse_render [OF v(2)] by simp
  then have "unmarshal_map ''null'' = Inr None" by (simp add: unmarshal_map_def)
  with um have "consume ms (clock 0) (bytes_of_string s) c = Inl NilMapWrite"
    by (simp add: consume_def StoreMessage_cases(2))
  with decode_frames_frames [of "[bytes_of_string s]" rest e] assms(4) show ?thesis
    by (simp add: consumer_loop_frames)
qed

section \<open>Examples\<close>

lemma length_esc_rune: "r \<noteq> [] \<Longrightarrow> length (esc_rune r) \<le> 6 * length r"
  by (cases r) (auto simp: esc_rune_def Let_def)

lemma length_esc: "length (esc s) \<le> 6 * length s"
proof (induction s rule: esc.induct)
  case (1 s)
  show ?case
  proof (cases "0 < rune_size s")
    case True
    then have ne: "s \<noteq> []" by auto
    let ?n = "rune_size s"
    have "length (esc s) = length (esc_rune (take ?n s)) + length (esc (drop ?n s))"
      using True ne by (simp add: esc.simps [of s])
    also have "\<dots> \<le> 6 * length (take ?n s) + 6 * length (drop ?n s)"
      using length_esc_rune [of "take ?n s"] "1.IH"(1) [OF ne True] True ne by auto
    also have "\<dots> = 6 * (length (take ?n s) + length (drop ?n s))" by (rule add_mult_distrib2 [symmetric])
    also have "length (take ?n s) + length (drop ?n s) = length s" using rune_size_length [of s] by simp
    finally show ?thesis .
  next
    case False
    then have "esc s = (if s = [] then [] else u_escape 0xFFFD @ esc (tl s))"
      by (simp add: esc.simps [of s])
    with "1.IH"(2) False show ?thesis by (cases s) auto
  qed
qed

definition heartbeat :: "string option \<Rightarrow> Message" where
  "heartbeat p =
     \<lparr>msg_ID = ''01'', msg_Type = ''hb'', msg_Payload = p, msg_Timestamp = zero_time, msg_Source = []\<rparr>"

lemma heartbeat_ok: "message_ok (heartbeat None)" "message_ok (heartbeat (Some ''{}''))"
  and empty_object: "parse_json ''{}'' = Some (RObj [])"
proof -
  have m: "max_depth \<noteq> 0" by (simp add: max_depth_def)
  show p: "parse_json ''{}'' = Some (RObj [])"
    using parse_render [of "RObj []"] m by simp
  show "message_ok (heartbeat None)" "message_ok (heartbeat (Some ''{}''))"
    using p by (simp_all add: message_ok_def heartbeat_def payload_tree_def valid_utf8_ascii
        max_depth_def time_wf_def zero_time_def daysIn_def)
qed

lemma heartbeat_text:
  assumes "message_ok (heartbeat p)" and "payload_tree p = Some v" and "length (render (html_esc v)) \<le> 4"
  shows "\<exists>s. Marshal_Message (heartbeat p) = Inr s \<and> frame_ok (bytes_of_string s)"
proof -
  have "length (FormatRFC3339Nano zero_time) \<le> 36"
    by (intro time_length) (simp add: time_wf_def zero_time_def daysIn_def)
  then have "length (esc (FormatRFC3339Nano zero_time)) \<le> 240"
    using length_esc [of "FormatRFC3339Nano zero_time"] by linarith
  moreover have "length (esc ''01'') \<le> 12" "length (esc ''hb'') \<le> 12"
    using length_esc [of "''01''"] length_esc [of "''hb''"] by simp_all
  ultimately have "length (render (message_tree (heartbeat p) v)) \<le> 1048576"
    using assms(3) by (simp add: message_tree_def heartbeat_def json_string_def)
  moreover from Marshal_ok [OF assms(1)] assms(2) have
    "Marshal_Message (heartbeat p) = Inr (render (message_tree (heartbeat p) v))"
    by (auto simp: heartbeat_def)
  ultimately show ?thesis by (simp add: frame_ok_def)
qed

definition memory_store :: "(unit, document list) MongoStore" where
  "memory_store = \<lparr>ms_client = (), ms_collection = memory_collection\<rparr>"

lemma memory_keeps: "keeps (ms_collection memory_store) (\<lambda>_. []) (\<lambda>_ _. False)"
  by (simp add: memory_store_def memory_collection_keeps)

theorem consumer_stores_messages_witness:
  "\<exists>s. Marshal_Message (heartbeat (Some ''{}'')) = Inr s \<and>
    consumer_loop memory_store (\<lambda>_. (zero_time, zero_time)) 0
      \<lparr>avail = concat (map frame [[], bytes_of_string s]), fin = EOF\<rparr> [] [] =
    Inr (EOF, [bson_document [] (stored_document (heartbeat (Some ''{}'')) Map.empty (zero_time, zero_time))])"
proof -
  let ?m = "heartbeat (Some ''{}'')" and ?now = "(zero_time, zero_time)"
  obtain s where s: "Marshal_Message ?m = Inr s" "frame_ok (bytes_of_string s)"
    using heartbeat_text [OF heartbeat_ok(2)] by (auto simp: payload_tree_def empty_object)
  have p: "msg_Payload ?m = Some ''{}''" by (simp add: heartbeat_def)
  have "unmarshal_map ''{}'' = Inr (Some Map.empty)" by (simp add: unmarshal_map_def empty_object)
  from documents_of_message [OF heartbeat_ok(2) p this s(1)]
  have d1: "documents_of ?now (bytes_of_string s) = Some [stored_document ?m Map.empty ?now]" .
  have d0: "documents_of ?now [] = Some []"
    by (simp add: documents_of_def Unmarshal_Message_def parse_json_def skip_ws_def string_of_bytes_def)
  have "\<forall>b \<in> set [[], bytes_of_string s]. frame_ok b" using s(2) by (simp add: frame_ok_def)
  from consumer_stores_messages [OF memory_keeps this, of "\<lambda>_. ?now"
      "\<lambda>i. if i = 0 then [] else [stored_document ?m Map.empty ?now]" "[]" "[]"] d0 d1 s(1)
  show ?thesis by (auto simp: less_Suc_eq insert_document_def)
qed

theorem null_payload_panics_witness:
  "\<exists>s. Marshal_Message (heartbeat None) = Inr s \<and>
    consumer_loop memory_store (\<lambda>_. (zero_time, zero_time)) 0
      \<lparr>avail = frame (bytes_of_string s) @ frame [], fin = EOF\<rparr> [] [] = Inl NilMapWrite"
proof -
  obtain s where s: "Marshal_Message (heartbeat None) = Inr s" "frame_ok (bytes_of_string s)"
    using heartbeat_text [OF heartbeat_ok(1)] by (auto simp: payload_tree_def)
  have "msg_Payload (heartbeat None) = None" by (simp add: heartbeat_def)
  from null_payload_panics [OF heartbeat_ok(1) this s]
  show ?thesis by (intro exI [of _ s] conjI s(1))
qed

end
