(* ===== verification/ProducerProps.thy ===== *)
theory ProducerProps
  imports Producer ConsumerProps
begin

text \<open>
  What the producer sends: every row becomes a message the consumer can read, whatever is in its
  cells, and a file is sent as one frame per row, in order.
\<close>

section \<open>Payloads\<close>

lemma wf_map_tree: "\<forall>x \<in> snd ` set m. wf_json (f x) \<Longrightarrow> wf_json (map_tree f m)"
  by (fastforce simp: map_tree_def wf_esc)

lemma depth_map_tree: "\<forall>x \<in> snd ` set m. depth (f x) \<le> n \<Longrightarrow> depth (map_tree f m) \<le> Suc n"
  by (force simp: map_tree_def comp_def intro!: foldr_max_le)

lemma json_string_wf [simp]: "wf_json (json_string s)" "depth (json_string s) = 0"
  by (simp_all add: json_string_def wf_esc)

lemma value_tree_wf: "wf_json (value_tree v)" "depth (value_tree v) \<le> 1"
  using depth_map_tree [of _ json_string 0] by (cases v; simp add: wf_map_tree)+

lemma payload_wf: "wf_json (map_tree value_tree p)" "depth (map_tree value_tree p) \<le> 2"
  using wf_map_tree [of p value_tree] depth_map_tree [of p value_tree 1] value_tree_wf by auto

lemma parse_payload: "parse_json (render (map_tree value_tree p)) = Some (map_tree value_tree p)"
  using payload_wf(2) [of p] by (intro parse_render payload_wf(1)) (simp add: max_depth_def)

text \<open>What a payload is read as.\<close>

fun value_doc :: "payload_value \<Rightarrow> doc_value" where
  "value_doc (PStr s) = DStr s"
| "value_doc (PLabels m) = DMap (\<lambda>k. map_option DStr (map_of m k))"

definition payload_doc :: "payload \<Rightarrow> document" where
  "payload_doc p = (\<lambda>k. map_option value_doc (map_of p k))"

fun value_valid :: "payload_value \<Rightarrow> bool" where
  "value_valid (PStr s) = valid_utf8 s"
| "value_valid (PLabels m) \<longleftrightarrow> distinct (map fst m) \<and> (\<forall>(k, x) \<in> set m. valid_utf8 k \<and> valid_utf8 x)"

lemma decode_members_some:
  "\<forall>(k, v) \<in> set ms. decode v \<noteq> None \<Longrightarrow> \<exists>d. decode_members ms = Some d"
  by (induction ms) auto

lemma decode_members_map:
  "distinct (map fst m) \<Longrightarrow> \<forall>(k, x) \<in> set m. valid_utf8 k \<and> decode (f x) = Some (g x) \<Longrightarrow>
   decode_members (map (\<lambda>(k, x). (esc k, f x)) m) = Some (\<lambda>k. map_option g (map_of m k))"
proof (induction m)
  case (Cons c m)
  obtain k x where c: "c = (k, x)" by (cases c)
  with Cons.prems have "map_of m k = None" by (simp add: map_of_eq_None_iff)
  with Cons c show ?case by (auto simp: unquote_esc_valid map_add_def split: option.splits)
qed auto

lemma sort_key_map_of:
  fixes m :: "(string \<times> 'a) list"
  assumes "distinct (map fst m)"
  shows "map_of (sort_key fst m) = map_of m" and "distinct (map fst (sort_key fst m))"
proof -
  show d: "distinct (map fst (sort_key fst m))" using assms by (simp add: distinct_map)
  from map_of_inject_set [OF d assms] show "map_of (sort_key fst m) = map_of m" by simp
qed

lemma decode_map_tree:
  assumes "distinct (map fst m)" and "\<forall>(k, x) \<in> set m. valid_utf8 k \<and> decode (f x) = Some (g x)"
  shows "decode (map_tree f m) = Some (DMap (\<lambda>k. map_option g (map_of m k)))"
  using decode_members_map [OF sort_key_map_of(2) [OF assms(1)], of f g] assms(2) sort_key_map_of(1) [OF assms(1)]
  by (simp add: map_tree_def)

lemma decode_json_string: "decode (json_string s) = Some (DStr (concat (runes s)))"
  by (simp add: json_string_def unquote_esc)

lemma decode_value: "value_valid v \<Longrightarrow> decode (value_tree v) = Some (value_doc v)"
  by (cases v) (auto simp: decode_json_string runes_valid case_prod_unfold intro!: decode_map_tree)

lemma decode_value_some: "decode (value_tree v) \<noteq> None"
proof (cases v)
  case (PLabels m)
  have "\<exists>d. decode_members (map (\<lambda>(k, x). (esc k, json_string x)) (sort_key fst m)) = Some d"
    by (intro decode_members_some) (auto simp: decode_json_string)
  with PLabels show ?thesis by (auto simp: map_tree_def)
qed (simp add: decode_json_string)

lemma unmarshal_payload_some: "\<exists>d. unmarshal_map (render (map_tree value_tree p)) = Inr (Some d)"
proof -
  have "\<exists>d. decode_members (map (\<lambda>(k, x). (esc k, value_tree x)) (sort_key fst p)) = Some d"
    using decode_value_some by (intro decode_members_some) fastforce
  then show ?thesis using parse_payload [of p] by (auto simp: unmarshal_map_def map_tree_def)
qed

lemma unmarshal_payload:
  assumes "distinct (map fst p)" and "\<forall>(k, v) \<in> set p. valid_utf8 k \<and> value_valid v"
  shows "unmarshal_map (render (map_tree value_tree p)) = Inr (Some (payload_doc p))"
proof -
  have "decode (map_tree value_tree p) = Some (DMap (payload_doc p))"
    unfolding payload_doc_def using assms decode_value by (intro decode_map_tree) auto
  with parse_payload [of p] show ?thesis by (auto simp: unmarshal_map_def map_tree_def)
qed

section \<open>Messages\<close>

definition row_message :: "RowTransformer \<Rightarrow> time \<times> time \<Rightarrow> bytes \<Rightarrow> row \<Rightarrow> Message" where
  "row_message t now rand row =
     New rand (snd now) ''metric'' (Some (render (map_tree value_tree (TransformRow t (fst now) row)))) ''csv-producer''"

lemma newID_ascii: "c \<in> set (newID b) \<Longrightarrow> (of_char c :: nat) < 0x80"
proof -
  assume "c \<in> set (newID b)"
  then obtain x :: byte where "c = hexdigit (unat x div 16) \<or> c = hexdigit (unat x mod 16)"
    by (auto simp: newID_def)
  moreover have "unat x div 16 < 16"
    using unsigned_less [of x, where ?'a = nat] by (intro less_mult_imp_div_less) simp
  ultimately show ?thesis using hex_table(1) is_hex_plain by auto
qed

lemma row_message_ok:
  assumes "time_wf (snd now)"
  shows "message_ok (row_message t now rand row)"
proof -
  have "depth (map_tree value_tree p) < max_depth" for p
    using payload_wf(2) [of p] by (simp add: max_depth_def)
  with assms show ?thesis
    by (simp add: message_ok_def row_message_def New_def payload_tree_def parse_payload valid_utf8_ascii newID_ascii)
qed

text \<open>What is sent for a message.\<close>

definition message_body :: "Message \<Rightarrow> bytes" where
  "message_body m = (case Marshal_Message m of Inl _ \<Rightarrow> [] | Inr s \<Rightarrow> bytes_of_string s)"

section \<open>One frame for each message\<close>

text \<open>\<open>sends p bodies err p'\<close>: from \<open>p\<close> to \<open>p'\<close> the frames of the bodies were written, and after them
  at most a part of a frame, if there was an error.\<close>

definition sends :: "Producer \<Rightarrow> bytes list \<Rightarrow> go_error option \<Rightarrow> Producer \<Rightarrow> bool" where
  "sends p bodies err p' \<longleftrightarrow>
     (\<exists>cn cn' part. p_conn p = Some cn \<and> p_conn p' = Some cn' \<and>
        written (nc_out cn') = written (nc_out cn) @ concat (map frame bodies) @ part \<and>
        (err = None \<longrightarrow> part = []))"

lemma sends_none: "p_conn p \<noteq> None \<Longrightarrow> sends p [] err p"
  by (auto simp: sends_def)

lemma sends_trans: "sends p bs None p1 \<Longrightarrow> sends p1 bs' err p2 \<Longrightarrow> sends p (bs @ bs') err p2"
  by (auto simp: sends_def)

lemma sends_conn: "sends p bs err p' \<Longrightarrow> p_conn p' \<noteq> None"
  by (auto simp: sends_def)

lemma Stream_sends:
  assumes "message_ok m" and "p_conn p \<noteq> None"
  shows "\<exists>err p'. Stream m p = Inr (err, p') \<and> sends p (if err = None then [message_body m] else []) err p'"
proof -
  from Marshal_ok [OF assms(1)] obtain s where s: "Marshal_Message m = Inr s" by blast
  from assms(2) obtain cn where cn: "p_conn p = Some cn" by auto
  obtain e w where w: "WriteFrame (bytes_of_string s) (nc_out cn) = (e, w)" by (metis prod.exhaust)
  show ?thesis
  proof (cases e)
    case None
    with WriteFrame_ok [OF w [unfolded None]] s cn w show ?thesis
      by (auto simp: Stream_def on_conn_def sends_def message_body_def)
  next
    case (Some x)
    with WriteFrame_prefix [OF w] s cn w show ?thesis by (auto simp: Stream_def on_conn_def sends_def)
  qed
qed

lemma Stream_unlimited:
  assumes "message_ok m" and "p_conn p = Some cn" and "wr_room (nc_out cn) = None"
  shows "Stream m p = Inr (None, p\<lparr>p_conn := Some (cn\<lparr>nc_out :=
    (nc_out cn)\<lparr>written := written (nc_out cn) @ frame (message_body m)\<rparr>\<rparr>)\<rparr>)"
  using Marshal_ok [OF assms(1)] assms(2,3)
  by (auto simp: Stream_def on_conn_def message_body_def WriteFrame_unlimited)

lemma stream_rows_step:
  assumes "\<not> rd_hasError rd" and "GetNextRow rd = (Inr row, rd')"
    and "Stream (row_message t (clock k) (rand k) row) p = Inr (err, p')"
  shows "stream_rows t clock rand k rd n p =
    (case err of
       Some e \<Rightarrow> Inr ((n, Some (Wrapf (''failed to write message at row '' @ itoa (sint (n + 1))) e)), p')
     | None \<Rightarrow> stream_rows t clock rand (Suc k) rd' (n + 1) p')"
  using assms
  by (simp add: stream_rows.simps [of t clock rand k rd] HasNextRow_def Marshal_payload_def row_message_def
      split: option.splits)

lemma stream_rows_stop:
  "rd_hasError rd \<Longrightarrow> stream_rows t clock rand k rd n p = Inr ((n, None), p)"
  "\<not> rd_hasError rd \<Longrightarrow> GetNextRow rd = (Inl err, rd') \<Longrightarrow> stream_rows t clock rand k rd n p =
     Inr ((n, if error_text err = ''EOF'' then None else Some (Errorf_v ''failed to read row'' err)), p)"
  by (simp_all add: stream_rows.simps [of t clock rand k rd] HasNextRow_def)

lemma stream_rows_sends:
  assumes "\<forall>k. time_wf (snd (clock k))"
  shows "p_conn p \<noteq> None \<Longrightarrow>
    \<exists>ms err p'. stream_rows t clock rand k rd n p = Inr ((n + word_of_nat (length ms), err), p') \<and>
      sends p (map message_body ms) err p' \<and> (\<forall>m \<in> set ms. message_ok m) \<and>
      length ms \<le> length (cr_rest (rd_reader rd))"
proof (induction "length (cr_rest (rd_reader rd))" arbitrary: k rd n p rule: less_induct)
  case less
  show ?case
  proof (cases "rd_hasError rd")
    case True
    with sends_none [OF less.prems] show ?thesis
      by (intro exI [of _ "[]"]) (simp add: stream_rows_stop(1))
  next
    case False
    obtain res rd' where read: "GetNextRow rd = (res, rd')" by (metis prod.exhaust)
    show ?thesis
    proof (cases res)
      case (Inl err)
      with read False sends_none [OF less.prems] show ?thesis
        by (intro exI [of _ "[]"]) (simp add: stream_rows_stop(2))
    next
      case (Inr row)
      let ?m = "row_message t (clock k) (rand k) row"
      have ok: "message_ok ?m" using assms by (intro row_message_ok) simp
      from Stream_sends [OF ok less.prems] obtain err p1 where
        p1: "Stream ?m p = Inr (err, p1)" "sends p (if err = None then [message_body ?m] else []) err p1"
        by blast
      note step = stream_rows_step [where clock = clock and rand = rand and k = k and n = n and t = t, OF False read [unfolded Inr] p1(1)]
      show ?thesis
      proof (cases err)
        case None
        note shorter = GetNextRow_progress [OF read [unfolded Inr]]
        from less.hyps [OF shorter, of p1 "Suc k" "n + 1"] sends_conn [OF p1(2)] obtain ms e p2 where
          p2: "stream_rows t clock rand (Suc k) rd' (n + 1) p1 = Inr ((n + 1 + word_of_nat (length ms), e), p2)"
            "sends p1 (map message_body ms) e p2" "\<forall>m \<in> set ms. message_ok m"
            "length ms \<le> length (cr_rest (rd_reader rd'))" by blast
        with p1(2) None step shorter ok sends_trans [of p "[message_body ?m]" p1 "map message_body ms" e p2]
        show ?thesis by (intro exI [of _ "?m # ms"] exI [of _ e] exI [of _ p2]) (simp add: algebra_simps)
      next
        case (Some e)
        with p1 step show ?thesis
          by (intro exI [of _ "[]"]) (auto simp: sends_def)
      qed
    qed
  qed
qed

section \<open>A written file\<close>

text \<open>The transformer of a file with this header.\<close>

definition transformer_for :: "string list \<Rightarrow> string \<Rightarrow> string \<Rightarrow> RowTransformer" where
  "transformer_for header tsName labelsName =
     \<lparr>tsColumnIdx = (if tsName \<noteq> [] then column_index 0 header tsName else -1),
      labelsColumnIdx = (if labelsName \<noteq> [] then column_index 0 header labelsName else -1)\<rparr>"

definition csv_file :: "string list \<Rightarrow> string list list \<Rightarrow> string" where
  "csv_file header rows = concat (map csv_line (header # rows))"

definition table_ok :: "string list \<Rightarrow> string list list \<Rightarrow> bool" where
  "table_ok header rows \<longleftrightarrow> csv_ok header \<and> (\<forall>r \<in> set rows. csv_ok r \<and> length r = length header)"

definition row_messages ::
    "RowTransformer \<Rightarrow> (nat \<Rightarrow> time \<times> time) \<Rightarrow> (nat \<Rightarrow> bytes) \<Rightarrow> string list \<Rightarrow> nat \<Rightarrow> string list list \<Rightarrow> Message list"
  where
  "row_messages t clock rand header k rows =
     map (\<lambda>(i, r). row_message t (clock i) (rand i) (row_of header r)) (enumerate k rows)"

lemma cr_lines: "\<forall>r \<in> set rows. csv_ok r \<Longrightarrow> cr \<notin> set (concat (map csv_line rows))"
  using cr_csv_line by auto

lemma GetNextRow_line:
  assumes "\<not> rd_hasError rd" and "csv_ok r" and "\<forall>r \<in> set rows. csv_ok r"
    and "rd_reader rd = \<lparr>cr_rest = csv_line r @ concat (map csv_line rows), cr_fin = EOF, cr_fields = length r\<rparr>"
  shows "GetNextRow rd = (Inr (row_of (rd_header rd) r),
    rd\<lparr>rd_reader := \<lparr>cr_rest = concat (map csv_line rows), cr_fin = EOF, cr_fields = length r\<rparr>,
       rd_rowNum := rd_rowNum rd + 1\<rparr>)"
  using assms(1,4) csv_Read_line [OF assms(2) cr_lines [OF assms(3)], of "rd_reader rd"]
  by (simp add: GetNextRow_def)

lemma stream_rows_written:
  assumes "\<forall>k. time_wf (snd (clock k))"
  shows "\<not> rd_hasError rd \<Longrightarrow> \<forall>r \<in> set rows. csv_ok r \<and> length r = length (rd_header rd) \<Longrightarrow>
    rd_reader rd = \<lparr>cr_rest = concat (map csv_line rows), cr_fin = EOF, cr_fields = length (rd_header rd)\<rparr> \<Longrightarrow>
    p_conn p = Some cn \<Longrightarrow> wr_room (nc_out cn) = None \<Longrightarrow>
    stream_rows t clock rand k rd n p = Inr ((n + word_of_nat (length rows), None),
      p\<lparr>p_conn := Some (cn\<lparr>nc_out := (nc_out cn)\<lparr>written := written (nc_out cn) @
        concat (map frame (map message_body (row_messages t clock rand (rd_header rd) k rows)))\<rparr>\<rparr>)\<rparr>)"
proof (induction rows arbitrary: k rd n p cn)
  case Nil
  then have "GetNextRow rd = (Inl EOF, rd\<lparr>rd_reader := rd_reader rd, rd_hasError := True\<rparr>)"
    using csv_Read_end [of "rd_reader rd"] by (simp add: GetNextRow_def)
  with Nil show ?case by (simp add: stream_rows_stop(2) row_messages_def)
next
  case (Cons r rows)
  let ?rd = "rd\<lparr>rd_reader := \<lparr>cr_rest = concat (map csv_line rows), cr_fin = EOF, cr_fields = length r\<rparr>,
       rd_rowNum := rd_rowNum rd + 1\<rparr>"
  let ?m = "row_message t (clock k) (rand k) (row_of (rd_header rd) r)"
  let ?cn = "cn\<lparr>nc_out := (nc_out cn)\<lparr>written := written (nc_out cn) @ frame (message_body ?m)\<rparr>\<rparr>"
  have read: "GetNextRow rd = (Inr (row_of (rd_header rd) r), ?rd)"
    using Cons.prems(1-3) by (intro GetNextRow_line) simp_all
  have "message_ok ?m" using assms by (intro row_message_ok) simp
  from stream_rows_step [where clock = clock and rand = rand and k = k and n = n and t = t, OF 
    Cons.prems(1) read Stream_unlimited [OF this Cons.prems(4,5)]]
  have "stream_rows t clock rand k rd n p =
      stream_rows t clock rand (Suc k) ?rd (n + 1) (p\<lparr>p_conn := Some ?cn\<rparr>)" by simp
  also have "\<dots> = Inr ((n + 1 + word_of_nat (length rows), None),
      p\<lparr>p_conn := Some (?cn\<lparr>nc_out := (nc_out ?cn)\<lparr>written := written (nc_out ?cn) @
        concat (map frame (map message_body (row_messages t clock rand (rd_header rd) (Suc k) rows)))\<rparr>\<rparr>)\<rparr>)"
    using Cons.IH [of ?rd "p\<lparr>p_conn := Some ?cn\<rparr>" ?cn "Suc k" "n + 1"] Cons.prems by simp
  finally show ?case by (simp add: row_messages_def comp_def algebra_simps)
qed

lemma NewMetricsCSVReader_written:
  assumes "table_ok header rows" and "open_file path = Inr \<lparr>file_text = csv_file header rows, file_fin = EOF, file_close = c\<rparr>"
  shows "\<exists>rd. NewMetricsCSVReader open_file path = Inr rd \<and> rd_header rd = header \<and> \<not> rd_hasError rd \<and>
    rd_reader rd = \<lparr>cr_rest = concat (map csv_line rows), cr_fin = EOF, cr_fields = length header\<rparr>"
proof -
  have ok: "csv_ok header" "\<forall>r \<in> set rows. csv_ok r" using assms(1) by (simp_all add: table_ok_def)
  have "header \<noteq> []" using ok(1) by (auto simp: csv_ok_def)
  with csv_Read_line [OF ok(1) cr_lines [OF ok(2)], of "NewReader (csv_file header rows) EOF"] assms(2)
  show ?thesis by (auto simp: NewMetricsCSVReader_def NewReader_def csv_file_def)
qed

lemma stream_csv_written:
  assumes "table_ok header rows" and "\<forall>k. time_wf (snd (clock k))"
    and "open_file path = Inr \<lparr>file_text = csv_file header rows, file_fin = EOF, file_close = c\<rparr>"
    and "p_conn p = Some cn" and "wr_room (nc_out cn) = None"
  shows "StreamCSVMetrics open_file clock rand path tsName labelsName p =
    Inr ((word_of_nat (length rows), None),
      p\<lparr>p_conn := Some (cn\<lparr>nc_out := (nc_out cn)\<lparr>written := written (nc_out cn) @
        concat (map frame (map message_body
          (row_messages (transformer_for header tsName labelsName) clock rand header 0 rows)))\<rparr>\<rparr>)\<rparr>)"
proof -
  from NewMetricsCSVReader_written [where open_file = open_file and path = path, OF assms(1,3)] obtain rd where
    rd: "NewMetricsCSVReader open_file path = Inr rd" "rd_header rd = header" "\<not> rd_hasError rd"
      "rd_reader rd = \<lparr>cr_rest = concat (map csv_line rows), cr_fin = EOF, cr_fields = length header\<rparr>" by blast
  have "NewRowTransformer rd tsName labelsName = transformer_for header tsName labelsName"
    using rd(2) by (simp add: NewRowTransformer_def transformer_for_def FindColumnIndex_def)
  with rd stream_rows_written [OF assms(2) rd(3) _ _ assms(4,5), of rows] assms(1) show ?thesis
    by (simp add: StreamCSVMetrics_def table_ok_def)
qed

text \<open>The whole program on such a file.\<close>

lemma producer_main_written:
  assumes "table_ok header rows" and "\<forall>k. time_wf (snd (clock k))"
    and "dial (GetEnv env ''BROKER_ADDR'' ''localhost:9080'') = Inr cn" and "wr_room (nc_out cn) = None"
    and "abs_path (GetEnv env ''CSV_PATH'' default_csv_path) = Inr path"
    and "open_file path = Inr \<lparr>file_text = csv_file header rows, file_fin = EOF, file_close = c\<rparr>"
  shows "\<exists>p cn'. producer_main env dial abs_path open_file clock rand = Inr (0, Some p) \<and> p_conn p = Some cn' \<and>
    written (nc_out cn') = written (nc_out cn) @ bytes_of_string role_producer_line @
      concat (map frame (map message_body
        (row_messages (transformer_for header ''timestamp'' ''labels_raw'') clock rand header 0 rows)))"
proof -
  let ?cn = "cn\<lparr>nc_out := (nc_out cn)\<lparr>written := written (nc_out cn) @ bytes_of_string role_producer_line\<rparr>\<rparr>"
  have get: "EnvReader_Get env = GetEnv env" by (simp add: fun_eq_iff EnvReader_Get_def GetEnv_def)
  have start: "Start (NewProducer (Some cn)) = Inr (None, NewProducer (Some ?cn))"
    using assms(4) by (simp add: Start_def on_conn_def NewProducer_def Write_unlimited)
  have p: "p_conn (NewProducer (Some ?cn)) = Some ?cn" "wr_room (nc_out ?cn) = None"
    using assms(4) by (simp_all add: NewProducer_def)
  from stream_csv_written [where open_file = open_file and path = path and rand = rand and
      tsName = "''timestamp''" and labelsName = "''labels_raw''", OF assms(1,2,6) p] start assms(3,5)
  show ?thesis by (auto simp: producer_main_def get)
qed

section \<open>Properties\<close>

text \<open>C22: Every row becomes a message the consumer can read and store: whatever bytes are in the cells
  and the header, and whatever the random bytes are, the message is well formed and its payload is
  decoded to a document; if they are valid UTF-8, to the document with exactly the payload's entries.\<close>

theorem row_messages_readable:
  assumes "time_wf (snd now)" and "distinct (map fst row)"
  shows "message_ok (row_message t now rand row) \<and>
    (\<exists>p. msg_Payload (row_message t now rand row) = Some p \<and>
       (\<exists>d. unmarshal_map p = Inr (Some d)) \<and>
       ((\<forall>(k, v) \<in> set (TransformRow t (fst now) row). valid_utf8 k \<and> value_valid v) \<longrightarrow>
          unmarshal_map p = Inr (Some (payload_doc (TransformRow t (fst now) row)))))"
  using row_message_ok [OF assms(1)] unmarshal_payload_some unmarshal_payload TransformRow_distinct
  by (simp add: row_message_def New_def)

theorem row_messages_readable_witness:
  "message_ok (row_message \<lparr>tsColumnIdx = -1, labelsColumnIdx = -1\<rparr> (zero_time, zero_time) [0] [(''a'', ''b'')]) \<and>
   unmarshal_map (render (map_tree value_tree [(''a'', PStr ''b'')])) = Inr (Some [''a'' \<mapsto> DStr ''b''])"
proof -
  let ?t = "\<lparr>tsColumnIdx = -1, labelsColumnIdx = -1\<rparr>"
  have "time_wf (snd (zero_time, zero_time))" by (simp add: time_wf_def zero_time_def daysIn_def)
  note P = row_messages_readable [OF this, of "[(''a'', ''b'')]" ?t "[0]"]
  have row: "TransformRow ?t zero_time [(''a'', ''b'')] = [(''a'', PStr ''b'')]" by (simp add: TransformRow_def)
  then have "payload_doc (TransformRow ?t zero_time [(''a'', ''b'')]) = [''a'' \<mapsto> DStr ''b'']"
    by (auto simp: payload_doc_def)
  with P row show ?thesis by (auto simp: row_message_def New_def valid_utf8_ascii)
qed

text \<open>C21: Whatever the file holds and whenever the connection fails, the producer returns, and what it
  has written are whole frames, one for each message it counted, of well-formed messages; after them
  at most a part of a frame, and that only if it reports an error. It sends no more messages than the
  file has bytes.\<close>

theorem producer_sends_frames:
  assumes "p_conn p \<noteq> None" and "\<forall>k. time_wf (snd (clock k))"
  shows "\<exists>ms err p'. StreamCSVMetrics open_file clock rand path tsName labelsName p =
      Inr ((word_of_nat (length ms), err), p') \<and>
    sends p (map message_body ms) err p' \<and> (\<forall>m \<in> set ms. message_ok m) \<and>
    (\<forall>f. open_file path = Inr f \<longrightarrow> length ms \<le> length (file_text f))"
proof (cases "NewMetricsCSVReader open_file path")
  case (Inl err)
  with sends_none [OF assms(1)] show ?thesis
    by (intro exI [of _ "[]"]) (simp add: StreamCSVMetrics_def)
next
  case (Inr rd)
  then have "length (cr_rest (rd_reader rd)) \<le> length (file_text f)" if "open_file path = Inr f" for f
    using that by (auto simp: NewMetricsCSVReader_def NewReader_def dest!: csv_Read_progress split: sum.splits if_splits prod.splits)
  with Inr stream_rows_sends [OF assms(2,1), of "NewRowTransformer rd tsName labelsName" rand 0 rd 0] show ?thesis
    by (fastforce simp: StreamCSVMetrics_def)
qed


definition example_conn :: net_conn where
  "example_conn = \<lparr>nc_out = \<lparr>written = [], wr_room = None, wr_err = EOF\<rparr>, nc_close = None\<rparr>"

definition example_rows :: "string list list" where
  "example_rows = [[''1'', ''x, y''], [''2'', []]]"

lemma example_table: "table_ok [''a'', ''b''] example_rows"
  by (simp add: table_ok_def csv_ok_def cr_def example_rows_def)

lemma zero_time_wf: "time_wf zero_time"
  by (simp add: time_wf_def zero_time_def daysIn_def)


theorem producer_sends_frames_witness:
  "\<exists>ms err p'. StreamCSVMetrics (\<lambda>_. Inr \<lparr>file_text = ''a'' @ [nl] @ ''b'', file_fin = EOF, file_close = None\<rparr>)
      (\<lambda>_. (zero_time, zero_time)) (\<lambda>_. [7]) [] [] [] (NewProducer (Some example_conn)) =
      Inr ((word_of_nat (length ms), err), p') \<and>
    sends (NewProducer (Some example_conn)) (map message_body ms) err p' \<and> length ms \<le> 3"
  using producer_sends_frames [of "NewProducer (Some example_conn)" "\<lambda>_. (zero_time, zero_time)"
      "\<lambda>_. Inr \<lparr>file_text = ''a'' @ [nl] @ ''b'', file_fin = EOF, file_close = None\<rparr>" "\<lambda>_. [7]" "[]" "[]" "[]"]
    zero_time_wf
  by (fastforce simp: NewProducer_def)

end
