(* ===== verification/MessageSize.thy ===== *)
theory MessageSize
  imports ProducerProps
begin

text \<open>
  How long the message of a row gets. Escaping makes a string at most six times as long, so a row
  of up to 170000 bytes, names of columns included, always fits a frame.
\<close>

section \<open>Payloads\<close>

definition text_size :: "row \<Rightarrow> nat" where
  "text_size row = (\<Sum>(k, v) \<leftarrow> row. length k + length v + 1)"

lemma text_size_update: "text_size (AList.update k v row) \<le> text_size row + (length k + length v + 1)"
  by (induction row) (auto simp: text_size_def)

lemma text_size_row_of:
  "text_size (row_of header rec) \<le> (\<Sum>i<length header. length (header ! i) + length (if i < length rec then rec ! i else []) + 1)"
proof (induction header rule: rev_induct)
  case (snoc col header)
  have "(\<Sum>i<length header. length ((header @ [col]) ! i) + length (if i < length rec then rec ! i else []) + 1) =
      (\<Sum>i<length header. length (header ! i) + length (if i < length rec then rec ! i else []) + 1)"
    by (intro sum.cong) (auto simp: nth_append)
  with snoc text_size_update [of col "if length header < length rec then rec ! length header else []" "row_of header rec"]
  show ?case by (simp add: row_of_snoc)
qed (simp add: row_of_def text_size_def)

definition row_size :: "string list \<Rightarrow> string list \<Rightarrow> nat" where
  "row_size header rec = (\<Sum>s \<leftarrow> header. length s + 1) + (\<Sum>s \<leftarrow> rec. length s)"

lemma text_size_row:
  assumes "length rec = length header"
  shows "text_size (row_of header rec) \<le> row_size header rec"
proof -
  have "(\<Sum>i<length header. length (header ! i) + length (if i < length rec then rec ! i else []) + 1) =
      (\<Sum>i<length header. length (header ! i) + 1) + (\<Sum>i<length rec. length (rec ! i))"
    using assms by (simp flip: sum.distrib)
  also have "\<dots> = row_size header rec"
    by (simp add: row_size_def sum_list_sum_nth atLeast0LessThan)
  finally show ?thesis using text_size_row_of [of header rec] by simp
qed

text \<open>The payload of a row with no column of an empty name: texts only.\<close>

lemma payload_texts:
  assumes "\<forall>(k, v) \<in> set row. k \<noteq> []"
  shows "\<exists>cells. TransformRow t now row = map (\<lambda>(k, v). (k, PStr v)) cells \<and> text_size cells \<le> text_size row"
proof -
  have "\<exists>cells. fold (\<lambda>(col, val) p. case transform_cell t now col val of None \<Rightarrow> p | Some v \<Rightarrow> AList.update col v p) row
      (map (\<lambda>(k, v). (k, PStr v)) acc) = map (\<lambda>(k, v). (k, PStr v)) cells \<and> text_size cells \<le> text_size acc + text_size row" for acc
    using assms
  proof (induction row arbitrary: acc)
    case (Cons c row)
    obtain k v where c: "c = (k, v)" "k \<noteq> []" using Cons.prems by (cases c) auto
    have up: "AList.update k (PStr v) (map (\<lambda>(k, v). (k, PStr v)) acc) = map (\<lambda>(k, v). (k, PStr v)) (AList.update k v acc)"
      by (induction acc) auto
    have ts: "text_size (c # row) = length k + length v + 1 + text_size row" by (simp add: text_size_def c)
    show ?case
    proof (cases "transform_cell t now k v")
      case None
      with Cons.IH [of acc] Cons.prems ts show ?thesis by (fastforce simp: c)
    next
      case (Some x)
      with c(2) have "x = PStr v" by (auto simp: transform_cell_def split: if_splits)
      with Some Cons.IH [of "AList.update k v acc"] Cons.prems ts text_size_update [of k v acc] show ?thesis
        by (fastforce simp: c up)
    qed
  qed auto
  from this [of "[]"] show ?thesis by (simp add: TransformRow_cells text_size_def)
qed

lemma sum_list_sort_key: "(\<Sum>x \<leftarrow> sort_key g xs. f x :: nat) = (\<Sum>x \<leftarrow> xs. f x)"
  by (metis mset_map mset_sort sum_mset_sum_list)

lemma render_members_size: "length (render_members ms) \<le> (\<Sum>(k, v) \<leftarrow> ms. length k + length (render v) + 4)"
  by (induction ms) auto

lemma payload_size: "length (render (map_tree value_tree (map (\<lambda>(k, v). (k, PStr v)) cells))) \<le> 6 * text_size cells + 2"
proof -
  let ?p = "map (\<lambda>(k, v). (k, PStr v)) cells"
  let ?f = "\<lambda>(k, v). length (esc k) + length (render (value_tree v)) + 4"
  have "(\<Sum>x \<leftarrow> ?p. ?f x) \<le> 6 * text_size cells"
  proof (induction cells)
    case (Cons c cells)
    with length_esc [of "fst c"] length_esc [of "snd c"] show ?case
      by (simp add: text_size_def json_string_def split_beta)
  qed (simp add: text_size_def)
  then have "(\<Sum>x \<leftarrow> sort_key fst ?p. ?f x) \<le> 6 * text_size cells" by (simp only: sum_list_sort_key)
  with render_members_size [of "map (\<lambda>(k, x). (esc k, value_tree x)) (sort_key fst ?p)"]
  show ?thesis by (simp add: map_tree_def comp_def split_beta)
qed

section \<open>Messages\<close>

lemma html_esc_json_string [simp]: "html_esc (json_string s) = json_string s"
  by (simp add: json_string_def html_str_esc)

lemma html_esc_map_tree: "\<forall>x \<in> snd ` set m. html_esc (f x) = f x \<Longrightarrow> html_esc (map_tree f m) = map_tree f m"
  by (auto simp: map_tree_def html_str_esc)

lemma html_esc_value [simp]: "html_esc (value_tree v) = value_tree v"
  by (cases v) (simp_all add: html_esc_map_tree)

lemma newID_length: "length (newID b) = 2 * length b"
  by (induction b) (simp_all add: newID_def)

lemma row_message_fits:
  assumes "time_wf (snd now)" and "length rand = 8" and "[] \<notin> set header" and "length rec = length header"
    and "row_size header rec \<le> 170000"
  shows "frame_ok (message_body (row_message t now rand (row_of header rec)))"
proof -
  let ?m = "row_message t now rand (row_of header rec)"
  let ?v = "map_tree value_tree (TransformRow t (fst now) (row_of header rec))"
  have "\<forall>(k, v) \<in> set (row_of header rec). k \<noteq> []"
    using assms(3) row_of_keys [of header rec] by force
  from payload_texts [OF this, of t "fst now"] obtain cells where
    "TransformRow t (fst now) (row_of header rec) = map (\<lambda>(k, v). (k, PStr v)) cells"
    "text_size cells \<le> text_size (row_of header rec)" by blast
  with payload_size [of cells] text_size_row [OF assms(4)] assms(5)
  have v: "length (render ?v) \<le> 1020002" by simp
  have "html_esc ?v = ?v" by (simp add: html_esc_map_tree)
  moreover have "payload_tree (msg_Payload ?m) = Some ?v"
    by (simp add: row_message_def New_def payload_tree_def parse_payload)
  ultimately have "message_body ?m = bytes_of_string (render (message_tree ?m ?v))" "html_esc ?v = ?v"
    using Marshal_ok [OF row_message_ok [OF assms(1)], of t rand "row_of header rec"]
    by (auto simp: message_body_def)
  moreover have "length (esc (newID rand)) \<le> 96" "length (esc ''metric'') \<le> 36" "length (esc ''csv-producer'') \<le> 72"
    "length (esc (FormatRFC3339Nano (snd now))) \<le> 216"
    using length_esc [of "newID rand"] length_esc [of "''metric''"] length_esc [of "''csv-producer''"]
      length_esc [of "FormatRFC3339Nano (snd now)"] time_length [OF assms(1)] assms(2)
    by (simp_all add: newID_length)
  ultimately show ?thesis
    using v by (simp add: frame_ok_def message_tree_def json_string_def row_message_def New_def)
qed

end
