(* ===== verification/Pipeline.thy ===== *)
theory Pipeline
  imports BrokerProps MessageSize
begin

text \<open>
  The three programs together: what the producer program writes is the input of the broker's producer
  connection, what the broker writes to a consumer connection is the input of the consumer program.
\<close>

section \<open>The document of a row\<close>

text \<open>The non-empty cells under the names of their columns, the time the message was made and the time
  it was stored.\<close>

definition row_document :: "time \<Rightarrow> time \<Rightarrow> row \<Rightarrow> document" where
  "row_document sent stored row =
     (\<lambda>col. case map_of row col of
              None \<Rightarrow> None
            | Some val \<Rightarrow> if val = [] then None else Some (DStr val))
       (''timestamp'' \<mapsto> DTime sent, ''created_at'' \<mapsto> DTime stored)"

text \<open>The documents of rows, each with its number in the file.\<close>

definition row_documents :: "string list \<Rightarrow> (nat \<Rightarrow> time) \<Rightarrow> (nat \<Rightarrow> time) \<Rightarrow> (nat \<times> string list) list \<Rightarrow> document list" where
  "row_documents header sent stored irs = map (\<lambda>(i, r). row_document (sent i) (stored i) (row_of header r)) irs"

text \<open>All columns have names, and all cells and names are UTF-8.\<close>

definition table_utf8 :: "string list \<Rightarrow> string list list \<Rightarrow> bool" where
  "table_utf8 header rows \<longleftrightarrow> [] \<notin> set header \<and> (\<forall>s \<in> set header. valid_utf8 s) \<and>
     (\<forall>r \<in> set rows. \<forall>s \<in> set r. valid_utf8 s)"

lemma row_of_valid:
  assumes "\<forall>s \<in> set header. valid_utf8 s" and "\<forall>s \<in> set r. valid_utf8 s" and "(k, x) \<in> set (row_of header r)"
  shows "valid_utf8 k" and "valid_utf8 x"
proof -
  have "\<forall>(k, x) \<in> set (row_of header r). valid_utf8 k \<and> valid_utf8 x" using assms(1)
  proof (induction header rule: rev_induct)
    case (snoc col header)
    have "set (AList.update col y al) \<subseteq> insert (col, y) (set al)" for y and al :: row
      by (induction al) auto
    with snoc assms(2) show ?case by (fastforce simp: row_of_snoc)
  qed (simp add: row_of_def)
  with assms(3) show "valid_utf8 k" "valid_utf8 x" by auto
qed

lemma row_of_col: "[] \<notin> set header \<Longrightarrow> map_of (row_of header r) col = Some x \<Longrightarrow> col \<noteq> []"
  using map_of_SomeD [of "row_of header r" col x] row_of_keys [of header r] by (force simp: image_iff)

lemma transformed_row:
  assumes "[] \<notin> set header"
  shows "map_of (TransformRow t now (row_of header r)) =
    (\<lambda>col. case map_of (row_of header r) col of
             None \<Rightarrow> None | Some val \<Rightarrow> if val = [] \<and> col \<noteq> ''timestamp'' then None else Some (PStr val))"
  using row_of_col [OF assms]
  by (auto simp: TransformRow_map_of row_of_distinct transform_cell_def fun_eq_iff split: option.splits)

lemma row_message_document:
  assumes "[] \<notin> set header" and "\<forall>s \<in> set header. valid_utf8 s" and "\<forall>s \<in> set r. valid_utf8 s"
    and "time_wf (snd now)" and "\<not> IsZero (snd now)"
  shows "documents_of cnow (message_body (row_message t now rand (row_of header r))) =
    Some [row_document (snd now) (snd cnow) (row_of header r)]"
proof -
  let ?m = "row_message t now rand (row_of header r)" and ?p = "TransformRow t (fst now) (row_of header r)"
  note tr = transformed_row [OF assms(1), of t "fst now" r]
  have "valid_utf8 k \<and> value_valid v" if "(k, v) \<in> set ?p" for k v
  proof -
    from that have "map_of ?p k = Some v" using TransformRow_distinct by (simp add: map_of_is_SomeI)
    with tr obtain x where x: "map_of (row_of header r) k = Some x" "v = PStr x"
      by (auto split: option.splits if_splits)
    from row_of_valid [OF assms(2,3) map_of_SomeD [OF x(1)]] x(2) show ?thesis by simp
  qed
  then have "unmarshal_map (render (map_tree value_tree ?p)) = Inr (Some (payload_doc ?p))"
    by (intro unmarshal_payload TransformRow_distinct) auto
  moreover have ok: "message_ok ?m" using assms(4) by (rule row_message_ok)
  moreover have "msg_Payload ?m = Some (render (map_tree value_tree ?p))" by (simp add: row_message_def New_def)
  moreover from Marshal_ok [OF ok] obtain s where "Marshal_Message ?m = Inr s" by blast
  ultimately have "documents_of cnow (message_body ?m) = Some [stored_document ?m (payload_doc ?p) cnow]"
    by (simp add: documents_of_message message_body_def)
  moreover have "stored_document ?m (payload_doc ?p) cnow = row_document (snd now) (snd cnow) (row_of header r)"
    using assms(5)
    by (auto simp: stored_document_def row_document_def payload_doc_def tr row_message_def New_def fun_eq_iff
        split: option.splits)
  ultimately show ?thesis by simp
qed

section \<open>The programs\<close>

lemma role_lines:
  "bytes_of_string role_producer_line = role_line ''PRODUCER''"
  "bytes_of_string role_consumer_line = role_line ''CONSUMER''"
proof -
  have "byte_of_char (CHR 0x0A) = newline" by (simp add: byte_of_char_def newline_def)
  then show "bytes_of_string role_producer_line = role_line ''PRODUCER''"
    "bytes_of_string role_consumer_line = role_line ''CONSUMER''"
    by (simp_all only: role_producer_line_def role_consumer_line_def role_line_def bytes_of_string_append)
      (simp_all add: bytes_of_string_def)
qed

lemma consumer_main_documents:
  assumes "keeps (collection client (GetEnv env ''MONGODB_DATABASE'' ''message_streaming'')
      (GetEnv env ''MONGO_COLLECTION'' ''metrics'')) oid refuses"
    and "dial (GetEnv env ''BROKER_ADDR'' ''localhost:9080'') =
      Inr (\<lparr>avail = concat (map frame bodies), fin = EOF\<rparr>, w)" and "wr_room w = None"
    and "connect (GetEnv env ''MONGODB_URI'' ''mongodb://localhost:27017'') = Inr client" and "ping client = None"
    and "\<forall>b \<in> set bodies. frame_ok b"
    and "\<forall>i < length bodies. documents_of (clock i) (bodies ! i) = Some (ds i)"
  shows "consumer_main env dial connect ping collection clock db =
    Inr (EOF, w\<lparr>written := written w @ role_line ''CONSUMER''\<rparr>,
      fold (insert_document oid refuses) (concat (map ds [0..<length bodies])) db)"
proof -
  have ne: "GetEnv env k d \<noteq> []" if "d \<noteq> []" for k d using that by (rule GetEnv_nonempty)
  let ?col = "realCollection (collection client (GetEnv env ''MONGODB_DATABASE'' ''message_streaming'')
      (GetEnv env ''MONGO_COLLECTION'' ''metrics''))"
  have store: "NewMongoStore connect ping collection (GetEnv env ''MONGODB_URI'' ''mongodb://localhost:27017'')
      (GetEnv env ''MONGODB_DATABASE'' ''message_streaming'') (GetEnv env ''MONGO_COLLECTION'' ''metrics'') =
    Inr \<lparr>ms_client = client, ms_collection = ?col\<rparr>"
    using assms(4,5) by (simp add: NewMongoStore_def ne)
  have app: "keeps (ms_collection \<lparr>ms_client = client, ms_collection = ?col\<rparr>) oid refuses"
    using assms(1) by (simp add: keeps_def realCollection_def)
  have "\<forall>i < length bodies. documents_of (clock (0 + i)) (bodies ! i) = Some (ds i)" using assms(7) by simp
  from consume_all_documents [OF app this, of db] decode_frames_all [OF assms(6), of EOF] store assms(2,3)
  show ?thesis
    by (simp add: consumer_main_def Write_unlimited role_lines consumer_loop_frames)
qed

text \<open>The bodies the producer sends, as the consumer stores them.\<close>

lemma row_bodies_documents:
  assumes "table_utf8 header rows" and "\<forall>k. time_wf (snd (sent k)) \<and> \<not> IsZero (snd (sent k))"
  shows "\<forall>i < length (map message_body (row_messages t sent rand header 0 rows)).
    documents_of (stored i) (map message_body (row_messages t sent rand header 0 rows) ! i) =
      Some [row_document (snd (sent i)) (snd (stored i)) (row_of header (rows ! i))]"
proof (intro allI impI)
  fix i
  assume "i < length (map message_body (row_messages t sent rand header 0 rows))"
  then have i: "i < length rows" by (simp add: row_messages_def)
  then have "\<forall>x \<in> set (rows ! i). valid_utf8 x" using assms(1) nth_mem by (auto simp: table_utf8_def)
  with assms i row_message_document [of header "rows ! i" "sent i" "stored i"]
  show "documents_of (stored i) (map message_body (row_messages t sent rand header 0 rows) ! i) =
      Some [row_document (snd (sent i)) (snd (stored i)) (row_of header (rows ! i))]"
    by (simp add: table_utf8_def row_messages_def nth_enumerate_eq)
qed

lemma row_bodies_fit:
  assumes "table_ok header rows" and "table_utf8 header rows" and "\<forall>k. time_wf (snd (sent k))"
    and "\<forall>k. length (rand k) = 8" and "\<forall>r \<in> set rows. row_size header r \<le> 170000"
  shows "\<forall>b \<in> set (map message_body (row_messages t sent rand header 0 rows)). frame_ok b"
  using assms
  by (auto simp: row_messages_def in_set_enumerate_eq table_ok_def table_utf8_def intro!: row_message_fits)

lemma pipeline_documents:
  fixes sent :: "nat \<Rightarrow> time \<times> time" and stored :: "nat \<Rightarrow> time \<times> time"
  assumes "table_ok header rows" and "table_utf8 header rows" and "length rows \<le> 10000"
    and "\<forall>k. time_wf (snd (sent k)) \<and> \<not> IsZero (snd (sent k))"
    and "dial1 (GetEnv env1 ''BROKER_ADDR'' ''localhost:9080'') = Inr cn"
    and "wr_room (nc_out cn) = None" and "written (nc_out cn) = []"
    and "abs_path (GetEnv env1 ''CSV_PATH'' default_csv_path) = Inr path"
    and "open_file path = Inr \<lparr>file_text = csv_file header rows, file_fin = EOF, file_close = cl\<rparr>"
    and "\<forall>k. length (rand k) = 8" and "\<forall>r \<in> set rows. row_size header r \<le> 170000"
    and "wr_room w2 = None" and "written w2 = []" and "wr_room w3 = None"
    and "keeps (collection client (GetEnv env3 ''MONGODB_DATABASE'' ''message_streaming'')
      (GetEnv env3 ''MONGO_COLLECTION'' ''metrics'')) oid refuses"
    and "\<forall>c. \<forall>d \<in> set (row_documents header (snd \<circ> sent) (snd \<circ> stored) (enumerate 0 rows)). \<not> refuses c d"
    and "connect (GetEnv env3 ''MONGODB_URI'' ''mongodb://localhost:27017'') = Inr client" and "ping client = None"
  shows "\<exists>p cn' b b1 b2 w2' w3'.
    producer_main env1 dial1 abs_path open_file sent rand = Inr (0, Some p) \<and> p_conn p = Some cn' \<and>
    NewBroker Queue = Inr b \<and>
    HandleConn env2 cid1 c1 ord1 \<lparr>avail = written (nc_out cn'), fin = e1\<rparr> w1 b = Some (Inr (b1, w1, Returned)) \<and>
    HandleConn env2 cid2 c2 ord2 \<lparr>avail = role_line ''CONSUMER'', fin = e2\<rparr> w2 b1 = Some (Inr (b2, w2', Returned)) \<and>
    consumer_main env3 (\<lambda>_. Inr (\<lparr>avail = written w2', fin = EOF\<rparr>, w3)) connect ping collection stored db =
      Inr (EOF, w3', db @ bson_documents oid (length db)
        (row_documents header (snd \<circ> sent) (snd \<circ> stored) (enumerate 0 rows)))"
proof -
  let ?ms = "row_messages (transformer_for header ''timestamp'' ''labels_raw'') sent rand header 0 rows"
  let ?bodies = "map message_body ?ms"
  let ?ds = "\<lambda>i. [row_document (snd (sent i)) (snd (stored i)) (row_of header (rows ! i))]"
  have sent: "\<forall>k. time_wf (snd (sent k))" and len: "length ?bodies = length rows"
    using assms(4) by (simp_all add: row_messages_def)
  note frames = row_bodies_fit [OF assms(1,2) sent assms(10,11), of "transformer_for header ''timestamp'' ''labels_raw''"]
  from producer_main_written [where dial = dial1 and abs_path = abs_path and open_file = open_file and
      path = path and env = env1 and rand = rand, OF assms(1) sent assms(5,6,8,9)] assms(7)
  obtain p cn' where p: "producer_main env1 dial1 abs_path open_file sent rand = Inr (0, Some p)"
    "p_conn p = Some cn'" "written (nc_out cn') = role_line ''PRODUCER'' @ concat (map frame ?bodies)"
    by (auto simp: role_lines)
  from queue_mode_written [OF frames assms(12), of env2 cid1 c1 ord1 e1 w1 cid2 c2 ord2 e2] assms(13)
  obtain b b1 b2 w2' where b: "NewBroker Queue = Inr b"
    "HandleConn env2 cid1 c1 ord1 \<lparr>avail = written (nc_out cn'), fin = e1\<rparr> w1 b = Some (Inr (b1, w1, Returned))"
    "HandleConn env2 cid2 c2 ord2 \<lparr>avail = role_line ''CONSUMER'', fin = e2\<rparr> w2 b1 = Some (Inr (b2, w2', Returned))"
    "written w2' = concat (map frame ?bodies)"
    unfolding p(3) using assms(3) len by (auto simp: row_messages_def)
  note docs = row_bodies_documents [OF assms(2,4), of "transformer_for header ''timestamp'' ''labels_raw''" rand stored]
  let ?docs = "row_documents header (snd \<circ> sent) (snd \<circ> stored) (enumerate 0 rows)"
  have "concat (map ?ds [0..<length rows]) = ?docs"
    by (rule nth_equalityI) (simp_all add: concat_map_singleton nth_enumerate_eq row_documents_def)
  with consumer_main_documents [where dial = "\<lambda>_. Inr (\<lparr>avail = written w2', fin = EOF\<rparr>, w3)" and w = w3 and
      connect = connect and ping = ping and collection = collection and client = client and env = env3 and
      db = db and ds = ?ds, OF assms(15) _ assms(14,17,18) frames docs] len b(4)
    fold_insert_document [OF assms(16)]
  have "consumer_main env3 (\<lambda>_. Inr (\<lparr>avail = written w2', fin = EOF\<rparr>, w3)) connect ping collection stored db =
      Inr (EOF, w3\<lparr>written := written w3 @ role_line ''CONSUMER''\<rparr>,
        db @ bson_documents oid (length db) ?docs)"
    by simp
  with p b show ?thesis by blast
qed

text \<open>C2: The pipeline: a CSV table goes through the producer program, a new broker in queue mode and
  the consumer program into the collection. Each record becomes one document, in the order of the
  file: its non-empty cells as strings under the names of the columns (of columns with the same name the
  last), and, in place of columns of these names, the time its message was made as \<open>timestamp\<close> and the
  time of storing as \<open>created_at\<close>; the collection keeps the times in milliseconds and adds an object id.
  This is for a file written as CSV without carriage returns, whose records all have as many cells as there
  are columns and none of which is a single empty cell (a blank line), with UTF-8 cells and names
  and no column without a name; for at most 10000 records, the size of the queue, of at most
  170000 bytes each with the names of the columns, which always fit a frame; and for connections that do
  not fail and a collection that refuses none of these documents.\<close>

theorem pipeline_stores_rows:
  fixes sent :: "nat \<Rightarrow> time \<times> time" and stored :: "nat \<Rightarrow> time \<times> time"
  assumes "table_ok header rows" and "table_utf8 header rows" and "length rows \<le> 10000"
    and "\<forall>k. time_wf (snd (sent k)) \<and> \<not> IsZero (snd (sent k))"
    and "dial1 (GetEnv env1 ''BROKER_ADDR'' ''localhost:9080'') = Inr cn"
    and "wr_room (nc_out cn) = None" and "written (nc_out cn) = []"
    and "abs_path (GetEnv env1 ''CSV_PATH'' default_csv_path) = Inr path"
    and "open_file path = Inr \<lparr>file_text = csv_file header rows, file_fin = EOF, file_close = cl\<rparr>"
    and "\<forall>k. length (rand k) = 8" and "\<forall>r \<in> set rows. row_size header r \<le> 170000"
    and "wr_room w2 = None" and "written w2 = []" and "wr_room w3 = None"
    and "keeps (collection client (GetEnv env3 ''MONGODB_DATABASE'' ''message_streaming'')
      (GetEnv env3 ''MONGO_COLLECTION'' ''metrics'')) oid refuses"
    and "\<forall>c. \<forall>d \<in> set (row_documents header (snd \<circ> sent) (snd \<circ> stored) (enumerate 0 rows)). \<not> refuses c d"
    and "connect (GetEnv env3 ''MONGODB_URI'' ''mongodb://localhost:27017'') = Inr client" and "ping client = None"
  shows "\<exists>p cn' b b1 b2 w2' w3'.
    producer_main env1 dial1 abs_path open_file sent rand = Inr (0, Some p) \<and> p_conn p = Some cn' \<and>
    NewBroker Queue = Inr b \<and>
    HandleConn env2 cid1 c1 ord1 \<lparr>avail = written (nc_out cn'), fin = e1\<rparr> w1 b = Some (Inr (b1, w1, Returned)) \<and>
    HandleConn env2 cid2 c2 ord2 \<lparr>avail = role_line ''CONSUMER'', fin = e2\<rparr> w2 b1 = Some (Inr (b2, w2', Returned)) \<and>
    consumer_main env3 (\<lambda>_. Inr (\<lparr>avail = written w2', fin = EOF\<rparr>, w3)) connect ping collection stored db =
      Inr (EOF, w3', db @ bson_documents oid (length db)
        (row_documents header (snd \<circ> sent) (snd \<circ> stored) (enumerate 0 rows)))"
  by (rule pipeline_documents) (rule assms)+

section \<open>Example\<close>

definition year_two :: time where
  "year_two = zero_time\<lparr>year := 2\<rparr>"

lemma year_two: "time_wf year_two" "\<not> IsZero year_two"
  by (simp_all add: year_two_def zero_time_def time_wf_def daysIn_def IsZero_def abs_seconds_def
      days_before_year_def days_before_month_def)

theorem pipeline_stores_rows_witness:
  "\<exists>p cn' b b1 b2 w2' w3'.
    producer_main (\<lambda>_. []) (\<lambda>_. Inr example_conn) Inr
      (\<lambda>_. Inr \<lparr>file_text = csv_file [''a''] [[''1'']], file_fin = EOF, file_close = None\<rparr>)
      (\<lambda>_. (year_two, year_two)) (\<lambda>_. replicate 8 7) = Inr (0, Some p) \<and> p_conn p = Some cn' \<and>
    NewBroker Queue = Inr b \<and>
    HandleConn (\<lambda>_. []) ''u'' 0 (\<lambda>_ ks. ks) \<lparr>avail = written (nc_out cn'), fin = EOF\<rparr> (nc_out example_conn) b =
      Some (Inr (b1, nc_out example_conn, Returned)) \<and>
    HandleConn (\<lambda>_. []) ''v'' 1 (\<lambda>_ ks. ks) \<lparr>avail = role_line ''CONSUMER'', fin = EOF\<rparr> (nc_out example_conn) b1 =
      Some (Inr (b2, w2', Returned)) \<and>
    consumer_main (\<lambda>_. []) (\<lambda>_. Inr (\<lparr>avail = written w2', fin = EOF\<rparr>, nc_out example_conn)) (\<lambda>_. Inr ())
      (\<lambda>_. None) (\<lambda>_ _ _. memory_collection) (\<lambda>_. (year_two, zero_time)) [] =
      Inr (EOF, w3', [bson_document [] (row_document year_two zero_time (row_of [''a''] [''1'']))])"
proof -
  have t: "table_ok [''a''] [[''1'']]" "table_utf8 [''a''] [[''1'']]"
    by (simp_all add: table_ok_def csv_ok_def cr_def table_utf8_def valid_utf8_ascii)
  note app = memory_collection_keeps
  have c: "wr_room (nc_out example_conn) = None" "written (nc_out example_conn) = []"
    by (simp_all add: example_conn_def)
  from pipeline_stores_rows [where header = "[''a'']" and rows = "[[''1'']]" and
      sent = "\<lambda>_. (year_two, year_two)" and stored = "\<lambda>_. (year_two, zero_time)" and ?dial1.0 = "\<lambda>_. Inr example_conn" and
      ?env1.0 = "\<lambda>_. []" and ?env2.0 = "\<lambda>_. []" and ?env3.0 = "\<lambda>_. []" and cn = example_conn and abs_path = Inr and
      path = default_csv_path and open_file = "\<lambda>_. Inr \<lparr>file_text = csv_file [''a''] [[''1'']], file_fin = EOF, file_close = None\<rparr>"
      and cl = None and rand = "\<lambda>_. replicate 8 7" and ?w1.0 = "nc_out example_conn" and ?w2.0 = "nc_out example_conn" and
      ?w3.0 = "nc_out example_conn" and collection = "\<lambda>_ _ _. memory_collection" and client = "()" and
      connect = "\<lambda>_. Inr ()" and ping = "\<lambda>_. None" and db = "[]" and ?cid1.0 = "''u''" and ?c1.0 = 0 and
      ?ord1.0 = "\<lambda>_ ks. ks" and ?cid2.0 = "''v''" and ?c2.0 = 1 and ?ord2.0 = "\<lambda>_ ks. ks" and ?e1.0 = EOF and ?e2.0 = EOF and
      oid = "\<lambda>_. []" and refuses = "\<lambda>_ _. False"]
  show ?thesis using t year_two c app by (simp add: GetEnv_def row_size_def bson_documents_def row_documents_def)
qed

end
