(* ===== verification/Programs.thy ===== *)
theory Programs
  imports Pipeline
begin

text \<open>
  \<open>cmd/message_queue\<close> and \<open>cmd/metrics\<close>: the configuration from the environment, how the programs
  put the components together, and the loop that accepts connections. Listening, the results of
  \<open>Accept\<close>, the driver and the routing of gin are arguments.
\<close>

section \<open>The broker program\<close>

record mq_config =
  cfg_mode :: DeliveryMode
  cfg_tcpAddr :: string
  cfg_httpPort :: string

definition mq_config_from_env :: "environment \<Rightarrow> mq_config" where
  "mq_config_from_env env =
     \<lparr>cfg_mode = ParseDeliveryMode (ToLower (GetEnv env ''DELIVERY_MODE'' ''broadcast'')),
      cfg_tcpAddr = GetEnv env ''TCP_PORT'' ''9080'', cfg_httpPort = GetEnv env ''HTTP_PORT'' ''8080''\<rparr>"

text \<open>Up to the accept loop: \<open>Inl\<close> is the exit status, \<open>Inr\<close> the broker with its listener and the
  address of the health server.\<close>

definition message_queue_start ::
    "environment \<Rightarrow> (string \<Rightarrow> go_error + 'l) \<Rightarrow> (nat + Broker \<times> 'l \<times> string) go" where
  "message_queue_start env listen =
     (let cfg = mq_config_from_env env in
      bind_go (NewBroker (cfg_mode cfg)) (\<lambda>srv.
        case listen (CHR '':'' # cfg_tcpAddr cfg) of
          Inl err \<Rightarrow> Inr (Inl 1)
        | Inr ln \<Rightarrow> Inr (Inr (srv, ln, CHR '':'' # cfg_httpPort cfg))))"

text \<open>The connections that get a handler, from the results of \<open>Accept\<close>: an error is skipped unless
  it says that the listener is closed.\<close>

fun accept_loop :: "(go_error \<Rightarrow> bool) \<Rightarrow> (go_error + 'c) list \<Rightarrow> 'c list" where
  "accept_loop is_closed [] = []"
| "accept_loop is_closed (Inl err # rs) = (if is_closed err then [] else accept_loop is_closed rs)"
| "accept_loop is_closed (Inr conn # rs) = conn # accept_loop is_closed rs"

text \<open>The health server: its two routes with their bodies, and the header, status and body of a response;
  another path is not found.\<close>

definition health_routes :: "(string \<times> string) list" where
  "health_routes = [(''/healthz'', ''{\"status\":\"ok\"}''), (''/ready'', ''{\"status\":\"ready\"}'')]"

definition health_handler :: "string \<Rightarrow> ((string \<times> string) \<times> nat \<times> string) option" where
  "health_handler path =
     map_option (\<lambda>body. ((''Content-Type'', ''application/json''), 200, body)) (map_of health_routes path)"

text \<open>After the signal: the listener and the HTTP server are shut down, their errors ignored, then the
  broker is closed.\<close>

definition message_queue_stop :: "string list \<Rightarrow> Broker \<Rightarrow> Broker go" where
  "message_queue_stop order srv = Broker_Close order srv"

section \<open>The metrics program\<close>

record config =
  cfg_Port :: string
  cfg_MongoURI :: string
  cfg_DBName :: string
  cfg_Collection :: string
  cfg_AuthToken :: string
  cfg_DefaultLimit :: int64

definition newConfigFromEnv :: "environment \<Rightarrow> config" where
  "newConfigFromEnv env =
     \<lparr>cfg_Port = GetEnv env ''METRICS_PORT'' ''8080'',
      cfg_MongoURI = GetEnv env ''MONGODB_URI'' ''mongodb://localhost:27017'',
      cfg_DBName = GetEnv env ''MONGODB_DATABASE'' ''message_streaming'',
      cfg_Collection = GetEnv env ''MONGO_COLLECTION'' ''metrics'',
      cfg_AuthToken = env ''AUTH_TOKEN'',
      cfg_DefaultLimit =
        (if env ''DEFAULT_PAGE_SIZE'' \<noteq> []
         then (case Atoi (env ''DEFAULT_PAGE_SIZE'') of
                 Inr n \<Rightarrow> if 0 < n then word_of_int n else 100
               | Inl _ \<Rightarrow> 100)
         else 100)\<rparr>"

text \<open>\<open>Inl\<close> is the exit status, \<open>Inr\<close> the address and what answers the requests to it; \<open>c\<close> is the
  state of the collection when the request comes.\<close>

definition metrics_main ::
    "environment \<Rightarrow> (string \<Rightarrow> go_error + 'k) \<Rightarrow> ('k \<Rightarrow> go_error option) \<Rightarrow>
     ('k \<Rightarrow> string \<Rightarrow> string \<Rightarrow> 'c CollectionAPI) \<Rightarrow> ('k \<Rightarrow> go_error option) \<Rightarrow>
     (string \<Rightarrow> string \<Rightarrow> bool) \<Rightarrow> string option \<Rightarrow> (string \<Rightarrow> bytes option) \<Rightarrow>
     nat + string \<times> ('c \<Rightarrow> document gin_handler)" where
  "metrics_main env connect ping collection disconnect route_matches getwd read_file =
     (let cfg = newConfigFromEnv env in
      case NewMongoStore connect ping collection (cfg_MongoURI cfg) (cfg_DBName cfg) (cfg_Collection cfg) of
        Inl err \<Rightarrow> Inl 1
      | Inr store \<Rightarrow>
          Inr (CHR '':'' # cfg_Port cfg, \<lambda>c.
            (let authenticator = Authenticate (NewTokenAuthenticator (cfg_AuthToken cfg));
                 adapter = NewStoreAdapter (Mongo_QueryTelemetry store c) (Mongo_ListGPUs store c)
                             (Mongo_Close disconnect store);
                 handler = NewHandler (adapter_store adapter) authenticator SortStrings (cfg_DefaultLimit cfg)
             in RegisterGinRoutes route_matches getwd read_file handler authenticator)))"

section \<open>Facts\<close>

lemma DefaultLimit_positive: "0 < sint (cfg_DefaultLimit (newConfigFromEnv env))"
proof -
  have "sint (word_of_int n :: int64) = n" if "int_min \<le> n" "n \<le> int_max" for n
    using that by (simp add: signed_of_int signed_take_bit_int_eq_self int_min_def int_max_def)
  then show ?thesis
    using Atoi_range by (auto simp: newConfigFromEnv_def split: sum.splits)
qed

text \<open>The name of a mode in \<open>DELIVERY_MODE\<close> selects it, and none selects broadcasting.\<close>

lemma mode_from_env:
  "env ''DELIVERY_MODE'' = DeliveryMode_String m \<Longrightarrow> m \<noteq> OtherMode \<Longrightarrow> cfg_mode (mq_config_from_env env) = m"
  "env ''DELIVERY_MODE'' = [] \<Longrightarrow> cfg_mode (mq_config_from_env env) = Broadcast"
proof -
  have lower: "ToLower (DeliveryMode_String m) = DeliveryMode_String m" for m
    by (cases m) (simp_all add: ascii_lower_def)
  have ne: "DeliveryMode_String m \<noteq> []" for m by (cases m) simp_all
  show "env ''DELIVERY_MODE'' = DeliveryMode_String m \<Longrightarrow> m \<noteq> OtherMode \<Longrightarrow> cfg_mode (mq_config_from_env env) = m"
    using ParseDeliveryMode_String by (simp add: mq_config_from_env_def GetEnv_def ne lower)
  show "env ''DELIVERY_MODE'' = [] \<Longrightarrow> cfg_mode (mq_config_from_env env) = Broadcast"
    using lower [of Broadcast] by (simp add: mq_config_from_env_def GetEnv_def ParseDeliveryMode_def)
qed

text \<open>Every connection accepted before the listener was closed gets its handler.\<close>

lemma accept_loop_conns:
  "accept_loop is_closed rs =
     List.map_filter (\<lambda>r. case r of Inr conn \<Rightarrow> Some conn | Inl _ \<Rightarrow> None)
       (takeWhile (\<lambda>r. case r of Inl err \<Rightarrow> \<not> is_closed err | Inr _ \<Rightarrow> True) rs)"
  by (induction is_closed rs rule: accept_loop.induct) (auto simp: map_filter_simps)

end
