(* ===== verification/BrokerProgram.thy ===== *)
theory BrokerProgram
  imports BrokerFifo HttpServer Programs
begin

text \<open>
  \<open>cmd/message_queue/main.go\<close> and \<open>http_server.go\<close> running: the accept goroutine, the goroutine of the
  health server, one handler per accepted connection and the main goroutine, which waits for the
  signal and then shuts down (the health server within 5 seconds), interleaved in any order. The handlers and the closing of the broker
  are the steps of \<open>BrokerSystem\<close>; a connection is what its bytes make of it.
\<close>

section \<open>The program\<close>

text \<open>A connection at the start of \<open>HandleConn\<close>: the role line, then for a producer the bodies that
  its loop over \<open>ReadFrame\<close> will read. A handler without a role it knows returns.\<close>

definition new_conn :: "control \<Rightarrow> bytes list \<Rightarrow> conn" where
  "new_conn p ms = \<lparr>pc = p, todo = ms, handled = [], wire = []\<rparr>"

definition accept_conn :: "DeliveryMode \<Rightarrow> instream \<Rightarrow> conn" where
  "accept_conn mode inp =
     (case ReadString inp of
        (Inl err, _) \<Rightarrow> new_conn Producer_done []
      | (Inr line, r) \<Rightarrow>
          (let role = trimLine (string_of_bytes line) in
           if role = roleProducer then new_conn Reading (fst (decode_frames r))
           else if role = roleConsumer then
             (case mode of
                Broadcast \<Rightarrow> new_conn Starting []
              | Queue \<Rightarrow> new_conn Dequeueing []
              | OtherMode \<Rightarrow> new_conn Producer_done [])
           else new_conn Producer_done []))"

text \<open>The main goroutine: waiting for the signal, then one call after the other, in the call of
  \<open>Shutdown\<close> waiting for the connections of the health server; sleeping; returned. The fields
  \<open>prog_inputs\<close> and \<open>health_sent\<close> only record the connections accepted and what the health server has
  answered, each path with the answer of its handler.\<close>

datatype main_at =
    Awaiting_signal | Closing_listener | Shutting_http | Draining_http | Closing_broker | Sleeping | Main_returned

datatype accept_at = Accepting | Accept_returned

record program =
  prog_sys :: system
  prog_inputs :: "instream list"
  ln_open :: bool
  accept_at :: accept_at
  acceptErrCh :: "go_error option chan"
  health :: "string http_server"
  health_sent :: "(string \<times> ((string \<times> string) \<times> nat \<times> string) option) list"
  main_at :: main_at

definition boot :: "Broker \<Rightarrow> program" where
  "boot b = \<lparr>prog_sys = \<lparr>conns = [], shr = \<lparr>sb = b, crash = None, accepted = \<lambda>_. [], refused = [], entered = [], handed = []\<rparr>, closing = 0\<rparr>,
     prog_inputs = [], ln_open = True, accept_at = Accepting,
     acceptErrCh = \<lparr>chan_buf = [], chan_cap = 1, chan_closed = False\<rparr>,
     health = new_server, health_sent = [], main_at = Awaiting_signal\<rparr>"

definition prog_start :: "environment \<Rightarrow> (string \<Rightarrow> go_error + 'l) \<Rightarrow> program \<Rightarrow> bool" where
  "prog_start env listen p \<longleftrightarrow>
     (case message_queue_start env listen of
        Inr (Inr (b, ln, addr)) \<Rightarrow> p = boot b
      | _ \<Rightarrow> False)"

text \<open>A panic in any goroutine ends the process, and so does the return of the main goroutine.\<close>

definition alive :: "program \<Rightarrow> bool" where
  "alive p \<longleftrightarrow> crash (shr (prog_sys p)) = None \<and> main_at p \<noteq> Main_returned"

abbreviation prog_mode :: "program \<Rightarrow> DeliveryMode" where
  "prog_mode p \<equiv> broker_mode (sb (shr (prog_sys p)))"

inductive prog_step :: "environment \<Rightarrow> program \<Rightarrow> program \<Rightarrow> bool" for env :: environment where
  Accept: "alive p \<Longrightarrow> accept_at p = Accepting \<Longrightarrow> ln_open p \<Longrightarrow>
    prog_step env p (p\<lparr>prog_sys := (prog_sys p)\<lparr>conns := conns (prog_sys p) @ [accept_conn (prog_mode p) inp]\<rparr>,
                      prog_inputs := prog_inputs p @ [inp]\<rparr>)"
| AcceptError: "alive p \<Longrightarrow> accept_at p = Accepting \<Longrightarrow> prog_step env p p"
| AcceptClosed: "alive p \<Longrightarrow> accept_at p = Accepting \<Longrightarrow> \<not> ln_open p \<Longrightarrow>
    try_send None (acceptErrCh p) = Inr (True, ch') \<Longrightarrow>
    prog_step env p (p\<lparr>accept_at := Accept_returned, acceptErrCh := ch'\<rparr>)"
| Handler: "alive p \<Longrightarrow> i < length (conns (prog_sys p)) \<Longrightarrow>
    conn_step env i (conns (prog_sys p) ! i, shr (prog_sys p)) (cn', sh') \<Longrightarrow>
    prog_step env p (p\<lparr>prog_sys := (prog_sys p)\<lparr>conns := (conns (prog_sys p))[i := cn'], shr := sh'\<rparr>\<rparr>)"
| Health: "alive p \<Longrightarrow> serve_step (health p) h' \<Longrightarrow> prog_step env p (p\<lparr>health := h'\<rparr>)"
| HealthAnswer: "alive p \<Longrightarrow> answer_step (health p) path h' \<Longrightarrow>
    prog_step env p (p\<lparr>health := h', health_sent := health_sent p @ [(path, health_handler path)]\<rparr>)"
| Signal: "alive p \<Longrightarrow> main_at p = Awaiting_signal \<Longrightarrow> prog_step env p (p\<lparr>main_at := Closing_listener\<rparr>)"
| CloseListener: "alive p \<Longrightarrow> main_at p = Closing_listener \<Longrightarrow>
    prog_step env p (p\<lparr>ln_open := False, main_at := Shutting_http\<rparr>)"
| ShutdownHttp: "alive p \<Longrightarrow> main_at p = Shutting_http \<Longrightarrow>
    prog_step env p (p\<lparr>health := http_Shutdown (health p), main_at := Draining_http\<rparr>)"
| HttpDrained: "alive p \<Longrightarrow> main_at p = Draining_http \<Longrightarrow> drained (health p) \<Longrightarrow>
    prog_step env p (p\<lparr>main_at := Closing_broker\<rparr>)"
| HttpTimedOut: "alive p \<Longrightarrow> main_at p = Draining_http \<Longrightarrow> prog_step env p (p\<lparr>main_at := Closing_broker\<rparr>)"
| CloseBroker: "alive p \<Longrightarrow> main_at p = Closing_broker \<Longrightarrow> close_step (prog_sys p) s' \<Longrightarrow>
    prog_step env p (p\<lparr>prog_sys := s'\<rparr>)"
| BrokerClosed: "alive p \<Longrightarrow> main_at p = Closing_broker \<Longrightarrow> closing (prog_sys p) = 3 \<Longrightarrow>
    prog_step env p (p\<lparr>main_at := Sleeping\<rparr>)"
| Return: "alive p \<Longrightarrow> main_at p = Sleeping \<Longrightarrow> prog_step env p (p\<lparr>main_at := Main_returned\<rparr>)"

abbreviation prog_runs :: "environment \<Rightarrow> program \<Rightarrow> program \<Rightarrow> bool" where
  "prog_runs env \<equiv> rtranclp (prog_step env)"

section \<open>The program refines the interleaved broker\<close>

text \<open>A connection more, behind the others, changes no step: so one that is accepted later can be
  there from the start.\<close>

definition add_conn :: "conn \<Rightarrow> system \<Rightarrow> system" where
  "add_conn cn s = s\<lparr>conns := conns s @ [cn]\<rparr>"

lemma add_conn_simps [simp]:
  "conns (add_conn cn s) = conns s @ [cn]" "shr (add_conn cn s) = shr s" "closing (add_conn cn s) = closing s"
  by (simp_all add: add_conn_def)

lemma close_step_add_conn: "close_step s s' \<Longrightarrow> close_step (add_conn cn s) (add_conn cn s')"
  by (cases s) (auto simp: add_conn_def close_step.simps)

lemma sys_step_add_conn:
  assumes "sys_step env s s'"
  shows "sys_step env (add_conn cn s) (add_conn cn s')"
  using assms
proof cases
  case (Conn i cn' sh')
  then have "conn_step env i (conns (add_conn cn s) ! i, shr (add_conn cn s)) (cn', sh')"
    by (simp add: nth_append)
  from sys_step.Conn [OF _ _ this] Conn show ?thesis
    by (cases s) (simp add: add_conn_def list_update_append1)
next
  case Close
  then show ?thesis by (rule sys_step.Close [OF close_step_add_conn])
qed

lemma sys_runs_add_conn: "sys_runs env s s' \<Longrightarrow> sys_runs env (add_conn cn s) (add_conn cn s')"
  by (induction rule: rtranclp_induct) (auto intro: sys_step_add_conn rtranclp.rtrancl_into_rtrancl)

lemma sys_start_accept: "sys_start mode s \<Longrightarrow> sys_start mode (add_conn (accept_conn mode inp) s)"
  by (auto simp: sys_start_def accept_conn_def new_conn_def Let_def
      split: prod.splits sum.splits DeliveryMode.splits)

lemma conn_step_mode: "conn_step env i (cn, sh) (cn', sh') \<Longrightarrow> broker_mode (sb sh') = broker_mode (sb sh)"
  by (erule conn_stepE) (auto simp: sh_defs consumer_start_def bind_go_eq_Inr)

lemma close_step_mode: "close_step s s' \<Longrightarrow> broker_mode (sb (shr s')) = broker_mode (sb (shr s))"
  by (erule close_step.cases) (auto simp: sh_defs)

lemma prog_step_mode: "prog_step env p p' \<Longrightarrow> prog_mode p' = prog_mode p"
  by (erule prog_step.cases) (auto simp: conn_step_mode close_step_mode)

definition refines_system :: "environment \<Rightarrow> DeliveryMode \<Rightarrow> program \<Rightarrow> bool" where
  "refines_system env mode p \<longleftrightarrow> prog_mode p = mode \<and>
     (\<exists>s0. sys_start mode s0 \<and> conns s0 = map (accept_conn mode) (prog_inputs p) \<and> sys_runs env s0 (prog_sys p))"

lemma refines_system_step:
  assumes "prog_step env p p'" and "refines_system env mode p"
  shows "refines_system env mode p'"
proof -
  from assms(2) obtain s0 where mode: "prog_mode p = mode" and s0: "sys_start mode s0"
    "conns s0 = map (accept_conn mode) (prog_inputs p)" "sys_runs env s0 (prog_sys p)"
    by (auto simp: refines_system_def)
  have mode': "prog_mode p' = mode" using prog_step_mode [OF assms(1)] mode by simp
  have same: ?thesis if "prog_inputs p' = prog_inputs p" "sys_runs env (prog_sys p) (prog_sys p')"
    using s0 that mode' rtranclp_trans [OF s0(3) that(2)] by (auto simp: refines_system_def)
  from assms(1) show ?thesis
  proof cases
    case (Accept inp)
    from sys_start_accept [OF s0(1), of inp] sys_runs_add_conn [OF s0(3), of "accept_conn mode inp"] s0(2)
    show ?thesis
      using mode mode' Accept by (auto simp: refines_system_def add_conn_def intro!: exI [of _ "add_conn (accept_conn mode inp) s0"])
  next
    case (Handler i cn' sh')
    then have "sys_step env (prog_sys p) (prog_sys p')"
      using sys_step.Conn [OF _ Handler(3,4)] by (simp add: alive_def)
    then show ?thesis using Handler by (intro same) auto
  next
    case (CloseBroker s')
    then show ?thesis by (intro same) (auto intro: sys_step.Close)
  qed (rule same; simp)+
qed

lemma refines_system_runs:
  "prog_runs env p p' \<Longrightarrow> refines_system env mode p \<Longrightarrow> refines_system env mode p'"
  by (induction rule: rtranclp_induct) (auto intro: refines_system_step)

lemma prog_start_boot:
  assumes "prog_start env listen p"
  obtains b where "NewBroker (cfg_mode (mq_config_from_env env)) = Inr b" "p = boot b"
proof -
  from assms obtain b ln addr where "message_queue_start env listen = Inr (Inr (b, ln, addr))" "p = boot b"
    by (auto simp: prog_start_def split: sum.splits)
  with that show thesis
    by (cases "listen (CHR '':'' # cfg_tcpAddr (mq_config_from_env env))")
      (auto simp: message_queue_start_def Let_def bind_go_eq_Inr)
qed

lemma prog_start_refines:
  assumes "prog_start env listen p"
  shows "refines_system env (cfg_mode (mq_config_from_env env)) p"
proof -
  from prog_start_boot [OF assms] obtain b where b: "NewBroker (cfg_mode (mq_config_from_env env)) = Inr b" "p = boot b" .
  then have "broker_mode b = cfg_mode (mq_config_from_env env)"
    by (auto simp: NewBroker_def bind_go_eq_Inr)
  with b show ?thesis
    by (auto simp: refines_system_def boot_def sys_start_def intro!: exI [of _ "prog_sys (boot b)"])
qed

section \<open>The shutdown\<close>

text \<open>How far the main goroutine is: the calls it has still to make, each step of \<open>Broker.Close\<close> being
  one.\<close>

definition main_left :: "program \<Rightarrow> nat" where
  "main_left p = (case main_at p of
      Awaiting_signal \<Rightarrow> 9 | Closing_listener \<Rightarrow> 8 | Shutting_http \<Rightarrow> 7 | Draining_http \<Rightarrow> 6 | Closing_broker \<Rightarrow> 5 - closing (prog_sys p)
    | Sleeping \<Rightarrow> 1 | Main_returned \<Rightarrow> 0)"

definition shutdown_order :: "program \<Rightarrow> bool" where
  "shutdown_order p \<longleftrightarrow>
     (ln_open p \<longleftrightarrow> main_at p \<in> {Awaiting_signal, Closing_listener}) \<and>
     (in_shutdown (health p) \<longleftrightarrow> main_at p \<in> {Draining_http, Closing_broker, Sleeping, Main_returned}) \<and>
     (0 < closing (prog_sys p) \<longrightarrow> main_at p \<in> {Closing_broker, Sleeping, Main_returned}) \<and>
     (main_at p \<in> {Sleeping, Main_returned} \<longrightarrow> closing (prog_sys p) = 3) \<and> closing (prog_sys p) \<le> 3 \<and>
     (accept_at p = Accept_returned \<longrightarrow> \<not> ln_open p) \<and>
     acceptErrCh p = \<lparr>chan_buf = if accept_at p = Accepting then [] else [None], chan_cap = 1, chan_closed = False\<rparr>"

lemma close_step_closing:
  "close_step s s' \<Longrightarrow> closing s' \<le> 3 \<and> closing s < 3 \<and> conns s' = conns s \<and>
     (closing s' = Suc (closing s) \<or> closing s' = closing s \<and> crash (shr s') \<noteq> None)"
  by (erule close_step.cases) auto

lemma shutdown_order_step:
  assumes "prog_step env p p'" and "shutdown_order p"
  shows "shutdown_order p'"
  using assms(1)
proof cases
  case (CloseBroker s')
  with assms(2) close_step_closing [OF CloseBroker(4)] show ?thesis by (auto simp: shutdown_order_def)
qed (use assms(2) in \<open>auto simp: shutdown_order_def try_send_def http_Shutdown_def split: if_splits\<close>)

lemma shutdown_order_runs: "prog_runs env p p' \<Longrightarrow> shutdown_order p \<Longrightarrow> shutdown_order p'"
  by (induction rule: rtranclp_induct) (auto intro: shutdown_order_step)

lemma boot_order: "shutdown_order (boot b)"
  by (simp add: shutdown_order_def boot_def new_server_def)

text \<open>The queue and the registry never stop the main goroutine.\<close>

lemma close_progressI:
  "close_step s s' \<Longrightarrow> closing s' = Suc (closing s) \<Longrightarrow> crash (shr s') = None \<Longrightarrow>
   \<exists>s'. close_step s s' \<and> closing s' = Suc (closing s) \<and> crash (shr s') = None"
  by blast

lemma main_progressI:
  "prog_step env p p' \<Longrightarrow> main_left p' < main_left p \<Longrightarrow> crash (shr (prog_sys p')) = None \<Longrightarrow>
   \<exists>p'. prog_step env p p' \<and> main_left p' < main_left p \<and> crash (shr (prog_sys p')) = None"
  by blast

lemma close_step_enabled:
  assumes "sys_safe s" and "crash (shr s) = None" and "closing s < 3"
  shows "\<exists>s'. close_step s s' \<and> closing s' = Suc (closing s) \<and> crash (shr s') = None"
proof -
  note safe = assms(1) [unfolded sys_safe_def]
  consider "closing s = 0" | "closing s = 1" | "closing s = 2" using assms(3) by linarith
  then show ?thesis
  proof cases
    case 1
    with safe obtain ch where "mq_queue (queue (sb (shr s))) = Some ch" "\<not> chan_closed ch"
      by (auto simp: queue_state_def)
    then have "close_step s (s\<lparr>shr := set_queue ((queue (sb (shr s)))\<lparr>mq_queue := Some (ch\<lparr>chan_closed := True\<rparr>)\<rparr>) (shr s),
        closing := 1\<rparr>)"
      using CloseQueue [OF assms(2) 1] by (simp add: close_chan_def)
    then show ?thesis by (rule close_progressI) (simp_all add: set_queue_def assms(2) 1)
  next
    case 2
    show ?thesis by (rule close_progressI, rule ClearQueue [OF assms(2) 2]) (simp_all add: sh_defs assms(2) 2)
  next
    case 3
    let ?reg = "registry (sb (shr s))" and ?h = "broker_heap (sb (shr s))"
    have inv: "reg_inv (?reg, ?h)" using safe by (simp add: reg_ok_def)
    let ?order = "map fst (consumers ?reg)"
    have order: "distinct ?order" "set ?order = fst ` set (consumers ?reg)"
      using inv by (auto simp: reg_inv_def)
    from Registry_Close_keeps [OF inv order] obtain r' h' where
      "Registry_Close ?order (?reg, ?h) = Inr (r', h')" by auto
    from CloseRegistry [OF assms(2) 3 order this] show ?thesis
      by (rule close_progressI) (simp_all add: set_registry_def assms(2) 3)
  qed
qed

lemma main_progress:
  assumes "alive p" and "sys_safe (prog_sys p)" and "shutdown_order p"
  shows "\<exists>p'. prog_step env p p' \<and> main_left p' < main_left p \<and> crash (shr (prog_sys p')) = None"
proof (cases "main_at p")
  case Closing_broker
  show ?thesis
  proof (cases "closing (prog_sys p) = 3")
    case True
    from BrokerClosed [OF assms(1) Closing_broker True] show ?thesis
      by (rule main_progressI) (use assms(1) Closing_broker True in \<open>simp_all add: main_left_def alive_def\<close>)
  next
    case False
    with assms have "closing (prog_sys p) < 3" "crash (shr (prog_sys p)) = None"
      by (auto simp: shutdown_order_def alive_def)
    from close_step_enabled [OF assms(2) this(2,1)] obtain s' where
      "close_step (prog_sys p) s'" "closing s' = Suc (closing (prog_sys p))" "crash (shr s') = None" by blast
    with CloseBroker [OF assms(1) Closing_broker] \<open>closing (prog_sys p) < 3\<close> Closing_broker show ?thesis
      by (intro exI [of _ "p\<lparr>prog_sys := s'\<rparr>"]) (auto simp: main_left_def)
  qed
next
  case Awaiting_signal
  from Signal [OF assms(1) this] show ?thesis
    by (rule main_progressI) (use assms(1) Awaiting_signal in \<open>simp_all add: main_left_def alive_def\<close>)
next
  case Closing_listener
  from CloseListener [OF assms(1) this] show ?thesis
    by (rule main_progressI) (use assms(1) Closing_listener in \<open>simp_all add: main_left_def alive_def\<close>)
next
  case Shutting_http
  from ShutdownHttp [OF assms(1) this] show ?thesis
    by (rule main_progressI) (use assms(1) Shutting_http in \<open>simp_all add: main_left_def alive_def\<close>)
next
  case Draining_http
  from HttpTimedOut [OF assms(1) this] show ?thesis
    by (rule main_progressI) (use assms(1) Draining_http in \<open>simp_all add: main_left_def alive_def\<close>)
next
  case Sleeping
  from Return [OF assms(1) this] show ?thesis
    by (rule main_progressI) (use assms(1) Sleeping in \<open>simp_all add: main_left_def alive_def\<close>)
qed (use assms(1) in \<open>simp add: alive_def\<close>)

lemma main_left_step:
  assumes "prog_step env p p'"
  shows "main_left p' \<le> main_left p"
  using assms
proof cases
  case (CloseBroker s')
  with close_step_closing [OF CloseBroker(4)] show ?thesis by (auto simp: main_left_def)
qed (simp_all add: main_left_def split: main_at.splits)

lemma main_left_0: "main_left p = 0 \<longleftrightarrow> main_at p = Main_returned" if "shutdown_order p"
  using that by (auto simp: main_left_def shutdown_order_def split: main_at.splits)

text \<open>What holds in every state of a run of the program.\<close>

lemma reachable_program:
  assumes "prog_start env listen p0" and "prog_runs env p0 p"
  shows "shutdown_order p" and "refines_system env (cfg_mode (mq_config_from_env env)) p"
    and "0 < GetEnvInt env ''CONSUMER_CHANNEL_BUFFER_SIZE'' 10000 \<Longrightarrow> sys_safe (prog_sys p)"
proof -
  show "shutdown_order p"
    using prog_start_boot [OF assms(1)] shutdown_order_runs [OF assms(2)] boot_order by metis
  show r: "refines_system env (cfg_mode (mq_config_from_env env)) p"
    by (rule refines_system_runs [OF assms(2) prog_start_refines [OF assms(1)]])
  show "sys_safe (prog_sys p)" if "0 < GetEnvInt env ''CONSUMER_CHANNEL_BUFFER_SIZE'' 10000"
    using r that by (auto simp: refines_system_def intro: sys_runs_safe sys_start_safe)
qed

lemma no_accept_after_close:
  assumes "prog_runs env p p'" and "\<not> ln_open p"
  shows "\<not> ln_open p' \<and> prog_inputs p' = prog_inputs p \<and> length (conns (prog_sys p')) = length (conns (prog_sys p))"
  using assms(1)
proof (induction rule: rtranclp_induct)
  case (step p1 p2)
  from step(2) show ?case
  proof cases
    case (CloseBroker s')
    with step(3) close_step_closing [OF CloseBroker(4)] show ?thesis by simp
  qed (use step(3) in simp_all)
qed (use assms(2) in simp)

text \<open>Once the health server is shut down every answer is the last on a connection that was open then.\<close>

lemma health_after_shutdown:
  assumes "prog_runs env p p'" and "in_shutdown (health p)"
  shows "in_shutdown (health p') \<and>
    length (health_sent p') + open_connections (health p') \<le> length (health_sent p) + open_connections (health p)"
  using assms(1)
proof (induction rule: rtranclp_induct)
  case (step p1 p2)
  from step(2) show ?case
  proof cases
    case (Health h')
    with step(3) serve_step_connections [OF Health(3)] show ?thesis by simp
  next
    case (HealthAnswer path h')
    with step(3) answer_step_connections [OF HealthAnswer(3)] show ?thesis by simp
  qed (use step(3) in simp_all)
qed (use assms(2) in simp)

lemma stopped_queue: "sys_safe s \<Longrightarrow> closing s = 3 \<Longrightarrow> mq_queue (queue (sb (shr s))) = None"
  by (simp add: sys_safe_def queue_state_def)

lemma can_stop:
  assumes "0 < GetEnvInt env ''CONSUMER_CHANNEL_BUFFER_SIZE'' 10000" and "prog_start env listen p0"
  shows "prog_runs env p0 p \<Longrightarrow> crash (shr (prog_sys p)) = None \<Longrightarrow>
    \<exists>p'. prog_runs env p p' \<and> main_at p' = Main_returned \<and> crash (shr (prog_sys p')) = None"
proof (induction "main_left p" arbitrary: p rule: less_induct)
  case less
  note reach = reachable_program [OF assms(2) less(2)]
  show ?case
  proof (cases "main_at p = Main_returned")
    case False
    with less(3) have "alive p" by (simp add: alive_def)
    from main_progress [OF this reach(3) [OF assms(1)] reach(1), of env] obtain q where
      q: "prog_step env p q" "main_left q < main_left p" "crash (shr (prog_sys q)) = None" by blast
    from less(1) [OF q(2) rtranclp.rtrancl_into_rtrancl [OF less(2) q(1)] q(3)] q(1) show ?thesis
      by (meson converse_rtranclp_into_rtranclp)
  qed (use less(3) in blast)
qed

section \<open>Properties\<close>

text \<open>The program with no variable set, and one connection accepted.\<close>

definition fresh_broker :: Broker where
  "fresh_broker = \<lparr>broker_mode = Broadcast, registry = NewBroadcastRegistry,
     queue = \<lparr>mq_queue = Some \<lparr>chan_buf = [], chan_cap = 10000, chan_closed = False\<rparr>, mq_size = 10000\<rparr>,
     broker_heap = Map.empty\<rparr>"

lemma fresh_start: "prog_start (\<lambda>_. []) (\<lambda>_. Inr ()) (boot fresh_broker)"
  by (simp add: prog_start_def message_queue_start_def Let_def mode_from_env(2) NewBroker_def
      NewMemoryMessageQueue_def make_chan_def fresh_broker_def)

lemma fresh_buffer: "0 < GetEnvInt (\<lambda>_. []) ''CONSUMER_CHANNEL_BUFFER_SIZE'' 10000"
  by (simp add: GetEnvInt_def)

lemma fresh_alive: "alive (boot fresh_broker)"
  by (simp add: alive_def boot_def)

lemma fresh_accept:
  "prog_runs env (boot fresh_broker)
     ((boot fresh_broker)\<lparr>prog_sys := (prog_sys (boot fresh_broker))\<lparr>conns := [accept_conn Broadcast inp]\<rparr>,
        prog_inputs := [inp]\<rparr>)"
  using Accept [OF fresh_alive, of env inp] by (simp add: boot_def fresh_broker_def)

text \<open>C4: The broker program refines the interleaved system: whenever connections are accepted and
  whatever the accept goroutine, the handlers, the health server and the main goroutine do, the state of
  the broker is one the system reaches from a new broker in the mode of the environment, with the
  connections given by the bytes they send, in the order they were accepted. What holds of every run of
  the system holds of the program.\<close>

theorem broker_program_refines_system:
  assumes "prog_start env listen p0" and "prog_runs env p0 p"
  shows "\<exists>s0. sys_start (cfg_mode (mq_config_from_env env)) s0 \<and>
    conns s0 = map (accept_conn (cfg_mode (mq_config_from_env env))) (prog_inputs p) \<and>
    sys_runs env s0 (prog_sys p)"
  using reachable_program(2) [OF assms] by (simp add: refines_system_def)

theorem broker_program_refines_system_witness:
  "\<exists>s0. sys_start Broadcast s0 \<and> conns s0 = [new_conn Reading [[7]]]"
proof -
  have "accept_conn Broadcast \<lparr>avail = role_line roleProducer @ frame [7], fin = EOF\<rparr> = new_conn Reading [[7]]"
    using decode_frames_all [of "[[7]]" EOF]
    by (simp add: accept_conn_def ReadString_role_line trimLine_role_line roleProducer_def frame_ok_def
        maxFrameSize_def decode_frames_end)
  with broker_program_refines_system [OF fresh_start fresh_accept
      [of _ "\<lparr>avail = role_line roleProducer @ frame [7], fin = EOF\<rparr>"]] show ?thesis
    by (auto simp: mode_from_env(2))
qed

text \<open>C12: The order of the shutdown, with a positive channel buffer. When the closing of the broker has
  begun, the listener is closed and \<open>Shutdown\<close> of the health server has been called; once the listener is
  closed no connection is accepted any more, whatever happens; once \<open>Shutdown\<close> has been called the health
  server accepts no connection and answers at most one request more on each that is open; when the
  main goroutine returns, all of the broker has been closed and the queue is nil; and at no time
  anything but a send on a closed channel can have panicked.\<close>

theorem broker_program_shutdown_order:
  assumes "prog_start env listen p0" and "prog_runs env p0 p"
    and "0 < GetEnvInt env ''CONSUMER_CHANNEL_BUFFER_SIZE'' 10000"
  shows "(0 < closing (prog_sys p) \<longrightarrow> \<not> ln_open p \<and> in_shutdown (health p)) \<and>
    (\<not> ln_open p \<longrightarrow> (\<forall>p'. prog_runs env p p' \<longrightarrow> prog_inputs p' = prog_inputs p)) \<and>
    (in_shutdown (health p) \<longrightarrow> (\<forall>p'. prog_runs env p p' \<longrightarrow>
       length (health_sent p') + open_connections (health p') \<le> length (health_sent p) + open_connections (health p))) \<and>
    (main_at p = Main_returned \<longrightarrow>
       closing (prog_sys p) = 3 \<and> mq_queue (queue (sb (shr (prog_sys p)))) = None) \<and>
    crash (shr (prog_sys p)) \<in> {None, Some SendOnClosedChannel}"
proof (intro conjI)
  note order = reachable_program(1) [OF assms(1,2), unfolded shutdown_order_def]
  note safe = reachable_program(3) [OF assms]
  show "0 < closing (prog_sys p) \<longrightarrow> \<not> ln_open p \<and> in_shutdown (health p)"
    using order by auto
  show "in_shutdown (health p) \<longrightarrow> (\<forall>p'. prog_runs env p p' \<longrightarrow>
      length (health_sent p') + open_connections (health p') \<le> length (health_sent p) + open_connections (health p))"
    using health_after_shutdown by blast
  show "\<not> ln_open p \<longrightarrow> (\<forall>p'. prog_runs env p p' \<longrightarrow> prog_inputs p' = prog_inputs p)"
    using no_accept_after_close by blast
  show "main_at p = Main_returned \<longrightarrow>
      closing (prog_sys p) = 3 \<and> mq_queue (queue (sb (shr (prog_sys p)))) = None"
    using order stopped_queue [OF safe] by blast
  show "crash (shr (prog_sys p)) \<in> {None, Some SendOnClosedChannel}"
    using safe by (simp add: sys_safe_def)
qed

theorem broker_program_shutdown_order_witness:
  "\<exists>p. prog_runs (\<lambda>_. []) (boot fresh_broker) p \<and> main_at p = Main_returned \<and> \<not> ln_open p \<and>
     mq_queue (queue (sb (shr (prog_sys p)))) = None"
proof -
  from can_stop [OF fresh_buffer fresh_start rtranclp.rtrancl_refl] obtain p where
    p: "prog_runs (\<lambda>_. []) (boot fresh_broker) p" "main_at p = Main_returned"
    by (auto simp: boot_def)
  from broker_program_shutdown_order [OF fresh_start p(1) fresh_buffer] p show ?thesis by auto
qed

text \<open>C11: With a positive channel buffer the broker program can always be stopped: as long as the process
  lives, the main goroutine has an enabled step that brings it nearer to its end (the signal first; in
  \<open>Shutdown\<close> of the health server the 5 seconds being over), no step of any goroutine takes it
  farther away, and at most 9 steps of it are left. So nothing the connections do can block the shutdown.
  The accept goroutine can return too, although nobody receives what it sends.\<close>

theorem broker_program_stops:
  assumes "prog_start env listen p0" and "prog_runs env p0 p" and "alive p"
    and "0 < GetEnvInt env ''CONSUMER_CHANNEL_BUFFER_SIZE'' 10000"
  shows "(\<exists>p'. prog_step env p p' \<and> main_left p' < main_left p \<and> crash (shr (prog_sys p')) = None) \<and>
    (\<forall>p'. prog_step env p p' \<longrightarrow> main_left p' \<le> main_left p) \<and> main_left p \<le> 9 \<and>
    (\<exists>p'. prog_runs env p p' \<and> main_at p' = Main_returned) \<and>
    (\<not> ln_open p \<and> accept_at p = Accepting \<longrightarrow> (\<exists>p'. prog_step env p p' \<and> accept_at p' = Accept_returned))"
proof (intro conjI)
  note order = reachable_program(1) [OF assms(1,2)]
  show "\<exists>p'. prog_step env p p' \<and> main_left p' < main_left p \<and> crash (shr (prog_sys p')) = None"
    by (rule main_progress [OF assms(3) reachable_program(3) [OF assms(1,2,4)] order])
  show "\<forall>p'. prog_step env p p' \<longrightarrow> main_left p' \<le> main_left p" using main_left_step by blast
  show "main_left p \<le> 9" by (auto simp: main_left_def split: main_at.splits)
  show "\<exists>p'. prog_runs env p p' \<and> main_at p' = Main_returned"
    using can_stop [OF assms(4,1,2)] assms(3) by (auto simp: alive_def)
  show "\<not> ln_open p \<and> accept_at p = Accepting \<longrightarrow> (\<exists>p'. prog_step env p p' \<and> accept_at p' = Accept_returned)"
  proof
    assume p: "\<not> ln_open p \<and> accept_at p = Accepting"
    with order have "try_send None (acceptErrCh p) =
        Inr (True, \<lparr>chan_buf = [None], chan_cap = 1, chan_closed = False\<rparr>)"
      by (simp add: shutdown_order_def try_send_def)
    with AcceptClosed [OF assms(3)] p show "\<exists>p'. prog_step env p p' \<and> accept_at p' = Accept_returned"
      by (intro exI conjI) auto
  qed
qed

theorem broker_program_stops_witness:
  "\<exists>p'. prog_runs (\<lambda>_. [])
     ((boot fresh_broker)\<lparr>prog_sys := (prog_sys (boot fresh_broker))\<lparr>conns := [new_conn Starting []]\<rparr>,
        prog_inputs := [\<lparr>avail = role_line roleConsumer, fin = EOF\<rparr>]\<rparr>) p' \<and> main_at p' = Main_returned"
proof -
  let ?inp = "\<lparr>avail = role_line roleConsumer @ [], fin = EOF\<rparr>"
  have "accept_conn Broadcast ?inp = new_conn Starting []"
    using ReadString_role_line [of roleConsumer "[]" EOF]
    by (simp add: accept_conn_def trimLine_role_line roleConsumer_def roleProducer_def)
  with fresh_accept [of "\<lambda>_. []" ?inp] have
    run: "prog_runs (\<lambda>_. []) (boot fresh_broker)
     ((boot fresh_broker)\<lparr>prog_sys := (prog_sys (boot fresh_broker))\<lparr>conns := [new_conn Starting []]\<rparr>,
        prog_inputs := [?inp]\<rparr>)" by simp
  from broker_program_stops [OF fresh_start this _ fresh_buffer] show ?thesis
    by (simp add: alive_def boot_def)
qed

end
