(* ===== verification/RunningPipeline.thy ===== *)
theory RunningPipeline
  imports BrokerProgram
begin

text \<open>
  The pipeline while everything runs at once: the broker program accepts connections, its handlers
  interleave in any order, and what the consumer program has stored at any time is read off its
  connection. In both modes it is the documents of a subsequence of the rows, in the order of the file.
\<close>

section \<open>A single producer\<close>

text \<open>In broadcast mode a connection without a channel has written nothing.\<close>

definition broadcast_conn :: "conn \<Rightarrow> bool" where
  "broadcast_conn cn \<longleftrightarrow>
     (owned_by (pc cn) = None \<longrightarrow> wire cn = []) \<and> pc cn \<notin> {Dequeueing, Queue_done} \<union> range WritingQ"

lemma conn_step_broadcast_conn:
  "conn_step env i (cn, sh) (cn', sh') \<Longrightarrow> broadcast_conn cn \<Longrightarrow> broadcast_conn cn'"
  by (erule conn_stepE) (auto simp: broadcast_conn_def)

lemma sys_step_broadcast_conn:
  assumes "sys_step env s s'" and "\<forall>cn \<in> set (conns s). broadcast_conn cn"
  shows "\<forall>cn \<in> set (conns s'). broadcast_conn cn"
  using assms(1)
proof cases
  case (Conn i cn' sh')
  with assms(2) conn_step_broadcast_conn [OF Conn(4)] set_update_subset_insert [of "conns s" i cn']
  show ?thesis by auto
next
  case Close
  with assms(2) close_step_closing [OF Close] show ?thesis by simp
qed

lemma sys_runs_broadcast_conn:
  assumes "sys_runs env s0 s" and "sys_start Broadcast s0" and "cn \<in> set (conns s)"
  shows "broadcast_conn cn"
proof -
  have "\<forall>cn \<in> set (conns s0). broadcast_conn cn"
    using assms(2) by (auto simp: sys_start_def broadcast_conn_def)
  with assms(1) have "\<forall>cn \<in> set (conns s). broadcast_conn cn"
    by (induction rule: rtranclp_induct) (auto dest: sys_step_broadcast_conn)
  with assms(3) show ?thesis by blast
qed

lemma subseq_prefix: "subseq (xs @ l) zs \<Longrightarrow> subseq xs zs"
  by (rule subseq_order.order_trans [OF list_emb_prefix [OF subseq_order.order_refl]])

lemma from_conn_all: "\<forall>x \<in> set log. fst x = j \<Longrightarrow> from_conn j log = map snd log"
  by (simp add: from_conn_def)

lemma single_producer_log:
  assumes "\<forall>k < n. k \<noteq> j \<longrightarrow> from_conn k log = []" and "\<forall>x \<in> set log. fst x < n"
  shows "from_conn j log = map snd log"
  using assms from_conn_empty by (intro from_conn_all) blast

lemma wire_subseq_broadcast:
  assumes "sys_start Broadcast s0" and "0 < GetEnvInt env ''CONSUMER_CHANNEL_BUFFER_SIZE'' 10000"
    and "sys_runs env s0 s" and "i < length (conns s)" and "j < length (conns s0)"
    and "\<forall>k < length (conns s0). k \<noteq> j \<longrightarrow> todo (conns s0 ! k) = []"
  shows "subseq (wire (conns s ! i)) (todo (conns s0 ! j))"
proof (cases "owned_by (pc (conns s ! i))")
  case None
  with sys_runs_broadcast_conn [OF assms(3,1) nth_mem [OF assms(4)]] show ?thesis
    by (simp add: broadcast_conn_def)
next
  case (Some c)
  let ?log = "accepted (shr s) c"
  have fifo: "sys_fifo s"
    by (rule sys_runs_fifo [OF assms(3) sys_start_fifo [OF assms(1)] sys_start_safe [OF assms(1)] assms(2)])
  note len = sys_runs_script(1) [OF assms(3)]
  from fifo assms(4) have "consumer_ok (shr s) (conns s ! i)" by (simp add: sys_fifo_def)
  with Some obtain ch :: "bytes chan" where ch: "wire (conns s ! i) @ in_hand (pc (conns s ! i)) @ chan_buf ch = map snd ?log"
    by (auto simp: consumer_ok_def)
  have sub: "subseq (from_conn k ?log) (todo (conns s0 ! k))" if "k < length (conns s0)" for k
  proof -
    have "subseq (from_conn k ?log) (handled (conns s ! k))"
      using fifo that len by (intro producer_ok_all) (simp add: sys_fifo_def)
    moreover have "handled (conns s ! k) @ todo (conns s ! k) = todo (conns s0 ! k)"
      using sys_runs_script(2) [OF assms(3) that] assms(1) that by (simp add: sys_start_def)
    ultimately show ?thesis by (metis list_emb_prefix)
  qed
  have "\<forall>k < length (conns s0). k \<noteq> j \<longrightarrow> from_conn k ?log = []" using sub assms(6) by fastforce
  moreover have "\<forall>x \<in> set ?log. fst x < length (conns s0)" using fifo len by (simp add: sys_fifo_def)
  ultimately have "from_conn j ?log = map snd ?log" by (rule single_producer_log)
  with sub [OF assms(5)] ch have "subseq (wire (conns s ! i) @ in_hand (pc (conns s ! i)) @ chan_buf ch) (todo (conns s0 ! j))"
    by simp
  then show ?thesis by (rule subseq_prefix)
qed

lemma wire_subseq_queue:
  assumes "sys_start Queue s0" and "sys_runs env s0 s" and "i < length (conns s)" and "j < length (conns s0)"
    and "\<forall>k < length (conns s0). k \<noteq> j \<longrightarrow> todo (conns s0 ! k) = []"
  shows "subseq (wire (conns s ! i)) (todo (conns s0 ! j))"
proof -
  from sys_runs_fifo_runs [OF assms(2) sys_start_simulates [OF assms(1)]] obtain f where
    run: "fifo_runs 10000 (fifo_start (scripts (conns s0))) f" and sim: "simulates s f" by blast
  from fifo_inv_runs [OF run fifo_inv_start] obtain d where
    d: "f_arrived f = map snd (f_served f) @ f_queue f @ d"
    and sent: "\<And>k. \<exists>tried. scripts (conns s0) k = tried @ f_pending f k \<and> subseq (from_conn k (f_arrived f)) tried"
    by (auto simp: fifo_inv_def)
  have sub: "subseq (from_conn k (f_arrived f)) (scripts (conns s0) k)" for k
    using sent [of k] by (auto simp: list_emb_prefix)
  have "from_conn k (f_arrived f) = []" if "k \<noteq> j" for k
    using sub [of k] assms(5) that by (auto simp: scripts_def split: if_splits)
  then have "from_conn j (f_arrived f) = map snd (f_arrived f)"
    using from_conn_empty by (intro from_conn_all) blast
  with sub [of j] assms(4) have all: "subseq (map snd (f_arrived f)) (todo (conns s0 ! j))"
    by (simp add: scripts_def)
  have "subseq (served_to i f) (map (snd \<circ> snd) (f_served f))"
    by (simp add: served_to_def subseq_map)
  moreover obtain l where "served_to i f = wire (conns s ! i) @ l"
    using sim assms(3) by (auto simp: simulates_def conn_sim_def)
  ultimately have "subseq (wire (conns s ! i)) (map snd (map snd (f_served f)))"
    using subseq_prefix by simp
  also have "subseq \<dots> (map snd (f_arrived f))" by (simp add: d list_emb_prefix)
  finally show ?thesis using all by (rule subseq_order.trans)
qed

section \<open>Indices of a subsequence\<close>

lemma subseq_indices:
  assumes "subseq xs ys"
  shows "\<exists>is. sorted_wrt (<) is \<and> set is \<subseteq> {..<length ys} \<and> xs = map ((!) ys) is"
  using assms
proof (induction ys arbitrary: xs rule: rev_induct)
  case (snoc y ys)
  show ?case
  proof (cases "subseq xs ys")
    case True
    from snoc.IH [OF this] obtain "is" where "is": "sorted_wrt (<) is" "set is \<subseteq> {..<length ys}" "xs = map ((!) ys) is"
      by blast
    then show ?thesis by (intro exI [of _ "is"]) (auto simp: nth_append subset_eq)
  next
    case False
    from snoc.prems obtain xs1 xs2 where xs: "xs = xs1 @ xs2" "subseq xs1 ys" "subseq xs2 [y]"
      unfolding subseq_append_iff by blast
    with False have "xs2 = [y]" by (cases xs2) (auto split: if_splits)
    with xs obtain xs' where xs': "xs = xs' @ [y]" "subseq xs' ys" by blast
    from snoc.IH [OF this(2)] obtain "is" where "is": "sorted_wrt (<) is" "set is \<subseteq> {..<length ys}" "xs' = map ((!) ys) is"
      by blast
    with xs'(1) show ?thesis
      by (intro exI [of _ "is @ [length ys]"]) (auto simp: nth_append sorted_wrt_append subset_eq)
  qed
qed simp

section \<open>What the consumer program has stored\<close>

lemma env_mode: "cfg_mode (mq_config_from_env env) \<in> {Broadcast, Queue}"
  by (simp add: mq_config_from_env_def ParseDeliveryMode_def)

lemma program_wire_subseq:
  assumes "prog_start env listen p0" and "prog_runs env p0 p"
    and "0 < GetEnvInt env ''CONSUMER_CHANNEL_BUFFER_SIZE'' 10000"
    and "i < length (prog_inputs p)" and "j < length (prog_inputs p)"
    and "\<forall>k < length (prog_inputs p). k \<noteq> j \<longrightarrow>
      todo (accept_conn (cfg_mode (mq_config_from_env env)) (prog_inputs p ! k)) = []"
  shows "subseq (wire (conns (prog_sys p) ! i))
    (todo (accept_conn (cfg_mode (mq_config_from_env env)) (prog_inputs p ! j)))"
proof -
  let ?mode = "cfg_mode (mq_config_from_env env)"
  from reachable_program(2) [OF assms(1,2)] obtain s0 where
    s0: "sys_start ?mode s0" "conns s0 = map (accept_conn ?mode) (prog_inputs p)" "sys_runs env s0 (prog_sys p)"
    by (auto simp: refines_system_def)
  have i: "i < length (conns (prog_sys p))" using sys_runs_script(1) [OF s0(3)] s0(2) assms(4) by simp
  have j: "j < length (conns s0)" and other: "\<forall>k < length (conns s0). k \<noteq> j \<longrightarrow> todo (conns s0 ! k) = []"
    using s0(2) assms(5,6) by simp_all
  from env_mode [of env] consider "?mode = Broadcast" | "?mode = Queue" by auto
  then have "subseq (wire (conns (prog_sys p) ! i)) (todo (conns s0 ! j))"
  proof cases
    case 1
    with s0(1) wire_subseq_broadcast [OF _ assms(3) s0(3) i j other] show ?thesis by simp
  next
    case 2
    with s0(1) wire_subseq_queue [OF _ s0(3) i j other] show ?thesis by simp
  qed
  then show ?thesis using s0(2) assms(5) by simp
qed

lemma accept_producer:
  assumes "\<forall>m \<in> set ms. frame_ok m"
  shows "todo (accept_conn mode \<lparr>avail = role_line ''PRODUCER'' @ concat (map frame ms), fin = e\<rparr>) = ms"
  using decode_frames_all [OF assms, of e]
  by (simp add: accept_conn_def ReadString_role_line trimLine_role_line roleProducer_def new_conn_def)

text \<open>C3: The pipeline while everything runs at once, in either mode. The producer program has sent a CSV
  table to the broker program, no other producer has; connections come and go, the handlers interleave in
  any order, queues fill up, the shutdown may be under way. A consumer program that gets what the broker
  has written to one of its connections hands the collection as many documents as there are messages on
  it, those of some of the rows, in the order of the file and none twice: the cells under the names of
  the columns, the time the message was made and the time of storing; the collection keeps those it
  does not refuse. This is with a positive CONSUMER_CHANNEL_BUFFER_SIZE, and for a table written
  as CSV without carriage returns, every record as long as the header and none a single empty cell, UTF-8
  cells and names, no column without a name, at most 170000 bytes a record with the names of the columns.\<close>

theorem running_pipeline_keeps_order:
  fixes sent :: "nat \<Rightarrow> time \<times> time" and stored :: "nat \<Rightarrow> time \<times> time"
  assumes "table_ok header rows" and "table_utf8 header rows"
    and "\<forall>k. time_wf (snd (sent k)) \<and> \<not> IsZero (snd (sent k))"
    and "dial1 (GetEnv env1 ''BROKER_ADDR'' ''localhost:9080'') = Inr cn"
    and "wr_room (nc_out cn) = None" and "written (nc_out cn) = []"
    and "abs_path (GetEnv env1 ''CSV_PATH'' default_csv_path) = Inr path"
    and "open_file path = Inr \<lparr>file_text = csv_file header rows, file_fin = EOF, file_close = cl\<rparr>"
    and "\<forall>k. length (rand k) = 8" and "\<forall>r \<in> set rows. row_size header r \<le> 170000"
    and "producer_main env1 dial1 abs_path open_file sent rand = Inr (0, Some pr)" and "p_conn pr = Some cn'"
    and "prog_start env listen p0" and "prog_runs env p0 p"
    and "0 < GetEnvInt env ''CONSUMER_CHANNEL_BUFFER_SIZE'' 10000"
    and "j < length (prog_inputs p)" and "prog_inputs p ! j = \<lparr>avail = written (nc_out cn'), fin = e\<rparr>"
    and "\<forall>k < length (prog_inputs p). k \<noteq> j \<longrightarrow>
      todo (accept_conn (cfg_mode (mq_config_from_env env)) (prog_inputs p ! k)) = []"
    and "i < length (prog_inputs p)" and "wr_room w3 = None"
    and "keeps (collection client (GetEnv env3 ''MONGODB_DATABASE'' ''message_streaming'')
      (GetEnv env3 ''MONGO_COLLECTION'' ''metrics'')) oid refuses"
    and "connect (GetEnv env3 ''MONGODB_URI'' ''mongodb://localhost:27017'') = Inr client" and "ping client = None"
  shows "\<exists>is w3'. sorted_wrt (<) is \<and> set is \<subseteq> {..<length rows} \<and> length is = length (wire (conns (prog_sys p) ! i)) \<and>
    consumer_main env3 (\<lambda>_. Inr (\<lparr>avail = concat (map frame (wire (conns (prog_sys p) ! i))), fin = EOF\<rparr>, w3))
        connect ping collection stored db =
      Inr (EOF, w3', fold (insert_document oid refuses)
        (map (\<lambda>(k, r). row_document (snd (sent r)) (snd (stored k)) (row_of header (rows ! r))) (enumerate 0 is)) db)"
proof -
  let ?t = "transformer_for header ''timestamp'' ''labels_raw''" and ?wire = "wire (conns (prog_sys p) ! i)"
  let ?bodies = "map message_body (row_messages ?t sent rand header 0 rows)"
  have sent: "\<forall>k. time_wf (snd (sent k))" and len: "length ?bodies = length rows"
    using assms(3) by (simp_all add: row_messages_def)
  note frames = row_bodies_fit [OF assms(1,2) sent assms(9,10), of ?t]
  from producer_main_written [where dial = dial1 and abs_path = abs_path and open_file = open_file and
      path = path and env = env1 and rand = rand, OF assms(1) sent assms(4,5,7,8)] assms(6,11,12)
  have "written (nc_out cn') = role_line ''PRODUCER'' @ concat (map frame ?bodies)"
    by (auto simp: role_lines)
  with program_wire_subseq [OF assms(13-15,19,16,18)] accept_producer [OF frames] assms(17)
  have "subseq ?wire ?bodies" by simp
  from subseq_indices [OF this] len obtain "is" where
    "is": "sorted_wrt (<) is" "set is \<subseteq> {..<length rows}" "?wire = map ((!) ?bodies) is" by auto
  let ?ds = "\<lambda>k. [row_document (snd (sent (is ! k))) (snd (stored k)) (row_of header (rows ! (is ! k)))]"
  have at: "is ! k < length rows" if "k < length is" for k using "is"(2) nth_mem [OF that] by auto
  have "\<forall>k < length ?wire. documents_of (stored k) (?wire ! k) = Some (?ds k)"
  proof (intro allI impI)
    fix k
    assume "k < length ?wire"
    then have k: "k < length is" by (simp add: "is"(3))
    from row_bodies_documents [OF assms(2,3), of ?t rand "\<lambda>_. stored k"] at [OF k] len
    have "documents_of (stored k) (?bodies ! (is ! k)) = Some (?ds k)" by simp
    with k show "documents_of (stored k) (?wire ! k) = Some (?ds k)" by (simp add: "is"(3))
  qed
  moreover have "\<forall>b \<in> set ?wire. frame_ok b"
    using frames "is"(2,3) len by (auto simp: subset_eq)
  ultimately have "consumer_main env3 (\<lambda>_. Inr (\<lparr>avail = concat (map frame ?wire), fin = EOF\<rparr>, w3))
      connect ping collection stored db = Inr (EOF, w3\<lparr>written := written w3 @ role_line ''CONSUMER''\<rparr>,
        fold (insert_document oid refuses) (concat (map ?ds [0..<length ?wire])) db)"
    by (intro consumer_main_documents [where client = client and collection = collection and env = env3 and
        bodies = ?wire and ds = ?ds and w = w3 and connect = connect and ping = ping and oid = oid and refuses = refuses])
      (simp_all add: assms(20-23))
  moreover have "concat (map ?ds [0..<length ?wire]) =
      map (\<lambda>(k, r). row_document (snd (sent r)) (snd (stored k)) (row_of header (rows ! r))) (enumerate 0 is)"
    by (rule nth_equalityI) (simp_all add: concat_map_singleton nth_enumerate_eq "is"(3))
  moreover have "length is = length ?wire" by (simp add: "is"(3))
  ultimately show ?thesis using "is"(1,2) by auto
qed

section \<open>Example\<close>

text \<open>A message goes through the program in queue mode.\<close>

definition queue_env :: environment where
  "queue_env = (\<lambda>k. if k = ''DELIVERY_MODE'' then ''queue'' else [])"

definition queue_prog :: "instream list \<Rightarrow> conn list \<Rightarrow> shared \<Rightarrow> program" where
  "queue_prog inps cns sh = (boot (sb (queue_sh [] [] [])))\<lparr>prog_sys := \<lparr>conns = cns, shr = sh, closing = 0\<rparr>,
     prog_inputs := inps\<rparr>"

lemma prog_runs_step: "prog_step env p p1 \<Longrightarrow> prog_runs env p1 p2 \<Longrightarrow> prog_runs env p p2"
  by (rule converse_rtranclp_into_rtranclp)

lemma queue_prog_start: "prog_start queue_env (\<lambda>_. Inr ()) (queue_prog [] [] (queue_sh [] [] []))"
proof -
  have "cfg_mode (mq_config_from_env queue_env) = Queue"
    using mode_from_env(1) [of queue_env Queue] by (simp add: queue_env_def)
  then show ?thesis
    by (simp add: prog_start_def message_queue_start_def Let_def queue_prog_def boot_def queue_sh_def NewBroker_def
        NewMemoryMessageQueue_def make_chan_def NewBroadcastRegistry_def)
qed

lemma queue_prog_handler:
  assumes "i < length cns" and "conn_step env i (cns ! i, queue_sh ms ins outs) (cn', sh')"
  shows "prog_step env (queue_prog inps cns (queue_sh ms ins outs)) (queue_prog inps (cns[i := cn']) sh')"
  using Handler [of "queue_prog inps cns (queue_sh ms ins outs)" i env cn' sh'] assms
  by (simp add: queue_prog_def alive_def boot_def queue_sh_def)

lemma queue_prog_accept:
  "prog_step env (queue_prog inps cns (queue_sh ms ins outs))
     (queue_prog (inps @ [inp]) (cns @ [accept_conn Queue inp]) (queue_sh ms ins outs))"
  using Accept [of "queue_prog inps cns (queue_sh ms ins outs)" env inp]
  by (simp add: queue_prog_def alive_def boot_def queue_sh_def)

lemma queue_prog_run:
  assumes "accept_conn Queue inp0 = new_conn Reading [m]" and "accept_conn Queue inp1 = new_conn Dequeueing []"
  shows "prog_runs env (queue_prog [] [] (queue_sh [] [] []))
    (queue_prog [inp0, inp1] [duo_conn Reading [] [m], \<lparr>pc = Dequeueing, todo = [], handled = [], wire = [m]\<rparr>]
      (queue_sh [] [(0, m)] [(1, m)]))"
proof -
  let ?inps = "[inp0, inp1]" and ?none = "queue_sh [] [] []" and ?in = "queue_sh [m] [(0, m)] []"
  let ?out = "queue_sh [] [(0, m)] [(1, m)]"
  have a1: "prog_step env (queue_prog [] [] ?none) (queue_prog [inp0] [duo_conn Reading [m] []] ?none)"
    using queue_prog_accept [of env "[]" "[]" "[]" "[]" "[]" inp0] by (simp add: assms(1) new_conn_def duo_conn_def)
  have a2: "prog_step env (queue_prog [inp0] [duo_conn Reading [m] []] ?none)
      (queue_prog ?inps [duo_conn Reading [m] [], duo_conn Dequeueing [] []] ?none)"
    using queue_prog_accept [of env "[inp0]" "[duo_conn Reading [m] []]" "[]" "[]" "[]" inp1]
    by (simp add: assms(2) new_conn_def duo_conn_def)
  have "conn_step env 0 (duo_conn Reading [m] [], ?none) (duo_conn (Selecting m) [] [m], ?none)"
    by (simp add: conn_step.simps duo_conn_def queue_sh_def)
  with queue_prog_handler [of 0 "[duo_conn Reading [m] [], duo_conn Dequeueing [] []]"]
  have s1: "prog_step env (queue_prog ?inps [duo_conn Reading [m] [], duo_conn Dequeueing [] []] ?none)
      (queue_prog ?inps [duo_conn (Selecting m) [] [m], duo_conn Dequeueing [] []] ?none)" by simp
  have "conn_step env 0 (duo_conn (Selecting m) [] [m], ?none) (duo_conn Reading [] [m], ?in)"
    by (simp add: conn_step.simps duo_conn_def queue_sh_def Enqueue_select_def try_send_def set_queue_def log_enter_def)
  with queue_prog_handler [of 0 "[duo_conn (Selecting m) [] [m], duo_conn Dequeueing [] []]"]
  have s2: "prog_step env (queue_prog ?inps [duo_conn (Selecting m) [] [m], duo_conn Dequeueing [] []] ?none)
      (queue_prog ?inps [duo_conn Reading [] [m], duo_conn Dequeueing [] []] ?in)" by simp
  have "conn_step env 1 (duo_conn Dequeueing [] [], ?in) (duo_conn (WritingQ m) [] [], ?out)"
    by (simp add: conn_step.simps duo_conn_def queue_sh_def Dequeue_def recv_def set_queue_def log_hand_def)
  with queue_prog_handler [of 1 "[duo_conn Reading [] [m], duo_conn Dequeueing [] []]"]
  have s3: "prog_step env (queue_prog ?inps [duo_conn Reading [] [m], duo_conn Dequeueing [] []] ?in)
      (queue_prog ?inps [duo_conn Reading [] [m], duo_conn (WritingQ m) [] []] ?out)" by simp
  have "conn_step env 1 (duo_conn (WritingQ m) [] [], ?out)
      (\<lparr>pc = Dequeueing, todo = [], handled = [], wire = [m]\<rparr>, ?out)"
    by (simp add: conn_step.simps duo_conn_def)
  with queue_prog_handler [of 1 "[duo_conn Reading [] [m], duo_conn (WritingQ m) [] []]"]
  have s4: "prog_step env (queue_prog ?inps [duo_conn Reading [] [m], duo_conn (WritingQ m) [] []] ?out)
      (queue_prog ?inps [duo_conn Reading [] [m], \<lparr>pc = Dequeueing, todo = [], handled = [], wire = [m]\<rparr>] ?out)" by simp
  show ?thesis
    by (rule prog_runs_step [OF a1], rule prog_runs_step [OF a2], rule prog_runs_step [OF s1],
        rule prog_runs_step [OF s2], rule prog_runs_step [OF s3], rule prog_runs_step [OF s4],
        rule rtranclp.rtrancl_refl)
qed

theorem running_pipeline_keeps_order_witness:
  "\<exists>pr cn' p w3'.
    producer_main (\<lambda>_. []) (\<lambda>_. Inr example_conn) Inr
      (\<lambda>_. Inr \<lparr>file_text = csv_file [''a''] [[''1'']], file_fin = EOF, file_close = None\<rparr>)
      (\<lambda>_. (year_two, year_two)) (\<lambda>_. replicate 8 7) = Inr (0, Some pr) \<and> p_conn pr = Some cn' \<and>
    prog_runs queue_env (queue_prog [] [] (queue_sh [] [] [])) p \<and>
    prog_inputs p = [\<lparr>avail = written (nc_out cn'), fin = EOF\<rparr>, \<lparr>avail = role_line ''CONSUMER'', fin = EOF\<rparr>] \<and>
    consumer_main (\<lambda>_. [])
      (\<lambda>_. Inr (\<lparr>avail = concat (map frame (wire (conns (prog_sys p) ! 1))), fin = EOF\<rparr>, nc_out example_conn))
      (\<lambda>_. Inr ()) (\<lambda>_. None) (\<lambda>_ _ _. memory_collection) (\<lambda>_. (year_two, zero_time)) [] =
      Inr (EOF, w3', [bson_document [] (row_document year_two zero_time (row_of [''a''] [''1'']))])"
proof -
  let ?h = "[''a'']" and ?rows = "[[''1'']]" and ?s = "\<lambda>_::nat. (year_two, year_two)"
  let ?rand = "\<lambda>_. replicate 8 7" and ?t = "transformer_for [''a''] ''timestamp'' ''labels_raw''"
  let ?m = "message_body (hd (row_messages ?t ?s ?rand ?h 0 ?rows))"
  let ?open = "\<lambda>_::string. Inr \<lparr>file_text = csv_file ?h ?rows, file_fin = EOF, file_close = None\<rparr>"
  have t: "table_ok ?h ?rows" "table_utf8 ?h ?rows"
    by (simp_all add: table_ok_def csv_ok_def cr_def table_utf8_def valid_utf8_ascii)
  have c: "wr_room (nc_out example_conn) = None" "written (nc_out example_conn) = []"
    by (simp_all add: example_conn_def)
  have s: "\<forall>k. time_wf (snd (?s k)) \<and> \<not> IsZero (snd (?s k))" "\<forall>k. time_wf (snd (?s k))"
    using year_two by simp_all
  have ms: "map message_body (row_messages ?t ?s ?rand ?h 0 ?rows) = [?m]" by (simp add: row_messages_def)
  have m: "frame_ok ?m"
    using row_bodies_fit [OF t s(2), of ?rand ?t] ms by (simp add: row_size_def)
  from producer_main_written [where dial = "\<lambda>_. Inr example_conn" and abs_path = Inr and open_file = ?open and
      path = default_csv_path and env = "\<lambda>_. []" and rand = ?rand, OF t(1) s(2) _ c(1)] c(2)
  obtain pr cn' where pr: "producer_main (\<lambda>_. []) (\<lambda>_. Inr example_conn) Inr ?open ?s ?rand = Inr (0, Some pr)"
    "p_conn pr = Some cn'" "written (nc_out cn') = role_line ''PRODUCER'' @ frame ?m"
    unfolding ms by (auto simp: GetEnv_def role_lines)
  let ?inps = "[\<lparr>avail = written (nc_out cn'), fin = EOF\<rparr>, \<lparr>avail = role_line ''CONSUMER'', fin = EOF\<rparr>]"
  let ?p = "queue_prog ?inps [duo_conn Reading [] [?m], \<lparr>pc = Dequeueing, todo = [], handled = [], wire = [?m]\<rparr>]
    (queue_sh [] [(0, ?m)] [(1, ?m)])"
  have in0: "accept_conn Queue (?inps ! 0) = new_conn Reading [?m]"
    using decode_frames_all [of "[?m]" EOF] m pr(3)
    by (simp add: accept_conn_def ReadString_role_line trimLine_role_line roleProducer_def)
  have in1: "accept_conn Queue (?inps ! 1) = new_conn Dequeueing []"
    using ReadString_role_line [of "''CONSUMER''" "[]" EOF]
    by (simp add: accept_conn_def trimLine_role_line roleProducer_def roleConsumer_def)
  have run: "prog_runs queue_env (queue_prog [] [] (queue_sh [] [] [])) ?p" using queue_prog_run in0 in1 by simp
  have inputs: "prog_inputs ?p = ?inps" by (simp add: queue_prog_def)
  have mode: "cfg_mode (mq_config_from_env queue_env) = Queue"
    using mode_from_env(1) [of queue_env Queue] by (simp add: queue_env_def)
  note app = memory_collection_keeps
  from running_pipeline_keeps_order [where header = ?h and rows = ?rows and sent = ?s and
      stored = "\<lambda>_. (year_two, zero_time)" and ?dial1.0 = "\<lambda>_. Inr example_conn" and ?env1.0 = "\<lambda>_. []" and
      ?env3.0 = "\<lambda>_. []" and cn = example_conn and abs_path = Inr and path = default_csv_path and open_file = ?open and
      cl = None and rand = ?rand and ?w3.0 = "nc_out example_conn" and collection = "\<lambda>_ _ _. memory_collection" and
      client = "()" and connect = "\<lambda>_. Inr ()" and ping = "\<lambda>_. None" and db = "[]" and pr = pr and cn' = cn' and
      p = ?p and j = 0 and i = 1 and e = EOF and oid = "\<lambda>_. []" and refuses = "\<lambda>_ _. False", OF t s(1) _ c _ _ _ _ pr(1,2) queue_prog_start run]
  obtain "is" w3' where "is": "set is \<subseteq> {..<1}" "length is = 1"
    "consumer_main (\<lambda>_. [])
      (\<lambda>_. Inr (\<lparr>avail = concat (map frame (wire (conns (prog_sys ?p) ! 1))), fin = EOF\<rparr>, nc_out example_conn))
      (\<lambda>_. Inr ()) (\<lambda>_. None) (\<lambda>_ _ _. memory_collection) (\<lambda>_. (year_two, zero_time)) [] =
     Inr (EOF, w3', fold (insert_document (\<lambda>_. []) (\<lambda>_ _. False))
       (map (\<lambda>(k, r). row_document year_two zero_time (row_of ?h (?rows ! r))) (enumerate 0 is)) [])"
    using c(1) app in1 inputs mode
    by (auto simp: GetEnv_def row_size_def less_2_cases_iff GetEnvInt_def queue_env_def queue_prog_def
        new_conn_def)
  then have "is = [0]" by (cases "is") auto
  with "is"(3) pr run inputs show ?thesis
    by (intro exI conjI) (assumption | simp add: insert_document_def)+
qed

end
