(* ===== verification/MetricsProgram.thy ===== *)
theory MetricsProgram
  imports HttpServer Programs StorageProps
begin

text \<open>
  \<open>cmd/metrics/main.go\<close> running: the goroutine that serves HTTP, whose failure ends the process with
  \<open>os.Exit(1)\<close>, the connections with the requests in flight, and the main goroutine, which waits for the
  signal, shuts the server down and runs the deferred \<open>store.Close\<close>. \<open>Shutdown\<close> returns when no
  connection is left or when its 5 seconds are over; the program goes on in both cases, and in the second
  the connections left are served until the process ends.
\<close>

datatype metrics_main_at = Waiting_signal | Shutting_down | Draining | Deferred_close | Closed_store

text \<open>\<open>met_sent\<close> only records the answers, for each request the calls made on gin.\<close>

record metrics_program =
  met_server :: "request http_server"
  met_main :: metrics_main_at
  met_sent :: "(request \<times> document gin_call list) list"
  met_store_open :: bool
  met_exit :: "nat option"

definition metrics_boot :: metrics_program where
  "metrics_boot = \<lparr>met_server = new_server, met_main = Waiting_signal, met_sent = [],
     met_store_open = True, met_exit = None\<rparr>"

text \<open>\<open>gin.Recovery\<close>: a panic while a request is handled is answered 500 and ends nothing else. The headers
  that the CORS middleware has set before it calls the rest of the chain stay.\<close>

definition gin_Recovery :: "document gin_handler \<Rightarrow> request \<Rightarrow> document gin_call list" where
  "gin_Recovery nxt r = (case nxt r of Inl p \<Rightarrow> cors_headers r @ [AbortWithStatus 500] | Inr cs \<Rightarrow> cs)"

text \<open>\<open>answer c\<close> are the routes over the state \<open>c\<close> of the collection, which others change at any time.\<close>

inductive metrics_step :: "('c \<Rightarrow> document gin_handler) \<Rightarrow> metrics_program \<Rightarrow> metrics_program \<Rightarrow> bool"
  for answer :: "'c \<Rightarrow> document gin_handler" where
  Serve: "met_exit p = None \<Longrightarrow> serve_step (met_server p) h' \<Longrightarrow> metrics_step answer p (p\<lparr>met_server := h'\<rparr>)"
| ServeFailed: "met_exit p = None \<Longrightarrow> serve_failed (met_server p) \<Longrightarrow> metrics_step answer p (p\<lparr>met_exit := Some 1\<rparr>)"
| Answer: "met_exit p = None \<Longrightarrow> answer_step (met_server p) req h' \<Longrightarrow>
    metrics_step answer p (p\<lparr>met_server := h', met_sent := met_sent p @ [(req, gin_Recovery (answer c) req)]\<rparr>)"
| Signal: "met_exit p = None \<Longrightarrow> met_main p = Waiting_signal \<Longrightarrow> metrics_step answer p (p\<lparr>met_main := Shutting_down\<rparr>)"
| Shutdown: "met_exit p = None \<Longrightarrow> met_main p = Shutting_down \<Longrightarrow>
    metrics_step answer p (p\<lparr>met_server := http_Shutdown (met_server p), met_main := Draining\<rparr>)"
| Drained: "met_exit p = None \<Longrightarrow> met_main p = Draining \<Longrightarrow> drained (met_server p) \<Longrightarrow>
    metrics_step answer p (p\<lparr>met_main := Deferred_close\<rparr>)"
| TimedOut: "met_exit p = None \<Longrightarrow> met_main p = Draining \<Longrightarrow> metrics_step answer p (p\<lparr>met_main := Deferred_close\<rparr>)"
| CloseStore: "met_exit p = None \<Longrightarrow> met_main p = Deferred_close \<Longrightarrow>
    metrics_step answer p (p\<lparr>met_store_open := False, met_main := Closed_store\<rparr>)"
| Return: "met_exit p = None \<Longrightarrow> met_main p = Closed_store \<Longrightarrow> metrics_step answer p (p\<lparr>met_exit := Some 0\<rparr>)"

abbreviation metrics_runs :: "('c \<Rightarrow> document gin_handler) \<Rightarrow> metrics_program \<Rightarrow> metrics_program \<Rightarrow> bool" where
  "metrics_runs answer \<equiv> rtranclp (metrics_step answer)"

definition metrics_order :: "metrics_program \<Rightarrow> bool" where
  "metrics_order p \<longleftrightarrow>
     (in_shutdown (met_server p) \<longleftrightarrow> met_main p \<in> {Draining, Deferred_close, Closed_store}) \<and>
     (met_store_open p \<longleftrightarrow> met_main p \<noteq> Closed_store) \<and>
     (case met_exit p of None \<Rightarrow> True
      | Some n \<Rightarrow> n = 0 \<and> met_main p = Closed_store \<or> n = 1 \<and> serve_failed (met_server p))"

lemma metrics_order_step: "metrics_step answer p p' \<Longrightarrow> metrics_order p \<Longrightarrow> metrics_order p'"
  by (erule metrics_step.cases) (auto simp: metrics_order_def http_Shutdown_def split: option.splits)

lemma metrics_order_runs: "metrics_runs answer p p' \<Longrightarrow> metrics_order p \<Longrightarrow> metrics_order p'"
  by (induction rule: rtranclp_induct) (auto intro: metrics_order_step)

lemma metrics_boot_order: "metrics_order metrics_boot"
  by (simp add: metrics_order_def metrics_boot_def new_server_def)

text \<open>Once the server is shut down every answer is the last on a connection that was open then.\<close>

lemma answers_after_shutdown:
  assumes "metrics_runs answer p p'" and "in_shutdown (met_server p)"
  shows "in_shutdown (met_server p') \<and>
    length (met_sent p') + open_connections (met_server p') \<le> length (met_sent p) + open_connections (met_server p)"
  using assms(1)
proof (induction rule: rtranclp_induct)
  case (step p1 p2)
  from step(2) show ?case
  proof cases
    case (Serve h')
    with step(3) serve_step_connections [OF Serve(3)] show ?thesis by simp
  next
    case (Answer req h' c)
    with step(3) answer_step_connections [OF Answer(3)] show ?thesis by simp
  qed (use step(3) in simp_all)
qed (use assms(2) in simp)

text \<open>A request in flight stays so until it is answered, which it can be at any time.\<close>

lemma answer_enabled:
  assumes "met_exit p = None" and "r \<in> set (inflight (met_server p))"
  shows "\<exists>p'. metrics_step answer p p' \<and> met_exit p' = None \<and>
    met_sent p' = met_sent p @ [(r, gin_Recovery (answer c) r)]"
proof -
  from answer_step_exists [OF assms(2)] obtain h' where "answer_step (met_server p) r h'" by blast
  from Answer [OF assms(1) this, of answer c] show ?thesis
    by (intro exI conjI, assumption) (simp_all add: assms(1))
qed

text \<open>The steps the main goroutine has left.\<close>

definition metrics_left :: "metrics_program \<Rightarrow> nat" where
  "metrics_left p = (if met_exit p \<noteq> None then 0 else case met_main p of
      Waiting_signal \<Rightarrow> 5 | Shutting_down \<Rightarrow> 4 | Draining \<Rightarrow> 3 | Deferred_close \<Rightarrow> 2 | Closed_store \<Rightarrow> 1)"

lemma metrics_left_step: "metrics_step answer p p' \<Longrightarrow> metrics_left p' \<le> metrics_left p"
  by (erule metrics_step.cases) (auto simp: metrics_left_def)

lemma metrics_progressI:
  "metrics_step answer p p' \<Longrightarrow> metrics_left p' < metrics_left p \<Longrightarrow> \<exists>p'. metrics_step answer p p' \<and> metrics_left p' < metrics_left p"
  by blast

lemma metrics_progress:
  assumes "met_exit p = None"
  shows "\<exists>p'. metrics_step answer p p' \<and> metrics_left p' < metrics_left p"
proof (cases "met_main p")
  case Waiting_signal
  from Signal [OF assms this] show ?thesis
    by (rule metrics_progressI) (simp add: metrics_left_def assms Waiting_signal)
next
  case Shutting_down
  from Shutdown [OF assms this] show ?thesis
    by (rule metrics_progressI) (simp add: metrics_left_def assms Shutting_down)
next
  case Draining
  from TimedOut [OF assms this] show ?thesis
    by (rule metrics_progressI) (simp add: metrics_left_def assms Draining)
next
  case Deferred_close
  from CloseStore [OF assms this] show ?thesis
    by (rule metrics_progressI) (simp add: metrics_left_def assms Deferred_close)
next
  case Closed_store
  from Return [OF assms this] show ?thesis
    by (rule metrics_progressI) (simp add: metrics_left_def assms Closed_store)
qed

lemma step_runs: "metrics_step answer p p1 \<Longrightarrow> metrics_runs answer p1 p2 \<Longrightarrow> metrics_runs answer p p2"
  by (rule converse_rtranclp_into_rtranclp)

text \<open>Every answer is the routes' on some state of the collection.\<close>

lemma metrics_runs_sent:
  assumes "metrics_runs answer p p'" and "\<forall>(r, cs) \<in> set (met_sent p). \<exists>c. cs = gin_Recovery (answer c) r"
  shows "\<forall>(r, cs) \<in> set (met_sent p'). \<exists>c. cs = gin_Recovery (answer c) r"
  using assms(1)
proof (induction rule: rtranclp_induct)
  case (step p1 p2)
  from step(2) show ?case by cases (use step(3) in auto)
qed (use assms(2) in simp)

text \<open>Without the token a request for the data stops at the middleware.\<close>

lemma unauthorized_api:
  assumes "tok \<noteq> []" and "req_method r = ''GET''" and "bearer_token (req_header r ''Authorization'') \<noteq> tok"
    and "find (\<lambda>(pat, e). pm pat (req_path r)) gin_routes = Some (pat, e)"
    and "e \<in> {EP_ListGPUs, EP_QueryGPUTelemetry}"
  shows "RegisterGinRoutes pm wd rf h (Authenticate (NewTokenAuthenticator tok)) r =
    Inr (cors_headers r @ [AbortWithStatusJSON 401 (ErrorBody ''unauthorized''), LogRequest ''GET'' (req_path r) 401])"
  using assms
  by (auto simp: RegisterGinRoutes_def gin_cors_headers run_endpoint_def case_prod_unfold gin_logging_def gin_auth_def
      Authenticate_def NewTokenAuthenticator_def)

lemma metrics_main_routes:
  assumes "metrics_main env connect ping collection disconnect pm wd rf = Inr (addr, answer)"
  shows "\<exists>h. answer c = RegisterGinRoutes pm wd rf h (Authenticate (NewTokenAuthenticator (env ''AUTH_TOKEN'')))"
proof -
  have "cfg_AuthToken (newConfigFromEnv env) = env ''AUTH_TOKEN''" by (simp add: newConfigFromEnv_def)
  with assms show ?thesis by (auto simp: metrics_main_def Let_def split: sum.splits)
qed

text \<open>A listener that cannot be opened: the process ends, and the deferred \<open>store.Close\<close> does not run.\<close>

lemma failing_server_skips_close:
  "\<exists>p. metrics_runs answer metrics_boot p \<and> met_exit p = Some 1 \<and> met_store_open p"
proof -
  let ?p = "metrics_boot\<lparr>met_server := new_server\<lparr>serving := Served EOF\<rparr>\<rparr>"
  have fatal: "EOF \<noteq> ErrServerClosed" by (simp add: ErrServerClosed_def)
  have "serve_step new_server (new_server\<lparr>serving := Served EOF\<rparr>)"
    by (rule BindError [OF _ fatal]) (simp add: new_server_def)
  then have "metrics_step answer metrics_boot ?p"
    by (intro Serve) (simp_all add: metrics_boot_def)
  moreover have "metrics_step answer ?p (?p\<lparr>met_exit := Some 1\<rparr>)"
    by (rule ServeFailed) (simp_all add: metrics_boot_def serve_failed_def fatal)
  ultimately have "metrics_runs answer metrics_boot (?p\<lparr>met_exit := Some 1\<rparr>)"
    using step_runs rtranclp.rtrancl_refl by metis
  then show ?thesis
    by (intro exI [of _ "?p\<lparr>met_exit := Some 1\<rparr>"]) (simp add: metrics_boot_def)
qed


section \<open>Properties\<close>

text \<open>C32: How the metrics program ends. It exits with 0 only after the server was shut down and then the
  store closed, and with 1 only because serving failed. No request ends it: as long as the process lives
  every request in flight can be answered, on any state of the collection, and the process goes on; every
  answer sent is what the routes gave on some state of the collection or, where they panicked, the status 500
  behind the CORS headers. Once the shutdown has begun no connection is accepted, and on each that is open at
  most one request is still answered. The main goroutine always has an enabled step that brings it nearer to
  its end, at most 5 of them, while no other step takes it farther away.\<close>

theorem metrics_program_ends:
  assumes "metrics_runs answer metrics_boot p"
  shows "(case met_exit p of
        None \<Rightarrow> (\<exists>p'. metrics_step answer p p' \<and> metrics_left p' < metrics_left p) \<and>
          (\<forall>r \<in> set (inflight (met_server p)). \<forall>c. \<exists>p'. metrics_step answer p p' \<and> met_exit p' = None \<and>
             met_sent p' = met_sent p @ [(r, gin_Recovery (answer c) r)])
      | Some n \<Rightarrow> n = 0 \<and> in_shutdown (met_server p) \<and> \<not> met_store_open p \<or> n = 1 \<and> serve_failed (met_server p)) \<and>
    (\<forall>(r, cs) \<in> set (met_sent p). \<exists>c. cs = (case answer c r of
        Inl panic \<Rightarrow> cors_headers r @ [AbortWithStatus 500]
      | Inr calls \<Rightarrow> calls)) \<and>
    (in_shutdown (met_server p) \<longrightarrow> (\<forall>p'. metrics_runs answer p p' \<longrightarrow>
       length (met_sent p') + open_connections (met_server p') \<le>
       length (met_sent p) + open_connections (met_server p))) \<and>
    (\<forall>p'. metrics_step answer p p' \<longrightarrow> metrics_left p' \<le> metrics_left p) \<and> metrics_left p \<le> 5"
proof (intro conjI)
  note order = metrics_order_runs [OF assms metrics_boot_order, unfolded metrics_order_def]
  show "case met_exit p of
        None \<Rightarrow> (\<exists>p'. metrics_step answer p p' \<and> metrics_left p' < metrics_left p) \<and>
          (\<forall>r \<in> set (inflight (met_server p)). \<forall>c. \<exists>p'. metrics_step answer p p' \<and> met_exit p' = None \<and>
             met_sent p' = met_sent p @ [(r, gin_Recovery (answer c) r)])
      | Some n \<Rightarrow> n = 0 \<and> in_shutdown (met_server p) \<and> \<not> met_store_open p \<or> n = 1 \<and> serve_failed (met_server p)"
  proof (cases "met_exit p")
    case None
    from metrics_progress [OF None, of answer] answer_enabled [OF None, of _ answer] show ?thesis
      unfolding None option.case by blast
  qed (use order in auto)
  have "\<forall>(r, cs) \<in> set (met_sent p). \<exists>c. cs = gin_Recovery (answer c) r"
    by (rule metrics_runs_sent [OF assms]) (simp add: metrics_boot_def)
  then show "\<forall>(r, cs) \<in> set (met_sent p). \<exists>c. cs = (case answer c r of
        Inl panic \<Rightarrow> cors_headers r @ [AbortWithStatus 500]
      | Inr calls \<Rightarrow> calls)" by (simp add: gin_Recovery_def)
  show "in_shutdown (met_server p) \<longrightarrow> (\<forall>p'. metrics_runs answer p p' \<longrightarrow>
       length (met_sent p') + open_connections (met_server p') \<le>
       length (met_sent p) + open_connections (met_server p))"
    using answers_after_shutdown by blast
  show "\<forall>p'. metrics_step answer p p' \<longrightarrow> metrics_left p' \<le> metrics_left p" using metrics_left_step by blast
  show "metrics_left p \<le> 5" by (simp add: metrics_left_def split: metrics_main_at.splits)
qed

theorem metrics_program_ends_witness:
  "\<exists>p. metrics_runs (\<lambda>_ :: unit. \<lambda>r. Inr []) metrics_boot p \<and> met_exit p = Some 1 \<and> serve_failed (met_server p)"
proof -
  from failing_server_skips_close obtain p where
    p: "metrics_runs (\<lambda>_ :: unit. \<lambda>r. Inr []) metrics_boot p" "met_exit p = Some 1" by blast
  from metrics_program_ends [OF p(1)] p(2) have "serve_failed (met_server p)" by simp
  with p show ?thesis by blast
qed

text \<open>C18: The metrics program guards its data. Started with a token, whatever requests come in whatever
  state of the collection, also during the shutdown, every answer it has sent to a request for the API
  without that token is the refusal with status 401: it does not depend on the store.\<close>

theorem metrics_program_guards_data:
  assumes "metrics_main env connect ping collection disconnect pm wd rf = Inr (addr, answer)"
    and "env ''AUTH_TOKEN'' \<noteq> []" and "metrics_runs answer metrics_boot p" and "(r, cs) \<in> set (met_sent p)"
    and "req_method r = ''GET''" and "bearer_token (req_header r ''Authorization'') \<noteq> env ''AUTH_TOKEN''"
    and "find (\<lambda>(pat, e). pm pat (req_path r)) gin_routes = Some (pat, e)"
    and "e \<in> {EP_ListGPUs, EP_QueryGPUTelemetry}"
  shows "cs = cors_headers r @
    [AbortWithStatusJSON 401 (ErrorBody ''unauthorized''), LogRequest ''GET'' (req_path r) 401]"
proof -
  have "\<forall>(r, cs) \<in> set (met_sent p). \<exists>c. cs = gin_Recovery (answer c) r"
    by (rule metrics_runs_sent [OF assms(3)]) (simp add: metrics_boot_def)
  with assms(4) obtain c where "cs = gin_Recovery (answer c) r" by auto
  moreover obtain h where
    "answer c = RegisterGinRoutes pm wd rf h (Authenticate (NewTokenAuthenticator (env ''AUTH_TOKEN'')))"
    using metrics_main_routes [OF assms(1)] by blast
  ultimately show ?thesis
    using unauthorized_api [where pm = pm, OF assms(2,5,6,7,8), of wd rf h] by (simp add: gin_Recovery_def)
qed

lemma metrics_main_starts:
  "\<exists>addr answer. metrics_main env (\<lambda>_. Inr client) (\<lambda>_. None) collection disconnect pm wd rf = Inr (addr, answer)"
  by (auto simp: metrics_main_def Let_def NewMongoStore_def split: sum.split)

text \<open>One request is answered.\<close>

lemma one_request:
  "\<exists>p. metrics_runs answer metrics_boot p \<and> met_sent p = [(r, gin_Recovery (answer c) r)]"
proof -
  let ?h1 = "new_server\<lparr>serving := Listening\<rparr> :: request http_server"
  let ?h2 = "?h1\<lparr>waiting := Suc 0\<rparr>" and ?h3 = "?h1\<lparr>waiting := 0, inflight := [r]\<rparr>"
  let ?h4 = "?h1\<lparr>waiting := 0, inflight := []\<rparr>"
  let ?p = "\<lambda>h. metrics_boot\<lparr>met_server := h\<rparr>"
  have boot: "met_exit (?p h) = None" "met_server (?p h) = h" "met_sent (?p h) = []"
    "(?p h)\<lparr>met_server := h'\<rparr> = ?p h'" for h h'
    by (simp_all add: metrics_boot_def)
  have serve: "metrics_step answer (?p h) (?p h')" if "serve_step h h'" for h h'
    using Serve [of "?p h" h' answer] that boot by simp
  have "serve_step new_server ?h1" by (rule Bind) (simp_all add: new_server_def)
  moreover have "serve_step ?h1 ?h2" using Connect [of ?h1] by (simp add: new_server_def)
  moreover have "serve_step ?h2 ?h3" using Begin [of ?h2 0 r] by (simp add: new_server_def)
  ultimately have s: "metrics_step answer (?p new_server) (?p ?h1)" "metrics_step answer (?p ?h1) (?p ?h2)"
    "metrics_step answer (?p ?h2) (?p ?h3)" by (simp_all only: serve)
  have "answer_step ?h3 r ?h4" using LastAnswer [of ?h3 "[]" r "[]"] by simp
  with Answer [of "?p ?h3" r ?h4 answer c] boot
  have s4: "metrics_step answer (?p ?h3) ((?p ?h4)\<lparr>met_sent := [(r, gin_Recovery (answer c) r)]\<rparr>)" by simp
  have "?p new_server = metrics_boot" by (simp add: metrics_boot_def)
  then have "metrics_step answer metrics_boot (?p ?h1)" using s(1) by (simp only:)
  then have "metrics_runs answer metrics_boot ((?p ?h4)\<lparr>met_sent := [(r, gin_Recovery (answer c) r)]\<rparr>)"
    by (rule step_runs, intro step_runs [OF s(2)] step_runs [OF s(3)] step_runs [OF s4] rtranclp.rtrancl_refl)
  then show ?thesis by (intro exI conjI) (assumption, simp)
qed

theorem metrics_program_guards_data_witness:
  "\<exists>addr answer p. metrics_main (\<lambda>k. if k = ''AUTH_TOKEN'' then ''s3cret'' else []) (\<lambda>_. Inr ()) (\<lambda>_. None)
       (\<lambda>_ _ _. memory_collection) (\<lambda>_. None) (=) None (\<lambda>_. None) = Inr (addr, answer) \<and>
     metrics_runs answer metrics_boot p \<and>
     met_sent p = [(page_request ''1'' ''2'', cors_headers (page_request ''1'' ''2'') @
       [AbortWithStatusJSON 401 (ErrorBody ''unauthorized''), LogRequest ''GET'' ''/api/v1/gpus'' 401])]"
proof -
  let ?env = "\<lambda>k. if k = ''AUTH_TOKEN'' then ''s3cret'' else []" and ?r = "page_request ''1'' ''2''"
  let ?main = "metrics_main ?env (\<lambda>_. Inr ()) (\<lambda>_. None) (\<lambda>_ _ _. memory_collection) (\<lambda>_. None) (=) None (\<lambda>_. None)"
  from metrics_main_starts [of ?env "()" "\<lambda>_ _ _. memory_collection" "\<lambda>_. None" "(=)" None "\<lambda>_. None"]
  obtain addr answer where main: "?main = Inr (addr, answer)" by (elim exE)
  from one_request [of answer ?r "[]"] obtain p where
    p: "metrics_runs answer metrics_boot p" "met_sent p = [(?r, gin_Recovery (answer []) ?r)]" by (elim exE conjE)
  from metrics_program_guards_data [OF main _ p(1), of ?r "gin_Recovery (answer []) ?r" "''/api/v1/gpus''" EP_ListGPUs]
  have "gin_Recovery (answer []) ?r = cors_headers ?r @
      [AbortWithStatusJSON 401 (ErrorBody ''unauthorized''), LogRequest ''GET'' (req_path ?r) 401]"
    using p(2) by (simp add: page_request_def gin_routes_def bearer_token_def)
  with main p show ?thesis by (intro exI conjI) (assumption | simp add: page_request_def)+
qed

end
