(* ===== verification/MetricsJson.thy ===== *)
theory MetricsJson
  imports StorageProps
begin

text \<open>
  The bodies of the metrics API as text: what \<open>json.NewEncoder(w).Encode\<close> writes for the values that
  \<open>internal/metrics/handler.go\<close> hands to it, the structs of \<open>interfaces.go\<close> and the error map. The
  encoding of a stored document is an argument, it is the driver's.
\<close>

section \<open>Encoding\<close>

definition json_number :: "int \<Rightarrow> rjson" where
  "json_number n = RNum (itoa n)"

definition json_strings :: "string list \<Rightarrow> rjson" where
  "json_strings ss = RArr (map json_string ss)"

text \<open>A nil slice, which is what a query without a result gives, is \<open>null\<close>.\<close>

definition json_documents :: "('d \<Rightarrow> rjson) \<Rightarrow> 'd list \<Rightarrow> rjson" where
  "json_documents enc ds = (if ds = [] then RLit ''null'' else RArr (map enc ds))"

definition response_tree :: "('i list \<Rightarrow> rjson) \<Rightarrow> 'i Response \<Rightarrow> rjson" where
  "response_tree enc r =
     RObj [(''total'', json_number (sint (Total r))), (''page'', json_number (sint (RespPage r))),
           (''limit'', json_number (sint (RespLimit r))), (''items'', enc (Items r))]"

definition error_tree :: "string \<Rightarrow> rjson" where
  "error_tree message = map_tree json_string [(''error'', message)]"

fun body_tree :: "('d \<Rightarrow> rjson) \<Rightarrow> 'd body \<Rightarrow> rjson" where
  "body_tree enc (ListBody r) = response_tree json_strings r"
| "body_tree enc (QueryBody r) = response_tree (json_documents enc) r"
| "body_tree enc (ErrorBody message) = error_tree message"

text \<open>\<open>Encode\<close> ends the value with a newline.\<close>

definition Encode_body :: "('d \<Rightarrow> rjson) \<Rightarrow> 'd body \<Rightarrow> string" where
  "Encode_body enc b = render (body_tree enc b) @ [CHR 0x0A]"

section \<open>Numbers\<close>

lemma digits_value_digits: "n < 10 ^ w \<Longrightarrow> digits_value acc (digits w n) = Some (acc * 10 ^ w + n)"
proof (induction w arbitrary: n)
  case (Suc w)
  have app: "digits_value a (xs @ [c]) = (case digits_value a xs of None \<Rightarrow> None | Some v \<Rightarrow>
      if is_digit c then Some (10 * v + digit_val c) else None)" for a xs c
    by (induction xs arbitrary: a) auto
  from Suc have "digits_value acc (digits w (n div 10)) = Some (acc * 10 ^ w + n div 10)"
    by (simp add: less_mult_imp_div_less mult.commute)
  then show ?case by (simp add: app algebra_simps)
qed simp

lemma num_digits_enough: "n < 10 ^ num_digits n"
proof (induction n rule: num_digits.induct)
  case (1 n)
  then show ?case by (subst num_digits.simps) (auto simp: div_less_iff_less_mult algebra_simps)
qed

lemma num_digits_pos: "0 < num_digits n"
  by (subst num_digits.simps) simp

lemma digit_zero: "digit n = CHR ''0'' \<longleftrightarrow> n mod 10 = 0"
proof -
  have zero: "(of_char CHR ''0'' :: nat) = 48" by simp
  have "digit n = CHR ''0'' \<longleftrightarrow> (of_char (digit n) :: nat) = of_char CHR ''0''" by (simp only: of_char_eq_iff)
  also have "\<dots> \<longleftrightarrow> 48 + n mod 10 = (48 :: nat)" by (simp only: of_char_digit zero)
  finally show ?thesis by simp
qed

text \<open>No number but 0 is written with a leading zero.\<close>

lemma hd_digits:
  "\<exists>c r. digits (num_digits n) n = c # r \<and> is_digit c \<and> (c = CHR ''0'' \<longrightarrow> n = 0 \<and> r = []) \<and>
     (\<forall>d \<in> set r. is_digit d)"
proof (induction n rule: num_digits.induct)
  case (1 n)
  show ?case
  proof (cases "n < 10")
    case True
    then show ?thesis by (subst num_digits.simps) (simp add: digit_zero)
  next
    case False
    with 1 obtain c r where "digits (num_digits (n div 10)) (n div 10) = c # r" "is_digit c"
      "c = CHR ''0'' \<longrightarrow> n div 10 = 0 \<and> r = []" "\<forall>d \<in> set r. is_digit d" by blast
    with False show ?thesis by (subst num_digits.simps) auto
  qed
qed

lemma itoa_digits: "itoa n = (if n < 0 then ''-'' else []) @ digits (num_digits (nat \<bar>n\<bar>)) (nat \<bar>n\<bar>)"
  by (simp add: itoa_def appendInt_def Let_def)

lemma Atoi_itoa:
  assumes "int_min \<le> n" and "n \<le> int_max"
  shows "Atoi (itoa n) = Inr n"
proof -
  let ?m = "nat \<bar>n\<bar>"
  obtain c r where d: "digits (num_digits ?m) ?m = c # r" "is_digit c" using hd_digits [of ?m] by blast
  have v: "digits_value 0 (digits (num_digits ?m) ?m) = Some ?m"
    using digits_value_digits [OF num_digits_enough] by simp
  have "c \<noteq> CHR ''-''" "c \<noteq> CHR ''+''" using d(2) by (auto simp: is_digit_def)
  with d v assms show ?thesis by (simp add: Atoi_def itoa_digits Let_def)
qed

lemma scan_number_itoa: "scan_number (itoa n) = Some (itoa n, [])"
proof -
  let ?m = "nat \<bar>n\<bar>"
  obtain c r where d: "digits (num_digits ?m) ?m = c # r" "is_digit c" "c = CHR ''0'' \<longrightarrow> r = []"
    "\<forall>x \<in> set r. is_digit x"
    using hd_digits [of ?m] by blast
  have c: "c \<noteq> CHR ''-''" using d(2) by (auto simp: is_digit_def)
  have t: "takeWhile is_digit r = r" "dropWhile is_digit r = []"
    using d(4) by (simp_all add: takeWhile_eq_all_conv dropWhile_eq_Nil_conv)
  show ?thesis using d(2,3)
    by (simp add: d(1) t c scan_number_def itoa_digits scan_sign_def scan_int_def scan_frac_def scan_exp_def)
qed

section \<open>Reading an answer\<close>

lemma wf_response_names [simp]:
  "wf_string ''total''" "wf_string ''page''" "wf_string ''limit''" "wf_string ''items''"
  by (rule wf_ascii_name, simp add: quote_char_def backslash_def)+

lemma parse_Encode:
  assumes "wf_json (body_tree enc b)" and "depth (body_tree enc b) \<le> max_depth"
  shows "parse_json (Encode_body enc b) = Some (body_tree enc b)"
proof -
  from pvalue_render(1) [OF assms, of "[CHR 0x0A]"] obtain n where
    "pvalue n max_depth (Encode_body enc b) = Some (body_tree enc b, [CHR 0x0A])"
    by (auto simp: Encode_body_def)
  from parse_json_any_fuel [OF this] show ?thesis by (simp add: skip_ws_def is_ws_def)
qed

text \<open>What a client reads off an answer: the members of the object, numbers and strings decoded.\<close>

definition member :: "string \<Rightarrow> rjson \<Rightarrow> rjson option" where
  "member k v = (case v of RObj ms \<Rightarrow> map_of (map (\<lambda>(x, y). (unquote x, y)) ms) k | _ \<Rightarrow> None)"

definition number_of :: "rjson \<Rightarrow> int option" where
  "number_of v = (case v of RNum s \<Rightarrow> (case Atoi s of Inr n \<Rightarrow> Some n | Inl _ \<Rightarrow> None) | _ \<Rightarrow> None)"

definition string_of :: "rjson \<Rightarrow> string option" where
  "string_of v = (case v of RStr s \<Rightarrow> Some (unquote s) | _ \<Rightarrow> None)"

definition strings_of :: "rjson \<Rightarrow> string list option" where
  "strings_of v = (case v of RArr vs \<Rightarrow> those (map string_of vs) | _ \<Rightarrow> None)"

definition read_list_answer :: "string \<Rightarrow> (int \<times> int \<times> int \<times> string list) option" where
  "read_list_answer body =
     do { v \<leftarrow> parse_json body;
          t \<leftarrow> Option.bind (member ''total'' v) number_of;
          p \<leftarrow> Option.bind (member ''page'' v) number_of;
          l \<leftarrow> Option.bind (member ''limit'' v) number_of;
          ids \<leftarrow> Option.bind (member ''items'' v) strings_of;
          Some (t, p, l, ids) }"

definition read_error_answer :: "string \<Rightarrow> string option" where
  "read_error_answer body = do { v \<leftarrow> parse_json body; Option.bind (member ''error'' v) string_of }"

lemma response_names_unquote [simp]:
  "unquote ''total'' = ''total''" "unquote ''page'' = ''page''" "unquote ''limit'' = ''limit''"
  "unquote ''items'' = ''items''"
  by (simp_all add: unquote_ascii backslash_def)

lemma number_of_json [simp]: "number_of (json_number (sint (n :: int64))) = Some (sint n)"
proof -
  have "int_min \<le> sint n" "sint n \<le> int_max"
    using sint_ge [of n] sint_lt [of n] by (simp_all add: int_min_def int_max_def)
  then show ?thesis by (simp add: number_of_def json_number_def Atoi_itoa)
qed

lemma strings_of_json: "\<forall>s \<in> set ss. valid_utf8 s \<Longrightarrow> strings_of (json_strings ss) = Some ss"
  by (induction ss) (auto simp: strings_of_def json_strings_def string_of_def json_string_def unquote_esc_valid)

lemma depth_strings: "depth (json_strings ss) = 1"
  by (induction ss) (auto simp: json_strings_def json_string_def)

lemma response_tree_ok:
  assumes "wf_json (enc (Items r))" and "Suc (depth (enc (Items r))) \<le> max_depth"
  shows "wf_json (response_tree enc r)" and "depth (response_tree enc r) \<le> max_depth"
  using assms by (auto simp: response_tree_def json_number_def scan_number_itoa)

text \<open>C30: The answer to a listing, as text, can be read: the body that is sent for a response is JSON that
  parses, and its members are the numbers of the response, with every value of 64 bits, and its GPU ids,
  whatever valid UTF-8 they are made of, quotes, control characters and markup included.\<close>

theorem list_answer_roundtrip:
  assumes "\<forall>s \<in> set (Items r). valid_utf8 s"
  shows "read_list_answer (Encode_body enc (ListBody r)) =
    Some (sint (Total r), sint (RespPage r), sint (RespLimit r), Items r)"
proof -
  have "wf_json (json_strings (Items r))" by (simp add: json_strings_def json_string_def wf_esc)
  from response_tree_ok [of json_strings, OF this] have
    "parse_json (Encode_body enc (ListBody r)) = Some (response_tree json_strings r)"
    by (intro parse_Encode [where b = "ListBody r", simplified]) (simp_all add: depth_strings max_depth_def)
  then show ?thesis
    by (simp add: read_list_answer_def response_tree_def member_def strings_of_json [OF assms])
qed

theorem list_answer_roundtrip_witness:
  "read_list_answer (Encode_body (\<lambda>_. RLit ''null'')
     (ListBody \<lparr>Total = -1, RespPage = 7, RespLimit = 2, Items = [''g\"1'', ''<&>'']\<rparr>)) =
   Some (-1, 7, 2, [''g\"1'', ''<&>''])"
  using list_answer_roundtrip [of "\<lparr>Total = -1, RespPage = 7, RespLimit = 2, Items = [''g\"1'', ''<&>'']\<rparr>"]
  by (simp add: valid_utf8_ascii)

text \<open>An error answer is read as its message.\<close>

lemma error_answer_roundtrip:
  assumes "valid_utf8 message"
  shows "read_error_answer (Encode_body enc (ErrorBody message)) = Some message"
proof -
  have e: "valid_utf8 ''error''" by (simp add: valid_utf8_ascii)
  have "parse_json (Encode_body enc (ErrorBody message)) = Some (error_tree message)"
    using parse_Encode [of enc "ErrorBody message"]
    by (simp add: error_tree_def map_tree_def json_string_def wf_esc max_depth_def)
  then show ?thesis
    by (simp add: read_error_answer_def error_tree_def map_tree_def member_def string_of_def json_string_def
        unquote_esc_valid assms e)
qed

text \<open>A query without a result is answered with \<open>null\<close> where the documentation promises an array.\<close>

lemma no_telemetry_is_null:
  "member ''items'' (body_tree enc (QueryBody \<lparr>Total = t, RespPage = p, RespLimit = l, Items = []\<rparr>)) =
   Some (RLit ''null'')"
  by (simp add: response_tree_def member_def json_documents_def)

end
