(* ===== verification/EndToEnd.thy ===== *)
theory EndToEnd
  imports Pipeline Programs StorageProps
begin

text \<open>
  From the CSV file to the answers of the metrics program: the four programs together. What the
  collection stores and answers are the hypotheses \<open>keeps\<close> and \<open>answers_queries\<close> of \<open>StorageProps\<close>, the path
  matching of gin is an argument.
\<close>

section \<open>Requests for telemetry\<close>

text \<open>What the handler reads off a request; a parameter that is missing has its default.\<close>

definition telemetry_query ::
    "int64 \<Rightarrow> request \<Rightarrow> string \<Rightarrow> time option \<Rightarrow> time option \<Rightarrow> nat \<Rightarrow> nat \<Rightarrow> SortOrder \<Rightarrow> bool" where
  "telemetry_query d r gid st en limit page order \<longleftrightarrow>
     req_method r = ''GET'' \<and> req_path r = ''/api/v1/gpus/'' @ gid @ ''/telemetry'' \<and>
     (let q = NewDefaultQueryParser (req_query r) in
      ParseTimeParam q ''start_time'' = Inr st \<and> ParseTimeParam q ''end_time'' = Inr en \<and>
      ParseInt q ''limit'' d = of_nat limit \<and> ParseInt q ''page'' 1 = of_nat page \<and>
      ParseSortOrder q ''sort'' SortAscending = order)"

text \<open>gin finds the route of the telemetry handler.\<close>

definition routes_telemetry :: "(string \<Rightarrow> string \<Rightarrow> bool) \<Rightarrow> string \<Rightarrow> bool" where
  "routes_telemetry pm path \<longleftrightarrow>
     pm ''/api/v1/gpus/:id/telemetry'' path \<and> \<not> pm ''/api/v1/gpus'' path"

lemma RegisterGinRoutes_telemetry:
  assumes "req_method r = ''GET''" and "routes_telemetry route_matches (req_path r)"
    and "authenticate (bearer_token (req_header r ''Authorization''))"
    and "Handler_QueryGPUTelemetry h r = Inr (jsonOK b)"
  shows "RegisterGinRoutes route_matches getwd read_file h authenticate r =
    Inr (cors_headers r @ map Writer (jsonOK b) @ [LogRequest ''GET'' (req_path r) 200])"
  using assms
  by (simp add: RegisterGinRoutes_def gin_cors_headers routes_telemetry_def gin_routes_def run_endpoint_def
      gin_logging_def gin_auth_def Gin_QueryGPUTelemetry_def jsonOK_def)

lemma Handler_QueryGPUTelemetry_service:
  assumes "telemetry_query d r gid st en limit page order" and "gid \<noteq> []" and "CHR ''/'' \<notin> set gid"
    and "gid \<noteq> ''gpus''" and "0 < sint d"
    and "Service_QueryTelemetry (NewService store srt d) gid st en (of_nat limit) (of_nat page) order = Inr resp"
  shows "Handler_QueryGPUTelemetry (NewHandler store auth srt d) r = Inr (jsonOK (QueryBody resp))"
proof -
  have parts: "req_path r = join CHR ''/'' [[], ''api'', ''v1'', ''gpus'', gid, ''telemetry'']"
    using assms(1) by (simp add: telemetry_query_def)
  have gid: "extractGPUIDFromPath (req_path r) = gid"
    unfolding extractGPUIDFromPath_def parts using assms(3,4)
    by (subst Split_join) auto
  have "Validate \<lparr>Limit = of_nat limit, Page = of_nat page\<rparr> = None"
    using assms(6) by (auto simp: Service_QueryTelemetry_def split: option.splits)
  with assms gid show ?thesis
    by (simp add: Handler_QueryGPUTelemetry_def NewHandler_def telemetry_query_def Let_def)
qed

section \<open>The answers of the metrics program\<close>

text \<open>The collection the configuration names.\<close>

definition env_collection :: "environment \<Rightarrow> (string \<Rightarrow> string \<Rightarrow> 'c CollectionAPI) \<Rightarrow> 'c CollectionAPI" where
  "env_collection env coll =
     coll (GetEnv env ''MONGODB_DATABASE'' ''message_streaming'') (GetEnv env ''MONGO_COLLECTION'' ''metrics'')"

lemma realCollection_answers: "answers_queries (realCollection col) c docs = answers_queries col c docs"
proof -
  have "c_Find (realCollection col) f opts c = c_Find col f opts c" for f opts
    by (simp add: realCollection_def split: sum.split)
  then show ?thesis by (simp add: answers_queries_def realCollection_def)
qed

lemma metrics_main_pages:
  assumes "connect (GetEnv env ''MONGODB_URI'' ''mongodb://localhost:27017'') = Inr client" and "ping client = None"
    and "answers_queries (env_collection env (collection client)) c docs"
    and "env ''AUTH_TOKEN'' \<noteq> [] \<longrightarrow> (\<forall>p. bearer_token (req_header (r p) ''Authorization'') = env ''AUTH_TOKEN'')"
    and "gid \<noteq> []" and "CHR ''/'' \<notin> set gid" and "gid \<noteq> ''gpus''"
    and "routes_telemetry route_matches (''/api/v1/gpus/'' @ gid @ ''/telemetry'')"
    and "\<forall>p \<in> {1..n}. telemetry_query (cfg_DefaultLimit (newConfigFromEnv env)) (r p) gid st en limit p order"
    and "0 < limit" and "n * limit < 2 ^ 63" and "length docs \<le> n * limit"
  shows "\<exists>addr answer page. metrics_main env connect ping collection disconnect route_matches getwd read_file =
      Inr (addr, answer) \<and>
    (\<forall>p \<in> {1..n}. answer c (r p) =
      Inr (cors_headers (r p) @ map Writer (jsonOK (QueryBody
        \<lparr>Total = of_nat (length (filter (matches (telemetry_filter gid st en)) docs)),
         RespPage = of_nat p, RespLimit = of_nat limit, Items = page p\<rparr>)) @
        [LogRequest ''GET'' (req_path (r p)) 200]) \<and>
      mset (page p) \<subseteq># mset (filter (matches (telemetry_filter gid st en)) docs)) \<and>
    (dated (filter (matches (telemetry_filter gid st en)) docs) \<or>
     length (filter (matches (telemetry_filter gid st en)) docs) \<le> limit \<longrightarrow>
       mset (concat (map page [1..<Suc n])) = mset (filter (matches (telemetry_filter gid st en)) docs) \<and>
       sorted_wrt (in_order (order = SortAscending)) (concat (map page [1..<Suc n])))"
proof -
  let ?all = "filter (matches (telemetry_filter gid st en)) docs"
  let ?cfg = "newConfigFromEnv env"
  let ?ms = "\<lparr>ms_client = client, ms_collection = realCollection (env_collection env (collection client))\<rparr>"
  let ?auth = "Authenticate (NewTokenAuthenticator (cfg_AuthToken ?cfg))"
  let ?store = "adapter_store (NewStoreAdapter (Mongo_QueryTelemetry ?ms c) (Mongo_ListGPUs ?ms c) (Mongo_Close disconnect ?ms))"
  let ?h = "NewHandler ?store ?auth SortStrings (cfg_DefaultLimit ?cfg)"
  have cfg: "cfg_MongoURI ?cfg = GetEnv env ''MONGODB_URI'' ''mongodb://localhost:27017''"
    "cfg_DBName ?cfg = GetEnv env ''MONGODB_DATABASE'' ''message_streaming''"
    "cfg_Collection ?cfg = GetEnv env ''MONGO_COLLECTION'' ''metrics''" "cfg_AuthToken ?cfg = env ''AUTH_TOKEN''"
    by (simp_all add: newConfigFromEnv_def)
  have "NewMongoStore connect ping collection (cfg_MongoURI ?cfg) (cfg_DBName ?cfg) (cfg_Collection ?cfg) = Inr ?ms"
    using assms(1,2) by (simp add: NewMongoStore_def cfg GetEnv_nonempty env_collection_def)
  then have main: "\<exists>addr answer. metrics_main env connect ping collection disconnect route_matches getwd read_file =
      Inr (addr, answer) \<and> answer c = RegisterGinRoutes route_matches getwd read_file ?h ?auth"
    by (simp add: metrics_main_def Let_def)
  have "answers_queries (ms_collection ?ms) c docs" using assms(3) by (simp add: realCollection_answers)
  from telemetry_pages [OF this assms(10-12), where gpu = gid and st = st and en = en and order = order and
      srt = SortStrings and d = "cfg_DefaultLimit ?cfg" and cl = "Mongo_Close disconnect ?ms"]
  obtain page where page: "\<forall>p \<in> {1..n}. Service_QueryTelemetry (NewService ?store SortStrings (cfg_DefaultLimit ?cfg))
        gid st en (of_nat limit) (of_nat p) order =
      Inr \<lparr>Total = of_nat (length (filter (matches (telemetry_filter gid st en)) docs)),
           RespPage = of_nat p, RespLimit = of_nat limit, Items = page p\<rparr>"
    and sub: "\<forall>p \<in> {1..n}. mset (page p) \<subseteq># mset ?all"
    and all: "dated ?all \<or> length ?all \<le> limit \<longrightarrow>
      mset (concat (map page [1..<Suc n])) = mset ?all \<and>
      sorted_wrt (in_order (order = SortAscending)) (concat (map page [1..<Suc n]))"
    by blast
  have auth: "?auth (bearer_token (req_header (r p) ''Authorization''))" for p
    using assms(4) by (auto simp: Authenticate_def NewTokenAuthenticator_def cfg)
  have "RegisterGinRoutes route_matches getwd read_file ?h ?auth (r p) =
      Inr (cors_headers (r p) @ map Writer (jsonOK (QueryBody
        \<lparr>Total = of_nat (length (filter (matches (telemetry_filter gid st en)) docs)),
         RespPage = of_nat p, RespLimit = of_nat limit, Items = page p\<rparr>)) @
        [LogRequest ''GET'' (req_path (r p)) 200])" if "p \<in> {1..n}" for p
  proof -
    from assms(9) that have q: "telemetry_query (cfg_DefaultLimit ?cfg) (r p) gid st en limit p order" by blast
    from Handler_QueryGPUTelemetry_service [OF q assms(5-7) DefaultLimit_positive bspec [OF page that]]
    show ?thesis using q assms(8) auth
      by (intro RegisterGinRoutes_telemetry) (simp_all add: telemetry_query_def)
  qed
  with main sub all show ?thesis by (metis (no_types, lifting))
qed

section \<open>From the file to the answers\<close>

text \<open>The rows a query asks for.\<close>

definition row_selected :: "string \<Rightarrow> time option \<Rightarrow> time option \<Rightarrow> time \<Rightarrow> row \<Rightarrow> bool" where
  "row_selected gid st en sent row \<longleftrightarrow>
     (map_of row ''uuid'' = Some gid \<or> map_of row ''gpu_id'' = Some gid) \<and>
     (case st of None \<Rightarrow> True | Some s \<Rightarrow> date_ms s \<le> date_ms sent) \<and>
     (case en of None \<Rightarrow> True | Some e \<Rightarrow> date_ms sent \<le> date_ms e)"

lemma bson_document_field: "k \<noteq> ''_id'' \<Longrightarrow> bson_document oid d k = map_option bson_value (d k)"
  by (simp add: bson_document_def)

lemma stamp_row_document: "stamp (bson_document oid (row_document sent stored row)) = Some (date_ms sent)"
  by (simp add: stamp_def bson_document_field row_document_def)

lemma matches_row_document:
  assumes "gid \<noteq> []"
  shows "matches (telemetry_filter gid st en) (bson_document oid (row_document sent stored row)) \<longleftrightarrow>
    row_selected gid st en sent row"
proof -
  have "some_value (\<lambda>w. w = DStr gid) (bson_document oid (row_document sent stored row) k) \<longleftrightarrow> map_of row k = Some gid"
    if "k \<in> {''uuid'', ''gpu_id''}" for k
    using that assms by (auto simp: bson_document_field row_document_def some_value_def split: option.splits if_splits)
  moreover have "bson_document oid (row_document sent stored row) ''timestamp'' = Some (DDate (date_ms sent))"
    by (simp add: bson_document_field row_document_def)
  ultimately show ?thesis using assms
    by (auto simp: matches_def telemetry_filter_def row_selected_def in_range_def some_value_def split: option.splits)
qed

text \<open>The documents of rows as the collection keeps them, each with the number of its row.\<close>

definition stored_rows ::
    "(nat \<Rightarrow> string) \<Rightarrow> string list \<Rightarrow> (nat \<Rightarrow> time) \<Rightarrow> (nat \<Rightarrow> time) \<Rightarrow> (nat \<times> string list) list \<Rightarrow> document list" where
  "stored_rows oid header sent stored irs =
     map (\<lambda>(i, r). bson_document (oid i) (row_document (sent i) (stored i) (row_of header r))) irs"

definition rows_selected ::
    "string list \<Rightarrow> string \<Rightarrow> time option \<Rightarrow> time option \<Rightarrow> (nat \<Rightarrow> time) \<Rightarrow> string list list \<Rightarrow> (nat \<times> string list) list" where
  "rows_selected header gid st en sent rows =
     filter (\<lambda>(i, r). row_selected gid st en (sent i) (row_of header r)) (enumerate 0 rows)"

lemma filter_stored_rows:
  "gid \<noteq> [] \<Longrightarrow> filter (matches (telemetry_filter gid st en)) (stored_rows oid header sent stored irs) =
   stored_rows oid header sent stored (filter (\<lambda>(i, r). row_selected gid st en (sent i) (row_of header r)) irs)"
  by (induction irs) (auto simp: stored_rows_def matches_row_document)

lemma bson_row_documents:
  "bson_documents oid 0 (row_documents header sent stored (enumerate 0 rows)) =
   stored_rows oid header sent stored (enumerate 0 rows)"
  by (rule nth_equalityI)
    (simp_all add: bson_documents_def row_documents_def stored_rows_def nth_enumerate_eq)

lemma dated_stored_rows:
  "distinct (map (\<lambda>(i, r). date_ms (sent i)) irs) \<Longrightarrow> dated (stored_rows oid header sent stored irs)"
proof -
  have "map stamp (stored_rows oid header sent stored irs) = map Some (map (\<lambda>(i, r). date_ms (sent i)) irs)"
    by (simp add: stored_rows_def stamp_row_document case_prod_unfold)
  moreover have "distinct (map Some xs) = distinct xs" for xs :: "int list" by (simp add: distinct_map)
  moreover assume "distinct (map (\<lambda>(i, r). date_ms (sent i)) irs)"
  ultimately have "distinct (map stamp (stored_rows oid header sent stored irs))"
    "None \<notin> set (map stamp (stored_rows oid header sent stored irs))"
    by (simp_all only: set_map) auto
  then show ?thesis by (simp add: dated_def)
qed

text \<open>C1: From the file to the answers. A CSV table goes through the producer program, a new broker in
  queue mode and the consumer program into an empty collection, and the metrics program, started with the
  same variables as the consumer, answers from it. An authorised client that asks for the pages of the
  telemetry of a GPU in a range of times gets on every page documents of rows whose \<open>uuid\<close> or \<open>gpu_id\<close> is that
  GPU and whose message was made in the range (to the millisecond), none twice on a page, and the number of
  all of them. When they fit on one page, or when their messages were made in different milliseconds,
  following the pages from the first gives all of them, each once, in the order of these times; otherwise
  MongoDB, which is asked to sort by the timestamp only, may repeat one and leave one out. The
  file is written as CSV without carriage returns, every record as long as the header and none a single empty
  cell, with UTF-8 cells and names, no column without a name, and at most 10000 records of at most 170000
  bytes with the names of the columns; the connections do not fail, the collection refuses none of the
  documents, the id in the path is neither empty
  nor \<open>gpus\<close> and has no slash, page times limit stays below 2^63, and the collection answers as
  documented and does not change meanwhile.\<close>

theorem csv_to_telemetry_answers:
  fixes sent :: "nat \<Rightarrow> time \<times> time" and stored :: "nat \<Rightarrow> time \<times> time"
  assumes "table_ok header rows" and "table_utf8 header rows" and "length rows \<le> 10000"
    and "\<forall>k. time_wf (snd (sent k)) \<and> \<not> IsZero (snd (sent k))"
    and "dial1 (GetEnv env1 ''BROKER_ADDR'' ''localhost:9080'') = Inr cn"
    and "wr_room (nc_out cn) = None" and "written (nc_out cn) = []"
    and "abs_path (GetEnv env1 ''CSV_PATH'' default_csv_path) = Inr path"
    and "open_file path = Inr \<lparr>file_text = csv_file header rows, file_fin = EOF, file_close = cl\<rparr>"
    and "\<forall>k. length (rand k) = 8" and "\<forall>r \<in> set rows. row_size header r \<le> 170000"
    and "wr_room w2 = None" and "written w2 = []" and "wr_room w3 = None"
    and "connect (GetEnv env3 ''MONGODB_URI'' ''mongodb://localhost:27017'') = Inr client" and "ping client = None"
    and "keeps (env_collection env3 (collection client)) oid refuses"
    and "\<forall>c. \<forall>d \<in> set (row_documents header (snd \<circ> sent) (snd \<circ> stored) (enumerate 0 rows)). \<not> refuses c d"
    and "\<forall>ds. answers_queries (env_collection env3 (collection client)) ds ds"
    and "env3 ''AUTH_TOKEN'' \<noteq> [] \<longrightarrow> (\<forall>p. bearer_token (req_header (req p) ''Authorization'') = env3 ''AUTH_TOKEN'')"
    and "gid \<noteq> []" and "CHR ''/'' \<notin> set gid" and "gid \<noteq> ''gpus''"
    and "routes_telemetry route_matches (''/api/v1/gpus/'' @ gid @ ''/telemetry'')"
    and "\<forall>p \<in> {1..n}. telemetry_query (cfg_DefaultLimit (newConfigFromEnv env3)) (req p) gid st en limit p order"
    and "0 < limit" and "n * limit < 2 ^ 63" and "length rows \<le> n * limit"
  shows "\<exists>p cn' b b1 b2 w2' w3' docs addr answer page.
    producer_main env1 dial1 abs_path open_file sent rand = Inr (0, Some p) \<and> p_conn p = Some cn' \<and>
    NewBroker Queue = Inr b \<and>
    HandleConn env2 cid1 c1 ord1 \<lparr>avail = written (nc_out cn'), fin = e1\<rparr> w1 b = Some (Inr (b1, w1, Returned)) \<and>
    HandleConn env2 cid2 c2 ord2 \<lparr>avail = role_line ''CONSUMER'', fin = e2\<rparr> w2 b1 = Some (Inr (b2, w2', Returned)) \<and>
    consumer_main env3 (\<lambda>_. Inr (\<lparr>avail = written w2', fin = EOF\<rparr>, w3)) connect ping collection stored [] =
      Inr (EOF, w3', docs) \<and>
    metrics_main env3 connect ping collection disconnect route_matches getwd read_file = Inr (addr, answer) \<and>
    (\<forall>p \<in> {1..n}. answer docs (req p) =
      Inr (cors_headers (req p) @ map Writer (jsonOK (QueryBody
        \<lparr>Total = of_nat (length (rows_selected header gid st en (snd \<circ> sent) rows)),
         RespPage = of_nat p, RespLimit = of_nat limit, Items = page p\<rparr>)) @
        [LogRequest ''GET'' (req_path (req p)) 200]) \<and>
      mset (page p) \<subseteq># mset (stored_rows oid header (snd \<circ> sent) (snd \<circ> stored)
        (rows_selected header gid st en (snd \<circ> sent) rows))) \<and>
    (distinct (map (\<lambda>(i, r). date_ms (snd (sent i))) (rows_selected header gid st en (snd \<circ> sent) rows)) \<or>
     length (rows_selected header gid st en (snd \<circ> sent) rows) \<le> limit \<longrightarrow>
       mset (concat (map page [1..<Suc n])) = mset (stored_rows oid header (snd \<circ> sent) (snd \<circ> stored)
         (rows_selected header gid st en (snd \<circ> sent) rows)) \<and>
       sorted_wrt (in_order (order = SortAscending)) (concat (map page [1..<Suc n])))"
proof -
  let ?docs = "stored_rows oid header (snd \<circ> sent) (snd \<circ> stored) (enumerate 0 rows)"
  have keeps: "keeps (collection client (GetEnv env3 ''MONGODB_DATABASE'' ''message_streaming'')
      (GetEnv env3 ''MONGO_COLLECTION'' ''metrics'')) oid refuses"
    using assms(17) by (simp add: env_collection_def)
  from pipeline_documents [where ?dial1.0 = dial1 and ?env1.0 = env1 and abs_path = abs_path and open_file = open_file
      and sent = sent and rand = rand and ?env2.0 = env2 and stored = stored and db = "[]" and connect = connect and
      ping = ping and collection = collection and client = client and ?env3.0 = env3 and ?w1.0 = w1 and ?cid1.0 = cid1 and
      ?c1.0 = c1 and ?ord1.0 = ord1 and ?e1.0 = e1 and ?cid2.0 = cid2 and ?c2.0 = c2 and ?ord2.0 = ord2 and ?e2.0 = e2,
      OF assms(1-14) keeps assms(18,15,16)]
  have stored: "\<exists>p cn' b b1 b2 w2' w3'.
    producer_main env1 dial1 abs_path open_file sent rand = Inr (0, Some p) \<and> p_conn p = Some cn' \<and>
    NewBroker Queue = Inr b \<and>
    HandleConn env2 cid1 c1 ord1 \<lparr>avail = written (nc_out cn'), fin = e1\<rparr> w1 b = Some (Inr (b1, w1, Returned)) \<and>
    HandleConn env2 cid2 c2 ord2 \<lparr>avail = role_line ''CONSUMER'', fin = e2\<rparr> w2 b1 = Some (Inr (b2, w2', Returned)) \<and>
    consumer_main env3 (\<lambda>_. Inr (\<lparr>avail = written w2', fin = EOF\<rparr>, w3)) connect ping collection stored [] =
      Inr (EOF, w3', ?docs)"
    by (simp add: bson_row_documents)
  let ?sel = "rows_selected header gid st en (snd \<circ> sent) rows"
  have sel: "filter (matches (telemetry_filter gid st en)) ?docs = stored_rows oid header (snd \<circ> sent) (snd \<circ> stored) ?sel"
    unfolding rows_selected_def by (rule filter_stored_rows [OF assms(21)])
  have len: "length (stored_rows oid header s t irs) = length irs" for s t irs by (simp add: stored_rows_def)
  then have fits: "length ?docs \<le> n * limit" using assms(28) by simp
  have dated: "dated (stored_rows oid header (snd \<circ> sent) (snd \<circ> stored) ?sel)"
    if "distinct (map (\<lambda>(i, r). date_ms (snd (sent i))) ?sel)"
    using that dated_stored_rows [of "snd \<circ> sent" ?sel] by simp
  from metrics_main_pages [where route_matches = route_matches and connect = connect and ping = ping and
      collection = collection and env = env3 and r = req and gid = gid and st = st and en = en and order = order and
      disconnect = disconnect and getwd = getwd and read_file = read_file and client = client and n = n and limit = limit,
      OF assms(15,16) spec [OF assms(19), of ?docs] assms(20-27) fits]
  obtain addr answer page where
    "metrics_main env3 connect ping collection disconnect route_matches getwd read_file = Inr (addr, answer)"
    "\<forall>p \<in> {1..n}. answer ?docs (req p) =
      Inr (cors_headers (req p) @ map Writer (jsonOK (QueryBody
        \<lparr>Total = of_nat (length ?sel), RespPage = of_nat p, RespLimit = of_nat limit, Items = page p\<rparr>)) @
        [LogRequest ''GET'' (req_path (req p)) 200]) \<and>
      mset (page p) \<subseteq># mset (stored_rows oid header (snd \<circ> sent) (snd \<circ> stored) ?sel)"
    "dated (stored_rows oid header (snd \<circ> sent) (snd \<circ> stored) ?sel) \<or> length ?sel \<le> limit \<longrightarrow>
      mset (concat (map page [1..<Suc n])) = mset (stored_rows oid header (snd \<circ> sent) (snd \<circ> stored) ?sel) \<and>
      sorted_wrt (in_order (order = SortAscending)) (concat (map page [1..<Suc n]))"
    unfolding sel len by blast
  with stored dated show ?thesis by blast
qed

section \<open>Example\<close>

text \<open>Two rows of two GPUs, and a request without parameters for one of them.\<close>

definition gpu_request :: request where
  "gpu_request = \<lparr>req_method = ''GET'', req_path = ''/api/v1/gpus/g1/telemetry'', req_query = Map.empty,
     req_header = \<lambda>_. []\<rparr>"

lemma gpu_request_asks:
  "telemetry_query (cfg_DefaultLimit (newConfigFromEnv (\<lambda>_. []))) gpu_request ''g1'' None None 100 1 SortAscending"
  by (simp add: telemetry_query_def gpu_request_def NewDefaultQueryParser_def ParseTimeParam_def ParseInt_def
      ParseSortOrder_def newConfigFromEnv_def)

theorem csv_to_telemetry_answers_witness:
  "\<exists>docs addr answer page.
    metrics_main (\<lambda>_. []) (\<lambda>_. Inr ()) (\<lambda>_. None) (\<lambda>_ _ _. memory_collection) (\<lambda>_. None)
      (\<lambda>pat _. pat = ''/api/v1/gpus/:id/telemetry'') None (\<lambda>_. None) = Inr (addr, answer) \<and>
    answer docs gpu_request =
      Inr (cors_headers gpu_request @ map Writer (jsonOK (QueryBody
        \<lparr>Total = 1, RespPage = 1, RespLimit = 100, Items = page\<rparr>)) @
        [LogRequest ''GET'' (req_path gpu_request) 200]) \<and>
    mset page = {#bson_document [] (row_document year_two zero_time (row_of [''uuid''] [''g1'']))#}"
proof -
  let ?h = "[''uuid'']" and ?rows = "[[''g1''], [''g2'']]"
  let ?s = "\<lambda>_::nat. (year_two, year_two)" and ?t = "\<lambda>_::nat. (year_two, zero_time)"
  have t: "table_ok ?h ?rows" "table_utf8 ?h ?rows"
    by (simp_all add: table_ok_def csv_ok_def cr_def table_utf8_def valid_utf8_ascii)
  have app: "keeps (env_collection (\<lambda>_. []) (\<lambda>_ _. memory_collection)) (\<lambda>_. []) (\<lambda>_ _. False)"
    "\<forall>c. \<forall>d \<in> set (row_documents ?h (snd \<circ> ?s) (snd \<circ> ?t) (enumerate 0 ?rows)). \<not> (\<lambda>_ _. False) c d"
    "\<forall>ds. answers_queries (env_collection (\<lambda>_. []) (\<lambda>_ _. memory_collection)) ds ds"
    by (simp_all add: env_collection_def memory_collection_keeps memory_collection_answers)
  have c: "wr_room (nc_out example_conn) = None" "written (nc_out example_conn) = []"
    by (simp_all add: example_conn_def)
  have sel: "rows_selected ?h ''g1'' None None (snd \<circ> ?s) ?rows = [(0, [''g1''])]"
    by (simp add: rows_selected_def row_selected_def row_of_def)
  from csv_to_telemetry_answers [where header = ?h and rows = ?rows and
      sent = ?s and stored = ?t and ?dial1.0 = "\<lambda>_. Inr example_conn" and
      ?env1.0 = "\<lambda>_. []" and ?env2.0 = "\<lambda>_. []" and ?env3.0 = "\<lambda>_. []" and cn = example_conn and abs_path = Inr and
      path = default_csv_path and open_file = "\<lambda>_. Inr \<lparr>file_text = csv_file ?h ?rows, file_fin = EOF, file_close = None\<rparr>"
      and cl = None and rand = "\<lambda>_. replicate 8 7" and ?w1.0 = "nc_out example_conn" and ?w2.0 = "nc_out example_conn" and
      ?w3.0 = "nc_out example_conn" and collection = "\<lambda>_ _ _. memory_collection" and client = "()" and
      connect = "\<lambda>_. Inr ()" and ping = "\<lambda>_. None" and ?cid1.0 = "''u''" and ?c1.0 = 0 and
      ?ord1.0 = "\<lambda>_ ks. ks" and ?cid2.0 = "''v''" and ?c2.0 = 1 and ?ord2.0 = "\<lambda>_ ks. ks" and ?e1.0 = EOF and ?e2.0 = EOF
      and req = "\<lambda>_. gpu_request" and gid = "''g1''" and st = None and en = None and order = SortAscending and n = 1
      and limit = 100 and route_matches = "\<lambda>pat _. pat = ''/api/v1/gpus/:id/telemetry''" and disconnect = "\<lambda>_. None"
      and getwd = None and read_file = "\<lambda>_. None", OF t _ _ _ c(1,2) _ _ _ _ c(1,2,1) _ _ app]
  show ?thesis
    using year_two gpu_request_asks
    by (simp add: GetEnv_def row_size_def sel stored_rows_def routes_telemetry_def upt_rec)
      (elim exE conjE, simp, blast)
qed

end
