(* ===== verification/ProducerMocks.thy ===== *)
theory ProducerMocks
  imports Message
begin

text \<open>
  \<open>internal/producer/mocks.go\<close>: the logger and the message writer that stand in for the real ones in
  tests. The mutex makes each call atomic; the arguments of a format are not kept.
\<close>

section \<open>Logger\<close>

record MockLogger =
  ml_Logs :: "string list"
  ml_Fatals :: "string list"

definition NewMockLogger :: MockLogger where
  "NewMockLogger = \<lparr>ml_Logs = [], ml_Fatals = []\<rparr>"

definition Mock_Logf :: "string \<Rightarrow> MockLogger \<Rightarrow> MockLogger" where
  "Mock_Logf fmt l = l\<lparr>ml_Logs := ml_Logs l @ [fmt]\<rparr>"

definition Mock_Fatalf :: "string \<Rightarrow> MockLogger \<Rightarrow> MockLogger" where
  "Mock_Fatalf fmt l = l\<lparr>ml_Fatals := ml_Fatals l @ [fmt]\<rparr>"

section \<open>Message writer\<close>

record MockMessageWriter =
  mw_Messages :: "Message list"
  mw_shouldError :: bool
  mw_errorMsg :: string

definition NewMockMessageWriter :: MockMessageWriter where
  "NewMockMessageWriter = \<lparr>mw_Messages = [], mw_shouldError = False, mw_errorMsg = []\<rparr>"

text \<open>\<open>SimpleError\<close> is an error that is its message.\<close>

definition NewError :: "string \<Rightarrow> go_error" where
  "NewError msg = OtherError msg"

definition Mock_Write :: "Message \<Rightarrow> MockMessageWriter \<Rightarrow> go_error option \<times> MockMessageWriter" where
  "Mock_Write msg m =
     (if mw_shouldError m then (Some (NewError (mw_errorMsg m)), m)
      else (None, m\<lparr>mw_Messages := mw_Messages m @ [msg]\<rparr>))"

definition Mock_SetError :: "bool \<Rightarrow> string \<Rightarrow> MockMessageWriter \<Rightarrow> MockMessageWriter" where
  "Mock_SetError enabled msg m = m\<lparr>mw_shouldError := enabled, mw_errorMsg := msg\<rparr>"

section \<open>Facts\<close>

text \<open>Calls in a row: what was written while no error was set is kept, in order, and every write fails
  or succeeds by the last \<open>SetError\<close> before it.\<close>

datatype mock_call = Write_call Message | SetError_call bool string

fun mock_calls :: "mock_call list \<Rightarrow> MockMessageWriter \<Rightarrow> go_error option list \<times> MockMessageWriter" where
  "mock_calls [] m = ([], m)"
| "mock_calls (Write_call msg # cs) m =
     (let (e, m') = Mock_Write msg m; (es, m'') = mock_calls cs m' in (e # es, m''))"
| "mock_calls (SetError_call b msg # cs) m = mock_calls cs (Mock_SetError b msg m)"

fun kept :: "bool \<Rightarrow> mock_call list \<Rightarrow> Message list" where
  "kept failing [] = []"
| "kept failing (Write_call msg # cs) = (if failing then kept failing cs else msg # kept failing cs)"
| "kept failing (SetError_call b s # cs) = kept b cs"

lemma mock_calls_keep:
  "mock_calls cs m = (es, m') \<Longrightarrow> mw_Messages m' = mw_Messages m @ kept (mw_shouldError m) cs \<and>
   length (filter (\<lambda>e. e = None) es) = length (kept (mw_shouldError m) cs)"
proof (induction cs arbitrary: m es)
  case (Cons c cs)
  then show ?case
    by (cases c) (fastforce simp: Mock_Write_def Mock_SetError_def Let_def split: prod.splits if_splits)+
qed simp

lemma NewError_text: "error_text (NewError msg) = msg"
  by (simp add: NewError_def)

end
