(* ===== verification/TransformersProps.thy ===== *)
theory TransformersProps
  imports Transformers
begin

text \<open>
  \<open>ParseLabels\<close> reads back a list of labels that was written in its format, and the transformation
  of a row as a map transforms nothing.
\<close>

section \<open>Runes and white space\<close>

lemma runes_append: "valid_utf8 a \<Longrightarrow> runes (a @ b) = runes a @ runes b"
proof (induction a rule: runes.induct)
  case (1 a)
  show ?case
  proof (cases "a = []")
    case False
    with "1.prems" have s: "0 < rune_size a" "valid_utf8 (drop (rune_size a) a)"
      by (simp_all add: valid_utf8.simps [of a] split: if_splits)
    have "a @ b = take (rune_size a) a @ (drop (rune_size a) a @ b)" by simp
    then have app: "rune_size (a @ b) = rune_size a"
      using rune_size_take_append [OF s(1), of "drop (rune_size a) a @ b"] by (simp only: append_assoc)
    have "rune_size a \<le> length a" by (rule rune_size_length)
    with s False app "1.IH"(1) [OF False s] show ?thesis
      by (simp add: runes.simps [of "a @ b"] runes.simps [of a])
  qed simp
qed

lemma TrimLeft_plain: "plain c \<Longrightarrow> TrimLeft (c # s) = c # s"
  by (subst TrimLeft.simps) (simp add: space_len_plain)

lemma TrimRight_plain:
  assumes "plain c"
  shows "TrimRight (s @ [c]) = s @ [c]"
proof -
  have c: "(of_char c :: nat) < 128" "32 < (of_char c :: nat)" using assms by (simp_all add: plain_def)
  have "space_len [x, c] \<noteq> 2" "space_len [x, y, c] \<noteq> 3" for x y
    using c by (auto simp: space_len_def byte_at_def Let_def)
  then have "space_suffix (s @ [c]) = 0"
    using space_len_plain [OF assms, of "[]"]
    by (cases s rule: rev_cases; cases "butlast s" rule: rev_cases) (auto simp: space_suffix_def numeral_eq_Suc)
  then show ?thesis by (subst TrimRight.simps) simp
qed

lemma TrimSpace_plain: "plain c \<Longrightarrow> plain d \<Longrightarrow> TrimSpace (c # s @ [d]) = c # s @ [d]"
  using TrimRight_plain [of d "c # s"] by (simp add: TrimSpace_def TrimLeft_plain)

lemma TrimSpace_all_plain:
  assumes "\<forall>c \<in> set s. plain c"
  shows "TrimSpace s = s"
proof (cases s rule: rev_cases)
  case Nil
  then show ?thesis by (simp add: TrimSpace_def TrimLeft.simps TrimRight.simps space_suffix_def)
next
  case (snoc t d)
  with assms TrimSpace_plain [of _ d] TrimRight_plain [of d "[]"] show ?thesis
    by (cases t) (simp_all add: TrimSpace_def TrimLeft_plain)
qed

section \<open>Labels\<close>

text \<open>Inside quotes: no quote, unless after a backslash, and no backslash at the end.\<close>

fun quoted_ok :: "string list \<Rightarrow> bool" where
  "quoted_ok [] = True"
| "quoted_ok (r # rs) =
     (if r = [CHR 0x5C] then (case rs of [] \<Rightarrow> False | _ # rs' \<Rightarrow> quoted_ok rs')
      else r \<noteq> [CHR 0x22] \<and> quoted_ok rs)"

definition label_text :: "string \<times> string \<Rightarrow> string" where
  "label_text kv = fst kv @ CHR ''='' # CHR 0x22 # snd kv @ [CHR 0x22]"

definition label_ok :: "string \<times> string \<Rightarrow> bool" where
  "label_ok kv \<longleftrightarrow> (\<forall>c \<in> set (fst kv). plain c \<and> c \<notin> {CHR ''='', CHR '','', CHR 0x22, CHR 0x5C}) \<and>
     valid_utf8 (snd kv) \<and> quoted_ok (runes (snd kv))"

lemma label_parts_plain:
  "\<forall>c \<in> set k. c \<notin> {CHR '','', CHR 0x22, CHR 0x5C} \<Longrightarrow>
   label_parts (map (\<lambda>c. [c]) k @ rs) parts cur False False = label_parts rs parts (cur @ k) False False"
  by (induction k arbitrary: cur) auto

lemma label_parts_quoted:
  "quoted_ok rs \<Longrightarrow>
   label_parts (rs @ rest) parts cur True False = label_parts rest parts (cur @ concat rs) True False"
  by (induction rs arbitrary: cur rule: quoted_ok.induct) (auto split: if_splits list.splits)

lemma runes_label:
  assumes "label_ok kv"
  shows "runes (label_text kv @ s) =
    map (\<lambda>c. [c]) (fst kv @ [CHR ''='']) @ [CHR 0x22] # runes (snd kv) @ [CHR 0x22] # runes s"
proof -
  have ascii: "runes (x @ y) = map (\<lambda>c. [c]) x @ runes y" if "\<forall>c \<in> set x. (of_char c :: nat) < 0x80" for x y
    using that by (simp add: runes_append valid_utf8_ascii runes_ascii)
  have k: "\<forall>c \<in> set (fst kv @ ''='' @ [CHR 0x22]). (of_char c :: nat) < 0x80"
    using assms by (auto simp: label_ok_def plain_def)
  have v: "runes (snd kv @ [CHR 0x22] @ s) = runes (snd kv) @ [CHR 0x22] # runes s"
    using assms by (simp add: label_ok_def runes_append ascii [of "[CHR 0x22]", simplified])
  from ascii [OF k, of "snd kv @ [CHR 0x22] @ s"] v show ?thesis by (simp add: label_text_def)
qed

lemma label_parts_label:
  assumes "label_ok kv"
  shows "label_parts (runes (label_text kv @ s)) parts [] False False =
    label_parts (runes s) parts (label_text kv) False False"
proof -
  have k: "\<forall>c \<in> set (fst kv @ [CHR ''='']). c \<notin> {CHR '','', CHR 0x22, CHR 0x5C}"
    using assms by (auto simp: label_ok_def)
  have v: "quoted_ok (runes (snd kv))" "concat (runes (snd kv)) = snd kv"
    using assms by (simp_all add: label_ok_def runes_valid)
  show ?thesis
    unfolding runes_label [OF assms] label_parts_plain [OF k]
    by (simp add: label_parts_quoted [OF v(1)] v(2) label_text_def)
qed

lemma label_parts_written:
  "ls \<noteq> [] \<Longrightarrow> \<forall>kv \<in> set ls. label_ok kv \<Longrightarrow>
   label_parts (runes (join (CHR '','') (map label_text ls))) parts [] False False = parts @ map label_text ls"
proof (induction ls arbitrary: parts)
  case (Cons kv ls)
  then have kv: "label_ok kv" by simp
  show ?case
  proof (cases "ls = []")
    case True
    with label_parts_label [OF kv, of "[]" parts] show ?thesis by (simp add: label_text_def)
  next
    case False
    let ?rest = "join (CHR '','') (map label_text ls)"
    have "runes (CHR '','' # ?rest) = [CHR '',''] # runes ?rest"
      using runes_append [of "'',''" ?rest] by (simp add: valid_utf8_ascii runes_ascii)
    with label_parts_label [OF kv, of "CHR '','' # ?rest" parts] Cons False show ?thesis
      by (simp add: join_Cons)
  qed
qed simp

lemma label_pair_text:
  assumes "label_ok kv"
  shows "label_pair (label_text kv) = Some kv"
proof -
  have quote: "plain (CHR 0x22)" "plain (CHR ''='')" by (simp_all add: plain_def)
  have k: "\<forall>c \<in> set (fst kv). plain c" "CHR ''='' \<notin> set (fst kv)" using assms by (auto simp: label_ok_def)
  obtain c s where c: "fst kv @ CHR ''='' # CHR 0x22 # snd kv = c # s" "plain c"
    using quote k(1) by (cases "fst kv") auto
  then have "label_text kv = c # s @ [CHR 0x22]"
    by (metis append.assoc append_Cons label_text_def)
  with TrimSpace_plain [OF c(2) quote(1)] have "TrimSpace (label_text kv) = label_text kv" by simp
  moreover have "TrimSpace (CHR 0x22 # snd kv @ [CHR 0x22]) = CHR 0x22 # snd kv @ [CHR 0x22]"
    using quote(1) by (intro TrimSpace_plain)
  ultimately show ?thesis
    using TrimSpace_all_plain [OF k(1)] Cut_append [OF k(2)]
    by (simp add: label_pair_def label_text_def strip_quotes_def nth_append)
qed

lemma update_new: "k \<notin> fst ` set al \<Longrightarrow> AList.update k v al = al @ [(k, v)]"
  by (induction al) auto

lemma fold_update_new:
  "distinct (map fst (al @ ls)) \<Longrightarrow> fold (\<lambda>(k, v). AList.update k v) ls al = al @ ls"
proof (induction ls arbitrary: al)
  case (Cons kv ls)
  then show ?case using Cons.IH [of "al @ [kv]"] by (cases kv) (auto simp: update_new)
qed simp



section \<open>Rows\<close>

text \<open>C39: Streaming transforms no column that has a name: whatever columns are named as the timestamp and
  the labels, the payload of a row has every non-empty cell of a named column (and an empty \<open>timestamp\<close>) as
  the text it is in the file, because the name of a column is looked up by its index in a map and comes
  out empty. So it is the non-empty cell of a column without a name that becomes the current time, when a
  timestamp's column was named and found, or else is parsed as labels, when theirs was. The variant on raw rows does
  put the current time into the timestamp's column, when the names of the columns are distinct.\<close>

theorem rows_never_transformed:
  "map_of (TransformRow (NewRowTransformer rd tsName labelsName) now (row_of (rd_header rd) rec)) =
      (\<lambda>col. case map_of (row_of (rd_header rd) rec) col of
               None \<Rightarrow> None
             | Some val \<Rightarrow>
                 if val = [] \<and> col \<noteq> ''timestamp'' then None
                 else if col \<noteq> [] then Some (PStr val)
                 else if tsName \<noteq> [] \<and> 0 \<le> FindColumnIndex rd tsName then Some (PStr (FormatRFC3339Nano now))
                 else if labelsName \<noteq> [] \<and> 0 \<le> FindColumnIndex rd labelsName then Some (PLabels (ParseLabels val))
                 else Some (PStr val)) \<and>
    (distinct (rd_header rd) \<and> FindColumnIndex rd tsName = int i \<longrightarrow>
      map_of (TransformRowWithRaw now (rd_header rd) rec (FindColumnIndex rd tsName) li) (rd_header rd ! i) =
        Some (PStr (FormatRFC3339Nano now)))"
proof (intro conjI impI)
  show "map_of (TransformRow (NewRowTransformer rd tsName labelsName) now (row_of (rd_header rd) rec)) =
      (\<lambda>col. case map_of (row_of (rd_header rd) rec) col of
               None \<Rightarrow> None
             | Some val \<Rightarrow>
                 if val = [] \<and> col \<noteq> ''timestamp'' then None
                 else if col \<noteq> [] then Some (PStr val)
                 else if tsName \<noteq> [] \<and> 0 \<le> FindColumnIndex rd tsName then Some (PStr (FormatRFC3339Nano now))
                 else if labelsName \<noteq> [] \<and> 0 \<le> FindColumnIndex rd labelsName then Some (PLabels (ParseLabels val))
                 else Some (PStr val))"
    by (auto simp: TransformRow_map_of row_of_distinct transform_cell_def NewRowTransformer_def fun_eq_iff
        split: option.splits)
next
  assume names: "distinct (rd_header rd) \<and> FindColumnIndex rd tsName = int i"
  then have "i < length (rd_header rd)"
    using column_index_range [of 0 "rd_header rd" tsName "int i"] by (simp add: FindColumnIndex_def)
  with TransformRowWithRaw_timestamp [of "rd_header rd" i] names
  show "map_of (TransformRowWithRaw now (rd_header rd) rec (FindColumnIndex rd tsName) li) (rd_header rd ! i) =
      Some (PStr (FormatRFC3339Nano now))" by simp
qed

definition example_reader :: MetricsCSVReader where
  "example_reader =
     \<lparr>rd_file = None, rd_reader = NewReader [] EOF, rd_header = [''timestamp'', ''labels_raw''], rd_rowNum = 0,
      rd_hasError = False, rd_lastError = None\<rparr>"

theorem rows_never_transformed_witness:
  "map_of (TransformRow (NewRowTransformer example_reader ''timestamp'' ''labels_raw'') zero_time
       (row_of [''timestamp'', ''labels_raw''] [''then'', ''a=1''])) ''timestamp'' = Some (PStr ''then'') \<and>
   map_of (TransformRowWithRaw zero_time [''timestamp'', ''labels_raw''] [''then'', ''a=1''] 0 1) ''timestamp'' =
     Some (PStr (FormatRFC3339Nano zero_time))"
proof -
  have h: "rd_header example_reader = [''timestamp'', ''labels_raw'']" by (simp add: example_reader_def)
  have "FindColumnIndex example_reader ''timestamp'' = int 0"
    by (simp add: FindColumnIndex_def h EqualFold_def)
  from rows_never_transformed [of example_reader "''timestamp''" "''labels_raw''" zero_time "[''then'', ''a=1'']" 0 1] this
  show ?thesis
    using row_of_cell [of "[''timestamp'', ''labels_raw'']" 0 "[''then'', ''a=1'']"] by (simp add: h)
qed

end
