(* ===== verification/Spec2Isabelle.thy ===== *)
theory Spec2Isabelle
  imports BrokerProgress RunningPipeline MetricsProgram MetricsJson EndToEnd ProducerMocks TransformersProps
begin

text \<open>
  A verification development for the message streaming application: a producer program reads GPU
  metrics from a CSV file and sends each row as a message to a broker over TCP; the broker hands the
  messages on to consumers; a consumer program stores them in MongoDB; a metrics service answers HTTP
  requests from that store. All the Go code that carries this path is modelled on bytes, from the
  text of the file to the documents in the collection and the answers of the API. The theorem
  \<open>EndToEnd.csv_to_telemetry_answers\<close> is about the four programs put together, one after the other;
  \<open>RunningPipeline.running_pipeline_keeps_order\<close> is about them running at once.

  \<^bold>\<open>Conventions.\<close> A Go string is the list of its bytes as HOL characters, a byte slice a list of
  \<open>8 word\<close>, an \<open>int\<close> of the code a \<open>64 word\<close> where it can wrap around. Errors are values
  (\<open>go_error\<close>, a result is \<open>go_error + 'a\<close> or a pair with an optional error), panics are \<open>Inl\<close> of the
  type \<open>'a go\<close>. A Go map is a list of pairs with distinct keys, or a HOL map where its order cannot be
  seen; an order of iteration, the clock, random bytes, ids and everything outside the repository (the
  file system, the network, the MongoDB driver, the path matching of gin) are arguments of the
  definitions.

  \<^bold>\<open>The parts and their theories.\<close>

  \<^descr> Prelude, GoChan, GoIO, Common: bytes, errors, panics, channels with a buffer, byte streams and
  \<open>io.ReadFull\<close>, environment variables (\<open>internal/common/utility.go\<close>).
  \<^descr> Protocol, Frames: \<open>internal/protocol/frame.go\<close>, \<open>WriteFrame\<close> and \<open>ReadFrame\<close> with the caller's
  buffer and its reuse. \<open>ReadFrame\<close> is a function of \<open>io.ReadFull\<close>; the locale \<open>full_reader\<close> is what it
  relies on, interpreted for a flat stream and for one cut into TCP segments. \<open>decode_frames\<close> is the
  loop over \<open>ReadFrame\<close> that the loops of the broker and of the consumer are reduced to.
  \<^descr> MemoryQueue: \<open>internal/broker/memory_queue.go\<close>. The interface \<open>MessageQueue\<close> is the locale
  \<open>message_queue\<close> (a bounded list as the abstract state), interpreted on the code's operations.
  \<^descr> Registry: \<open>internal/broker/consumer_registry.go\<close> over a heap of channels; the interface
  \<open>ConsumerRegistry\<close> is the locale \<open>consumer_registry\<close>.
  \<^descr> Broker, BrokerProps: \<open>internal/broker/broker.go\<close> and \<open>interfaces.go\<close>. The handlers of one
  connection run alone; \<open>handleConsumerQueue\<close> is a \<open>partial_function\<close> and proved to return.
  \<^descr> BrokerSystem: any number of connections and the shutdown, interleaved in atomic steps
  (\<open>conn_step\<close>, \<open>close_step\<close>, \<open>sys_step\<close>); invariants over the reachable states. An operation under the
  registry's mutex is one step, since it holds the mutex for no call that can wait. The state records what
  each channel accepted and what entered and left the queue; the theorems on delivery are about these records.
  \<^descr> BrokerFifo: an abstract bounded queue between producers and consumers (\<open>fifo_step\<close>), which queue
  mode of the interleaved broker refines; the order of delivery is read off it.
  \<^descr> BrokerProgress: a handler of the interleaved broker waits for its own connection (no deadline is set,
  so a peer that does not send or read holds up its own handler), a broadcast consumer also for a
  message in its channel, and for nothing else; a consumer that registers after the shutdown waits for ever.
  \<^descr> HttpServer: a \<open>net/http\<close> server with the connections it has accepted and the requests in flight; after
  \<open>Shutdown\<close> it accepts none, and answers at most one request more on each.
  \<^descr> BrokerProgram: \<open>cmd/message_queue\<close> running. \<open>prog_step\<close> adds the accept goroutine,
  the health server and the main goroutine with its shutdown to the steps of the handlers; a
  connection is what its bytes make of it (\<open>accept_conn\<close>). The program refines the interleaved broker.
  \<^descr> GoStrings, GoTime, GoUtf8, GoJson, GoJsonStrings, GoJsonValues, GoCsv with GoJsonProps, GoJsonHtml,
  GoCsvProps: what the code uses of \<open>strings\<close>, \<open>time\<close>, \<open>unicode/utf8\<close>, \<open>encoding/json\<close> and
  \<open>encoding/csv\<close>, as executable functions on bytes, and that parsing inverts printing.
  \<^descr> Message: \<open>internal/message/message.go\<close>, with \<open>json.Marshal\<close> and \<open>json.Unmarshal\<close> on a message.
  \<^descr> CsvReader: \<open>internal/producer/csv_reader.go\<close>. The locale \<open>row_reader\<close> is what a loop over the
  interface \<open>CSVReader\<close> relies on, interpreted for reading maps and for reading raw rows.
  \<^descr> Transformers, TransformersProps: \<open>internal/producer/transformers.go\<close>.
  \<^descr> Producer, ProducerProps: \<open>internal/producer/producer.go\<close> and \<open>cmd/producer/main.go\<close>.
  \<^descr> Metrics, MetricsApi, MetricsProps: \<open>internal/metrics\<close>: pagination on 64-bit integers, sorting (the
  interface \<open>Sorter\<close> is the locale \<open>sorter\<close>), authentication, query parameters, the service, the
  handlers and the gin adapter as the calls they make on the response.
  \<^descr> MetricsJson: the bodies of the answers as the text the encoder writes, and reading them back.
  \<^descr> Storage, StorageProps: \<open>internal/storage/mongodb.go\<close> over a collection that is an argument. What MongoDB
  documents are the hypotheses \<open>keeps\<close> (documents as BSON: dates in milliseconds, an object id where there is
  no \<open>_id\<close>; a document may be refused) and \<open>answers_queries\<close> (matching, counting, sorting and cutting, with an
  order of equal timestamps that each query chooses anew); both hold of \<open>memory_collection\<close>.
  \<^descr> Consumer, ConsumerProps: \<open>cmd/consumer/main.go\<close>.
  \<^descr> MessageSize, Pipeline: how long a message gets; the producer program, the broker in queue mode and
  the consumer program one after the other.
  \<^descr> Programs: \<open>cmd/message_queue\<close> and \<open>cmd/metrics\<close>: configuration, wiring and the accept loop.
  \<^descr> MetricsProgram: \<open>cmd/metrics\<close> running: serving, requests in flight, the signal, the shutdown and the
  deferred close of the store (\<open>metrics_step\<close>).
  \<^descr> EndToEnd: from the file to the answers of the metrics program. RunningPipeline: what a consumer
  program has stored while the broker program runs.
  \<^descr> ProducerMocks: \<open>internal/producer/mocks.go\<close>.

  \<^bold>\<open>What the lemmas show.\<close> Frames: reading inverts writing however the stream is cut, oversized and
  truncated frames are errors, the buffer does not matter. Queue: it refines a bounded list; closing
  it discards. Registry: a broadcast reaches the consumers up to the first full one; closing closes
  every channel once. Broker: what each kind of connection does to the state, end to end in both
  modes; in the interleaved system the only possible panic is a send on a channel closed by a leaving
  consumer, deliveries keep the order of each producer, and queue mode conserves messages and refines a
  bounded queue; a handler waits only for its peer or, as a broadcast consumer, for a message. The broker program can
  always be stopped, in the order listener, health server, broker, and its states are those of the
  interleaved broker, so what holds of that holds of the program. JSON and
  messages: a well-formed message is read back as it was, its payload compacted. CSV: a written table
  is read back; reading ends for every file. Producer: every row becomes a well-formed message, one
  frame each and in order; no column with a name is ever transformed, since its name is not found. Consumer:
  one document for each readable message; a message without payload stops it with a panic. Metrics:
  the pages of a list cover it without overlap, those of a query do when it fits one page or its timestamps
  differ (with equal ones they may repeat a document and leave one out), page numbers that overflow panic, no
  request without the token reaches a handler, logging changes nothing for handlers that send no
  informational status, the text of a listing is read back as it was. The metrics program answers no request for data without the token, whatever happens,
  and exits with 0 only after the store was closed. End to end: following the pages of a telemetry
  query gives the rows of the file that it asks for, each once under the same condition; and under every interleaving a consumer
  program has stored documents of rows in the order of the file, none twice.

  \<^bold>\<open>Bounds and fuel.\<close> The parser of JSON values is recursive on fuel and on the nesting depth the
  library allows (\<open>max_depth\<close>, 10000). \<open>parse_json\<close> starts with the fuel \<open>2 * length s + 1\<close>: each call
  uses up one unit and at least every second one a byte of the text, so the fuel is never what stops
  it; \<open>GoJsonProps.parse_render\<close> shows that every well-formed value up to that depth is parsed. The
  end-to-end theorem of queue mode is for the first 10000 messages, the size the broker gives its
  queue; that of the pipeline also for records of at most 170000 bytes, whose messages fit a frame of
  1 MiB even if every byte is escaped. Loops over streams and files are total
  functions, by the bytes left to read.

  \<^bold>\<open>Not modelled.\<close> Logging (\<open>internal/common/logger.go\<close> and the calls of it), the
  empty \<open>internal/queue/memory.go\<close>, the length of timeouts, deadlines and sleeps (what they guard is a
  step that may come at any time), how long a peer takes, limits of memory (such as the panic of \<open>make\<close> for
  a channel too large to allocate), the inside of \<open>net/http\<close>, what gin does with the calls the handlers
  make, the JSON encoding of a stored document, and the texts of the errors of \<open>encoding/json\<close> and the
  positions in those of \<open>encoding/csv\<close>. Numbers in JSON payloads stay the text they were.
\<close>

end
